(* ===== verification/Prelude.thy ===== *)
theory Prelude
  imports Main "HOL-Library.Word"
begin

section \<open>Prelude: C memory, results, little-endian fields\<close>

text \<open>
  What every component of the development shares.

  \<^item> The machine types: \<open>byte\<close> is \<open>unsigned char\<close>/\<open>char\<close>, \<open>u16\<close> is \<open>unsigned short\<close>,
    \<open>u32\<close> is \<open>unsigned int\<close>; a C \<open>int\<close> that is copied bit by bit (a command, a result) is
    an \<open>u32\<close> read with \<open>sint\<close>.
  \<^item> Results: \<open>'a res\<close> is either \<open>Inl\<close> of a \<open>fault\<close> (undefined behaviour of the C++ code, an
    exception it throws, or \<open>Blocked\<close>: a system call the kernel has not answered) or \<open>Inr\<close> of a
    value.
  \<^item> Memory: an array is a list; a freshly allocated array is a list of \<open>cell\<close>s that are
    \<open>None\<close> until written. \<open>read_at\<close> and \<open>write_at\<close> are \<open>memcpy\<close> from and to an array and
    fault outside of it.
  \<^item> Little-endian fields: \<open>le32\<close> is how an \<open>unsigned int\<close> lies in memory (the hosts of this
    program are little-endian), \<open>of_le32\<close> reads it back.
  \<^item> The locale \<open>field_codec\<close>: what a reader of messages relies on when a field of fixed width
    was written by the matching encoder.
\<close>

subsection \<open>Lemma collections\<close>

named_theorems res_simps \<open>evaluation of results and of memory accesses\<close>
named_theorems frame_simps \<open>what an operation leaves unchanged\<close>

subsection \<open>Machine types\<close>

type_synonym byte = "8 word"
type_synonym u16 = "16 word"
type_synonym u32 = "32 word"
type_synonym cell = "byte option"

subsection \<open>Faults and results\<close>

datatype fault =
    OOB_Read
  | OOB_Write
  | Uninit_Read
  | Null_Deref
  | Bad_Alloc
  | Length_Error
  | Blocked

type_synonym 'a res = "fault + 'a"

fun bind_res :: "'a res \<Rightarrow> ('a \<Rightarrow> 'b res) \<Rightarrow> 'b res" where
  "bind_res (Inl e) f = Inl e"
| "bind_res (Inr x) f = f x"

lemma bind_res_Inr_iff:
  "bind_res m f = Inr y \<longleftrightarrow> (\<exists>x. m = Inr x \<and> f x = Inr y)"
  by (cases m) auto

lemma bind_res_Inl_iff:
  "bind_res m f = Inl e \<longleftrightarrow> m = Inl e \<or> (\<exists>x. m = Inr x \<and> f x = Inl e)"
  by (cases m) auto

lemma bind_res_cong [fundef_cong]:
  "m = m' \<Longrightarrow> (\<And>x. m' = Inr x \<Longrightarrow> f x = f' x) \<Longrightarrow> bind_res m f = bind_res m' f'"
  by (cases m') auto

lemma bind_res_assoc: "bind_res (bind_res m f) g = bind_res m (\<lambda>x. bind_res (f x) g)"
  by (cases m) auto

declare bind_res.simps [res_simps]

subsection \<open>Arrays\<close>

definition read_at :: "'a list \<Rightarrow> nat \<Rightarrow> nat \<Rightarrow> 'a list res" where
  "read_at buf off n =
     (if off + n \<le> length buf then Inr (take n (drop off buf)) else Inl OOB_Read)"

definition write_at :: "'a list \<Rightarrow> nat \<Rightarrow> 'a list \<Rightarrow> 'a list res" where
  "write_at buf off xs =
     (if off + length xs \<le> length buf
      then Inr (take off buf @ xs @ drop (off + length xs) buf) else Inl OOB_Write)"

definition index_at :: "'a list \<Rightarrow> int \<Rightarrow> 'a res" where
  "index_at buf i = (if 0 \<le> i \<and> i < int (length buf) then Inr (buf ! nat i) else Inl OOB_Read)"

definition init_cells :: "cell list \<Rightarrow> byte list res" where
  "init_cells cs = (if None \<in> set cs then Inl Uninit_Read else Inr (map the cs))"

text \<open>\<open>new char[n]\<close>: the bytes of the new array are indeterminate.\<close>

definition new_char :: "u32 \<Rightarrow> cell list" where
  "new_char n = replicate (unat n) None"

text \<open>\<open>std::string::resize(n)\<close>: cut, or fill with zero bytes.\<close>

definition string_resize :: "byte list \<Rightarrow> nat \<Rightarrow> byte list" where
  "string_resize s n = take n s @ replicate (n - length s) 0"

text \<open>\<open>std::string::data()\<close> and \<open>c_str()\<close>: the bytes of the string and one zero byte after them.\<close>

definition data_ptr :: "byte list \<Rightarrow> cell list" where
  "data_ptr s = map Some s @ [Some 0]"

lemma read_at_append [res_simps]:
  "off = length p \<Longrightarrow> n = length x \<Longrightarrow> read_at (p @ x @ q) off n = Inr x"
  by (simp add: read_at_def)

lemma read_at_ok: "off + n \<le> length buf \<Longrightarrow> read_at buf off n = Inr (take n (drop off buf))"
  by (simp add: read_at_def)

lemma read_at_oob: "length buf < off + n \<Longrightarrow> read_at buf off n = Inl OOB_Read"
  by (simp add: read_at_def)

lemma write_at_append [res_simps]:
  "off = length p \<Longrightarrow> length x = length y \<Longrightarrow> write_at (p @ y @ q) off x = Inr (p @ x @ q)"
  by (simp add: write_at_def)

lemma write_next:
  "off = length p \<Longrightarrow> length x \<le> length y \<Longrightarrow>
   write_at (p @ y) off x = Inr ((p @ x) @ drop (length x) y)"
  by (simp add: write_at_def)

lemma write_first: "length x \<le> length y \<Longrightarrow> write_at y 0 x = Inr (x @ drop (length x) y)"
  by (simp add: write_at_def)

lemma write_at_ok:
  "off + length x \<le> length buf \<Longrightarrow>
   write_at buf off x = Inr (take off buf @ x @ drop (off + length x) buf)"
  by (simp add: write_at_def)

lemma write_at_oob: "length buf < off + length x \<Longrightarrow> write_at buf off x = Inl OOB_Write"
  by (simp add: write_at_def)

lemma write_at_length: "write_at buf off x = Inr buf' \<Longrightarrow> length buf' = length buf"
  by (auto simp: write_at_def split: if_splits)

lemma write_at_Nil [res_simps]: "off \<le> length buf \<Longrightarrow> write_at buf off [] = Inr buf"
  by (simp add: write_at_def)

lemma write_two:
  assumes "pos + 2 \<le> length buf"
  shows "bind_res (write_at buf pos [x]) (\<lambda>b. bind_res (write_at b (pos + 1) [y]) f) =
         f (take pos buf @ [x, y] @ drop (pos + 2) buf)"
proof -
  have 1: "write_at buf pos [x] = Inr (take pos buf @ x # drop (Suc pos) buf)"
    using assms by (simp add: write_at_def)
  have 2: "write_at (take pos buf @ x # drop (Suc pos) buf) (pos + 1) [y] =
      Inr (take pos buf @ [x, y] @ drop (pos + 2) buf)"
    using assms by (simp add: write_at_def Suc_diff_le min_def)
  show ?thesis by (simp only: 1 2 bind_res.simps)
qed

lemma length_string_resize [simp]: "length (string_resize s n) = n"
  by (simp add: string_resize_def)

lemma init_cells_map_Some [res_simps, simp]: "init_cells (map Some bs) = Inr bs"
  by (auto simp: init_cells_def comp_def)

lemma init_cells_Inr_iff: "init_cells cs = Inr bs \<longleftrightarrow> cs = map Some bs"
proof
  assume "init_cells cs = Inr bs"
  then have "None \<notin> set cs" and "bs = map the cs"
    by (auto simp: init_cells_def split: if_splits)
  then show "cs = map Some bs"
    by (induction cs arbitrary: bs) auto
qed simp

lemma length_new_char [simp]: "length (new_char n) = unat n"
  by (simp add: new_char_def)

lemma length_data_ptr [simp]: "length (data_ptr s) = Suc (length s)"
  by (simp add: data_ptr_def)


subsection \<open>Little-endian 32-bit fields\<close>

definition le32 :: "u32 \<Rightarrow> byte list" where
  "le32 w = [ucast w, ucast (drop_bit 8 w), ucast (drop_bit 16 w), ucast (drop_bit 24 w)]"

definition of_le32 :: "byte list \<Rightarrow> u32" where
  "of_le32 bs = foldr (\<lambda>b w. or (ucast b) (push_bit 8 w)) bs 0"

lemma length_le32 [simp]: "length (le32 w) = 4"
  by (simp add: le32_def)

lemma of_le32_le32 [simp]: "of_le32 (le32 w) = w"
proof (rule bit_word_eqI)
  fix n
  assume "n < LENGTH(32)"
  then show "bit (of_le32 (le32 w)) n = bit w n"
    by (cases "n < 24"; cases "n < 16") (auto simp: le32_def of_le32_def bit_simps)
qed

lemma unat32_of_nat: "n < 2 ^ 32 \<Longrightarrow> unat (word_of_nat n :: u32) = n"
  by (simp add: unsigned_of_nat take_bit_nat_eq_self)

lemma unat32_bound: "unat (w :: u32) < 2 ^ 32"
  using unsigned_less [of w] by simp

lemma unat32_add: "unat (a :: u32) + unat b < 2 ^ 32 \<Longrightarrow> unat (a + b) = unat a + unat b"
  by (simp add: unat_word_ariths)

lemma unat32_sub: "unat (b :: u32) \<le> unat a \<Longrightarrow> unat (a - b) = unat a - unat b"
  by (simp add: unat_sub word_le_nat_alt)

lemma byte_bit_high: "8 \<le> n \<Longrightarrow> \<not> bit (b :: byte) n"
  using bit_imp_le_length [of b n] by auto

lemma byte_bound: "unat (b :: byte) < 256"
  using unsigned_less [of b] by simp

lemma length_4_cases:
  assumes "length bs = (4::nat)"
  obtains a b c d where "bs = [a, b, c, d]"
  using assms by (auto simp: numeral_eq_Suc length_Suc_conv)

lemma le32_of_le32: "length bs = 4 \<Longrightarrow> le32 (of_le32 bs) = bs"
  by (erule length_4_cases)
    (auto simp: le32_def of_le32_def bit_simps byte_bit_high intro!: bit_word_eqI)

lemma le32_inject [simp]: "le32 v = le32 w \<longleftrightarrow> v = w"
  by (metis of_le32_le32)

text \<open>\<open>memcpy(&x, p + off, sizeof(unsigned int))\<close>\<close>

definition load32 :: "cell list \<Rightarrow> nat \<Rightarrow> u32 res" where
  "load32 buf off =
     bind_res (read_at buf off 4) (\<lambda>cs. bind_res (init_cells cs) (\<lambda>bs. Inr (of_le32 bs)))"

lemma load32_append [res_simps]:
  "off = length p \<Longrightarrow> load32 (p @ map Some (le32 w) @ q) off = Inr w"
  by (simp add: load32_def read_at_append)

lemma load32_oob: "length buf < off + 4 \<Longrightarrow> load32 buf off = Inl OOB_Read"
  by (simp add: load32_def read_at_oob)

lemma load32_map_Some:
  "off + 4 \<le> length bs \<Longrightarrow> load32 (map Some bs @ q) off = Inr (of_le32 (take 4 (drop off bs)))"
  by (simp add: load32_def read_at_def take_map drop_map)

subsection \<open>The interface of a fixed-width field\<close>

text \<open>
  A writer lays values out with an encoder of fixed width; a reader cuts the field out at its
  offset and decodes it. What the reader relies on is that the width is fixed and that decoding
  undoes encoding. \<open>exact_codec\<close> adds that every byte string of the width is the encoding of
  some value, which the reader of a message from outside needs.
\<close>

locale field_codec =
  fixes enc :: "'a \<Rightarrow> 'b list"
    and dec :: "'b list \<Rightarrow> 'a"
    and width :: nat
  assumes enc_width: "length (enc x) = width"
    and dec_enc: "dec (enc x) = x"
begin

lemma read_field: "off = length p \<Longrightarrow> dec (take width (drop off (p @ enc x @ q))) = x"
  by (simp add: enc_width dec_enc)

lemma enc_inject: "enc x = enc y \<longleftrightarrow> x = y"
  by (metis dec_enc)

lemma enc_prefix_cancel: "enc x @ p = enc y @ q \<longleftrightarrow> x = y \<and> p = q"
  using append_eq_append_conv [of "enc x" "enc y" p q] by (simp add: enc_width enc_inject)

lemma length_concat_enc: "length (concat (map enc xs)) = width * length xs"
  by (induction xs) (simp_all add: enc_width)

lemma read_nth_field:
  "i < length xs \<Longrightarrow> dec (take width (drop (width * i) (concat (map enc xs)))) = xs ! i"
proof (induction xs arbitrary: i)
  case (Cons x xs)
  then show ?case by (cases i) (simp_all add: enc_width dec_enc)
qed simp

end

locale exact_codec = field_codec +
  assumes enc_dec: "length bs = width \<Longrightarrow> enc (dec bs) = bs"
begin

lemma write_back: "off + width \<le> length m \<Longrightarrow>
    take off m @ enc (dec (take width (drop off m))) @ drop (off + width) m = m"
  by (simp add: enc_dec) (metis add.commute append_take_drop_id drop_drop)

end

text \<open>Two fields next to each other are again a field.\<close>

locale codec_pair =
  a: exact_codec enc1 dec1 width1 + b: exact_codec enc2 dec2 width2
  for enc1 :: "'a \<Rightarrow> 'c list" and dec1 width1
    and enc2 :: "'b \<Rightarrow> 'c list" and dec2 width2

sublocale codec_pair \<subseteq> pair: exact_codec
  "\<lambda>(x, y). enc1 x @ enc2 y"
  "\<lambda>bs. (dec1 (take width1 bs), dec2 (drop width1 bs))"
  "width1 + width2"
  by unfold_locales
    (auto simp: a.enc_width b.enc_width a.dec_enc b.dec_enc a.enc_dec b.enc_dec)

interpretation u32_field: exact_codec le32 of_le32 4
  by unfold_locales (simp_all add: le32_of_le32)

interpretation u32_pair: codec_pair le32 of_le32 4 le32 of_le32 4 ..


subsection \<open>Counting in a list that is updated by index\<close>

abbreviation count_if :: "('a \<Rightarrow> bool) \<Rightarrow> 'a list \<Rightarrow> nat" where
  "count_if P xs \<equiv> length (filter P xs)"

lemma count_if_update:
  "i < length xs \<Longrightarrow>
   count_if P (xs[i := x]) + of_bool (P (xs ! i)) = count_if P xs + of_bool (P x)"
proof (induction xs arbitrary: i)
  case (Cons y ys)
  then show ?case by (cases i) auto
qed simp

lemma count_if_update_same:
  "i < length xs \<Longrightarrow> P x = P (xs ! i) \<Longrightarrow> count_if P (xs[i := x]) = count_if P xs"
  using count_if_update [of i xs P x] by simp

lemma count_if_mono: "(\<And>x. x \<in> set xs \<Longrightarrow> P x \<Longrightarrow> Q x) \<Longrightarrow> count_if P xs \<le> count_if Q xs"
  by (induction xs) (auto simp: le_SucI)

subsection \<open>Labelled transition systems\<close>

text \<open>The states reachable from \<open>s0\<close> by steps whose labels \<open>I\<close> allows.\<close>

inductive reachable ::
  "('s \<Rightarrow> 'l \<Rightarrow> 's \<Rightarrow> bool) \<Rightarrow> ('l \<Rightarrow> bool) \<Rightarrow> 's \<Rightarrow> 's \<Rightarrow> bool"
  for step I s0 where
  start: "reachable step I s0 s0"
| step: "reachable step I s0 s \<Longrightarrow> step s l s' \<Longrightarrow> I l \<Longrightarrow> reachable step I s0 s'"

lemma reachable_mono:
  "reachable step I s0 s \<Longrightarrow> (\<And>l. I l \<Longrightarrow> J l) \<Longrightarrow> reachable step J s0 s"
  by (induction rule: reachable.induct) (auto intro: reachable.intros)

lemma reachable_trans:
  "reachable step I s1 s2 \<Longrightarrow> reachable step I s0 s1 \<Longrightarrow> reachable step I s0 s2"
  by (induction rule: reachable.induct) (auto intro: reachable.step)

text \<open>A state predicate that every allowed step keeps holds in every reachable state.\<close>

locale step_invariant =
  fixes step :: "'s \<Rightarrow> 'l \<Rightarrow> 's \<Rightarrow> bool"
    and allowed :: "'l \<Rightarrow> bool"
    and inv :: "'s \<Rightarrow> bool"
  assumes step_keeps: "inv s \<Longrightarrow> step s l s' \<Longrightarrow> allowed l \<Longrightarrow> inv s'"
begin

lemma reachable_inv: "reachable step allowed s0 s \<Longrightarrow> inv s0 \<Longrightarrow> inv s"
  by (induction rule: reachable.induct) (auto intro: step_keeps)

end

text \<open>A component of a larger system: every allowed step of the system is none, one or several steps of it.\<close>

locale step_projection =
  fixes step :: "'s \<Rightarrow> 'l \<Rightarrow> 's \<Rightarrow> bool"
    and allowed :: "'l \<Rightarrow> bool"
    and part :: "'s \<Rightarrow> 't"
    and step_part :: "'t \<Rightarrow> 'k \<Rightarrow> 't \<Rightarrow> bool"
    and allowed_part :: "'k \<Rightarrow> bool"
  assumes part_step: "step s l s' \<Longrightarrow> allowed l \<Longrightarrow> reachable step_part allowed_part (part s) (part s')"
begin

lemma part_reachable:
  "reachable step allowed s0 s \<Longrightarrow> reachable step_part allowed_part (part s0) (part s)"
  by (induction rule: reachable.induct) (auto intro: reachable.start reachable_trans part_step)

end

end
