(* ===== verification/ThreadPool.thy ===== *)
theory ThreadPool
  imports Prelude
begin

section \<open>The thread pool: \<open>server/threadPool/threadpool.h\<close>, \<open>threadpool.cpp\<close>\<close>

text \<open>
  The pool is a concurrent program: worker threads that run \<open>threadfun\<close>, and callers (the receive
  thread, the main thread) inside \<open>initTaskPool\<close>, \<open>addTask\<close>, \<open>releaseTaskPool\<close>, \<open>getInstance\<close> and
  \<open>delInstance\<close>, all of which use the global mutex \<open>mtx\<close>. The model is a step relation: each
  worker and each caller has a program counter, a step is one action of one of them, and which one
  moves is not determined.

  \<^item> A worker's step is \<open>worker_step\<close>, one case per program counter. The four critical sections of
    \<open>threadfun\<close> (and of \<open>needReleaseTaskThread\<close>) contain a single access to the protected fields
    each, so lock, access and unlock are one step, enabled when \<open>mtx\<close> is free.
  \<^item> A caller's step is \<open>caller_step\<close>. The callers keep \<open>mtx\<close> over many actions, during which the
    workers go on with what needs no lock (in particular they change their \<open>m_state\<close>), so those
    sections are sequences of steps and \<open>mtx\<close> records the holder.
  \<^item> The sleep of \<open>createNewThread\<close> and the timed wait of \<open>threadfun\<close> have no duration here: a
    waiting thread may go on at any moment. Running out of the ten sleeps is the label
    \<open>PollTimeout\<close>, so that properties can be stated for runs in which the operating system starts a
    new thread within a second.

  \<open>added\<close>, \<open>taken\<close> and \<open>runs\<close> are history: the tasks handed to \<open>addTask\<close>, the tasks popped and the
  calls of \<open>onTaskProcessor\<close>, in order. The code has no such variables and no step reads them.

  Not modelled: the branches of \<open>createNewThread\<close> for a worker that is not \<open>NULL\<close> (both callers
  pass \<open>NULL\<close>) and for a failed \<open>make_shared\<close> (which throws).
\<close>

subsection \<open>Data\<close>

record 'd threadTask =
  m_worker :: "nat option"
  m_param :: 'd

text \<open>Where a worker stands in \<open>threadfun\<close>.\<close>

datatype wpc =
    W_Start        \<comment> \<open>before \<open>*state = 1\<close> and the test of the parameter\<close>
  | W_Register     \<comment> \<open>before \<open>m_validThreadNums++\<close>\<close>
  | W_Loop         \<comment> \<open>at the loop test\<close>
  | W_Fetch        \<comment> \<open>before the look at the queue\<close>
  | W_Dispatch     \<comment> \<open>before the test of the task\<close>
  | W_Run          \<comment> \<open>in \<open>onTaskProcessor\<close>\<close>
  | W_Idle         \<comment> \<open>before \<open>*state = 1\<close> after the task\<close>
  | W_Check        \<comment> \<open>at the tests of \<open>ifreeTime\<close>\<close>
  | W_NeedRelease  \<comment> \<open>in \<open>needReleaseTaskThread\<close>\<close>
  | W_Wait         \<comment> \<open>in \<open>wait_for\<close>\<close>
  | W_Leave        \<comment> \<open>before \<open>*state = 3\<close>\<close>
  | W_Unregister   \<comment> \<open>before \<open>m_validThreadNums--\<close>\<close>
  | W_Done         \<comment> \<open>returned\<close>

text \<open>A \<open>wgThread\<close> together with the local variables of the \<open>threadfun\<close> that it runs.\<close>

record 'd wgThread =
  t_pc :: wpc
  m_state :: u16       \<comment> \<open>0 will create, 1 idle, 2 busy, 3 released\<close>
  ifreeTime :: u16
  t_task :: "'d threadTask option"
  t_param :: bool      \<comment> \<open>the parameter is not \<open>NULL\<close>\<close>

record 'd threadPool =
  m_tpState :: bool
  m_validThreadNums :: u16
  m_tasks :: "'d threadTask option list"
  m_maxNum :: u32
  m_minNum :: u32
  m_threads :: "nat list"   \<comment> \<open>threads by number, in the order they were created\<close>

text \<open>Where a caller stands in the operation it called.\<close>

datatype 'd cpc =
    C_Idle
  | C_Init int int
  | C_Add "'d threadTask option"
  | C_Scan "nat list"              \<comment> \<open>the threads the loop of \<open>addTask\<close> has not looked at\<close>
  | C_Create nat bool              \<comment> \<open>threads still to create; notify when done\<close>
  | C_Poll nat nat nat bool        \<comment> \<open>the new thread, \<open>tryTimes\<close>, still to create, notify\<close>
  | C_Push nat nat bool
  | C_Unlock bool
  | C_Notify
  | C_Release
  | C_Join bool "nat list"         \<comment> \<open>for \<open>delInstance\<close>; the threads still to join\<close>
  | C_Get
  | C_Del
  | C_Ret int

record 'd sys =
  m_instance :: bool
  pool :: "'d threadPool"
  thr :: "'d wgThread list"
  mtx :: "nat option"
  callers :: "nat \<Rightarrow> 'd cpc"
  added :: "'d threadTask option list"
  taken :: "(nat \<times> 'd threadTask option) list"
  runs :: "(nat \<times> 'd) list"

subsection \<open>The worker: \<open>threadfun\<close>\<close>

definition max_checkTimes :: u32 where
  "max_checkTimes = 30 div 10 + 1"

definition needReleaseTaskThread :: "'d threadPool \<Rightarrow> bool" where
  "needReleaseTaskThread p \<longleftrightarrow> m_minNum p < ucast (m_validThreadNums p)"

definition worker_step :: "'d threadPool \<Rightarrow> 'd wgThread \<Rightarrow> 'd threadPool \<times> 'd wgThread" where
  "worker_step p t =
     (case t_pc t of
        W_Start \<Rightarrow>
          (p, t\<lparr>m_state := 1, t_pc := (if t_param t then W_Register else W_Done)\<rparr>)
      | W_Register \<Rightarrow>
          (p\<lparr>m_validThreadNums := m_validThreadNums p + 1\<rparr>, t\<lparr>ifreeTime := 0, t_pc := W_Loop\<rparr>)
      | W_Loop \<Rightarrow>
          (p, t\<lparr>t_task := None, t_pc := (if m_tpState p then W_Fetch else W_Leave)\<rparr>)
      | W_Fetch \<Rightarrow>
          (case m_tasks p of
             x # xs \<Rightarrow> (p\<lparr>m_tasks := xs\<rparr>, t\<lparr>t_task := x, ifreeTime := 0, t_pc := W_Dispatch\<rparr>)
           | [] \<Rightarrow> (p, t\<lparr>ifreeTime := ifreeTime t + 1, t_pc := W_Dispatch\<rparr>))
      | W_Dispatch \<Rightarrow>
          (case t_task t of
             Some task \<Rightarrow>
               if m_worker task \<noteq> None then (p, t\<lparr>m_state := 2, t_pc := W_Run\<rparr>)
               else (p, t\<lparr>t_pc := W_Idle\<rparr>)
           | None \<Rightarrow> (p, t\<lparr>t_pc := W_Idle\<rparr>))
      | W_Run \<Rightarrow> (p, t\<lparr>t_pc := W_Idle\<rparr>)
      | W_Idle \<Rightarrow> (p, t\<lparr>m_state := 1, t_pc := W_Check\<rparr>)
      | W_Check \<Rightarrow>
          (p, t\<lparr>t_pc := (if ifreeTime t = 0 then W_Loop
                         else if max_checkTimes \<le> ucast (ifreeTime t) then W_NeedRelease
                         else W_Wait)\<rparr>)
      | W_NeedRelease \<Rightarrow> (p, t\<lparr>t_pc := (if needReleaseTaskThread p then W_Leave else W_Wait)\<rparr>)
      | W_Wait \<Rightarrow> (p, t\<lparr>t_pc := W_Loop\<rparr>)
      | W_Leave \<Rightarrow> (p, t\<lparr>m_state := 3, t_pc := W_Unregister\<rparr>)
      | W_Unregister \<Rightarrow>
          (p\<lparr>m_validThreadNums := m_validThreadNums p - 1\<rparr>, t\<lparr>t_pc := W_Done\<rparr>)
      | W_Done \<Rightarrow> (p, t))"

text \<open>The steps that lock \<open>mtx\<close>.\<close>

definition needs_mtx :: "wpc \<Rightarrow> bool" where
  "needs_mtx q \<longleftrightarrow> q = W_Register \<or> q = W_Fetch \<or> q = W_NeedRelease \<or> q = W_Unregister"

definition worker_enabled :: "'d sys \<Rightarrow> nat \<Rightarrow> bool" where
  "worker_enabled s i \<longleftrightarrow>
     i < length (thr s) \<and> t_pc (thr s ! i) \<noteq> W_Done \<and>
     (needs_mtx (t_pc (thr s ! i)) \<longrightarrow> mtx s = None)"

definition do_worker :: "nat \<Rightarrow> 'd sys \<Rightarrow> 'd sys" where
  "do_worker i s =
     (let t = thr s ! i; (p', t') = worker_step (pool s) t
      in s\<lparr>pool := p', thr := (thr s)[i := t'],
           taken := taken s @ (if t_pc t = W_Fetch then map (Pair i) (take 1 (m_tasks (pool s))) else []),
           runs := runs s @ (if t_pc t = W_Run then map (\<lambda>x. (i, m_param x)) (case t_task t of Some x \<Rightarrow> [x] | None \<Rightarrow> []) else [])\<rparr>)"

subsection \<open>The callers\<close>

text \<open>
  The object the constructor of \<open>threadPool\<close> makes. Its members have no initialisers; every field a
  step reads is set by \<open>initTaskPool\<close> first, so the values here do not matter.
\<close>

definition new_pool :: "'d threadPool" where
  "new_pool = \<lparr>m_tpState = False, m_validThreadNums = 0, m_tasks = [], m_maxNum = 0, m_minNum = 0,
               m_threads = []\<rparr>"

text \<open>The thread \<open>createNewThread\<close> starts: \<open>m_state\<close> is set to 0 and the parameter is \<open>this\<close>.\<close>

definition new_thread :: "'d wgThread" where
  "new_thread = \<lparr>t_pc = W_Start, m_state = 0, ifreeTime = 0, t_task = None, t_param = True\<rparr>"

definition goto :: "nat \<Rightarrow> 'd cpc \<Rightarrow> 'd sys \<Rightarrow> 'd sys" where
  "goto c q s = s\<lparr>callers := (callers s)(c := q)\<rparr>"

definition lock :: "nat \<Rightarrow> 'd sys \<Rightarrow> 'd sys" where
  "lock c s = s\<lparr>mtx := Some c\<rparr>"

definition unlock :: "'d sys \<Rightarrow> 'd sys" where
  "unlock s = s\<lparr>mtx := None\<rparr>"

text \<open>\<open>initTaskPool\<close> up to the loop: the number of threads to create is cut to 16 bits.\<close>

definition init_fields :: "int \<Rightarrow> int \<Rightarrow> 'd threadPool \<Rightarrow> 'd threadPool" where
  "init_fields maxNum minNum p =
     p\<lparr>m_validThreadNums := 0, m_maxNum := word_of_int maxNum, m_minNum := word_of_int minNum,
       m_tpState := True\<rparr>"

definition init_tsize :: "int \<Rightarrow> 'd threadPool \<Rightarrow> u16" where
  "init_tsize minNum p = word_of_int (minNum - int (length (m_threads p)))"

text \<open>\<open>m_tasks.push(task)\<close> and the test that decides whether \<open>addTask\<close> looks for an idle thread.\<close>

definition push_task :: "'d threadTask option \<Rightarrow> 'd threadPool \<Rightarrow> 'd threadPool" where
  "push_task task p = p\<lparr>m_tasks := m_tasks p @ [task]\<rparr>"

definition below_max :: "'d threadPool \<Rightarrow> bool" where
  "below_max p \<longleftrightarrow> ucast (m_validThreadNums p) < m_maxNum p"

definition caller_step :: "nat \<Rightarrow> 'd sys \<Rightarrow> 'd sys option" where
  "caller_step c s =
     (case callers s c of
        C_Idle \<Rightarrow> None
      | C_Init maxNum minNum \<Rightarrow>
          if mtx s \<noteq> None then None
          else Some (goto c (C_Create (unat (init_tsize minNum (pool s))) False)
                      (lock c (s\<lparr>pool := init_fields maxNum minNum (pool s)\<rparr>)))
      | C_Add task \<Rightarrow>
          if mtx s \<noteq> None then None
          else
            let p = push_task task (pool s)
            in Some (goto c (if below_max p then C_Scan (m_threads p) else C_Unlock True)
                      (lock c (s\<lparr>pool := p, added := added s @ [task]\<rparr>)))
      | C_Scan [] \<Rightarrow> Some (goto c (C_Create 1 True) s)
      | C_Scan (th # ths) \<Rightarrow>
          Some (goto c (if m_state (thr s ! th) = 1 then C_Unlock True else C_Scan ths) s)
      | C_Create n notify \<Rightarrow>
          Some (case n of
                  0 \<Rightarrow> goto c (C_Unlock notify) s
                | Suc m \<Rightarrow> goto c (C_Poll (length (thr s)) 0 m notify)
                             (s\<lparr>thr := thr s @ [new_thread]\<rparr>))
      | C_Poll tid tryTimes n notify \<Rightarrow>
          if m_state (thr s ! tid) \<noteq> 0 then Some (goto c (C_Push tid n notify) s)
          else if tryTimes + 1 < 11 then Some (goto c (C_Poll tid (tryTimes + 1) n notify) s)
          else None
      | C_Push tid n notify \<Rightarrow>
          Some (goto c (C_Create n notify)
                 (s\<lparr>pool := (pool s)\<lparr>m_threads := m_threads (pool s) @ [tid]\<rparr>\<rparr>))
      | C_Unlock notify \<Rightarrow> Some (goto c (if notify then C_Notify else C_Ret 0) (unlock s))
      | C_Notify \<Rightarrow> Some (goto c (C_Ret 0) s)
      | C_Release \<Rightarrow>
          if mtx s \<noteq> None then None
          else if m_tasks (pool s) \<noteq> [] then Some (goto c (C_Ret 1) s)
          else if \<not> m_tpState (pool s) then Some (goto c (C_Ret 0) s)
          else Some (goto c (C_Join False (m_threads (pool s)))
                      (lock c (s\<lparr>pool := (pool s)\<lparr>m_tpState := False\<rparr>\<rparr>)))
      | C_Join del (th # ths) \<Rightarrow>
          if t_pc (thr s ! th) = W_Done then Some (goto c (C_Join del ths) s) else None
      | C_Join del [] \<Rightarrow>
          Some (goto c (if del then C_Ret 0 else C_Ret 2)
                 (unlock (s\<lparr>pool := (pool s)\<lparr>m_threads := []\<rparr>,
                            m_instance := (m_instance s \<and> \<not> del)\<rparr>)))
      | C_Get \<Rightarrow>
          if mtx s \<noteq> None then None
          else Some (goto c (C_Ret 0)
                      (if m_instance s then s else s\<lparr>m_instance := True, pool := new_pool\<rparr>))
      | C_Del \<Rightarrow>
          if mtx s \<noteq> None then None
          else if m_instance s then Some (goto c (C_Join True (m_threads (pool s))) (lock c s))
          else Some (goto c (C_Ret 0) s)
      | C_Ret r \<Rightarrow> Some (goto c C_Idle s))"

text \<open>The loop of \<open>createNewThread\<close> gives up after ten sleeps.\<close>

definition poll_timeout :: "nat \<Rightarrow> 'd sys \<Rightarrow> 'd sys option" where
  "poll_timeout c s =
     (case callers s c of
        C_Poll tid tryTimes n notify \<Rightarrow>
          if m_state (thr s ! tid) = 0 \<and> \<not> tryTimes + 1 < 11
          then Some (goto c (C_Push tid n notify) s) else None
      | _ \<Rightarrow> None)"

text \<open>The caller's transitions one by one, for proofs by cases.\<close>

lemma caller_step_cases [consumes 1, case_names init add_below add_full scan_end scan_idle scan_next
    create_end create poll_done poll_again push unlock notify release_tasks release_off release_join
    join_next join_end get_old get_new del_join del_none ret]:
  assumes step: "caller_step c s = Some s'"
    and "\<And>maxNum minNum. callers s c = C_Init maxNum minNum \<Longrightarrow> mtx s = None \<Longrightarrow>
      s' = goto c (C_Create (unat (init_tsize minNum (pool s))) False)
             (lock c (s\<lparr>pool := init_fields maxNum minNum (pool s)\<rparr>)) \<Longrightarrow> P"
    and "\<And>task p. callers s c = C_Add task \<Longrightarrow> mtx s = None \<Longrightarrow> p = push_task task (pool s) \<Longrightarrow>
      below_max p \<Longrightarrow>
      s' = goto c (C_Scan (m_threads p)) (lock c (s\<lparr>pool := p, added := added s @ [task]\<rparr>)) \<Longrightarrow> P"
    and "\<And>task p. callers s c = C_Add task \<Longrightarrow> mtx s = None \<Longrightarrow> p = push_task task (pool s) \<Longrightarrow>
      \<not> below_max p \<Longrightarrow>
      s' = goto c (C_Unlock True) (lock c (s\<lparr>pool := p, added := added s @ [task]\<rparr>)) \<Longrightarrow> P"
    and "callers s c = C_Scan [] \<Longrightarrow> s' = goto c (C_Create 1 True) s \<Longrightarrow> P"
    and "\<And>th ths. callers s c = C_Scan (th # ths) \<Longrightarrow> m_state (thr s ! th) = 1 \<Longrightarrow>
      s' = goto c (C_Unlock True) s \<Longrightarrow> P"
    and "\<And>th ths. callers s c = C_Scan (th # ths) \<Longrightarrow> m_state (thr s ! th) \<noteq> 1 \<Longrightarrow>
      s' = goto c (C_Scan ths) s \<Longrightarrow> P"
    and "\<And>b. callers s c = C_Create 0 b \<Longrightarrow> s' = goto c (C_Unlock b) s \<Longrightarrow> P"
    and "\<And>m b. callers s c = C_Create (Suc m) b \<Longrightarrow>
      s' = goto c (C_Poll (length (thr s)) 0 m b) (s\<lparr>thr := thr s @ [new_thread]\<rparr>) \<Longrightarrow> P"
    and "\<And>tid k n b. callers s c = C_Poll tid k n b \<Longrightarrow> m_state (thr s ! tid) \<noteq> 0 \<Longrightarrow>
      s' = goto c (C_Push tid n b) s \<Longrightarrow> P"
    and "\<And>tid k n b. callers s c = C_Poll tid k n b \<Longrightarrow> m_state (thr s ! tid) = 0 \<Longrightarrow> k + 1 < 11 \<Longrightarrow>
      s' = goto c (C_Poll tid (k + 1) n b) s \<Longrightarrow> P"
    and "\<And>tid n b. callers s c = C_Push tid n b \<Longrightarrow>
      s' = goto c (C_Create n b)
             (s\<lparr>pool := (pool s)\<lparr>m_threads := m_threads (pool s) @ [tid]\<rparr>\<rparr>) \<Longrightarrow> P"
    and "\<And>b. callers s c = C_Unlock b \<Longrightarrow>
      s' = goto c (if b then C_Notify else C_Ret 0) (unlock s) \<Longrightarrow> P"
    and "callers s c = C_Notify \<Longrightarrow> s' = goto c (C_Ret 0) s \<Longrightarrow> P"
    and "callers s c = C_Release \<Longrightarrow> mtx s = None \<Longrightarrow> m_tasks (pool s) \<noteq> [] \<Longrightarrow>
      s' = goto c (C_Ret 1) s \<Longrightarrow> P"
    and "callers s c = C_Release \<Longrightarrow> mtx s = None \<Longrightarrow> m_tasks (pool s) = [] \<Longrightarrow> \<not> m_tpState (pool s) \<Longrightarrow>
      s' = goto c (C_Ret 0) s \<Longrightarrow> P"
    and "callers s c = C_Release \<Longrightarrow> mtx s = None \<Longrightarrow> m_tasks (pool s) = [] \<Longrightarrow> m_tpState (pool s) \<Longrightarrow>
      s' = goto c (C_Join False (m_threads (pool s)))
             (lock c (s\<lparr>pool := (pool s)\<lparr>m_tpState := False\<rparr>\<rparr>)) \<Longrightarrow> P"
    and "\<And>d th ths. callers s c = C_Join d (th # ths) \<Longrightarrow> t_pc (thr s ! th) = W_Done \<Longrightarrow>
      s' = goto c (C_Join d ths) s \<Longrightarrow> P"
    and "\<And>d. callers s c = C_Join d [] \<Longrightarrow>
      s' = goto c (if d then C_Ret 0 else C_Ret 2)
             (unlock (s\<lparr>pool := (pool s)\<lparr>m_threads := []\<rparr>, m_instance := (m_instance s \<and> \<not> d)\<rparr>)) \<Longrightarrow> P"
    and "callers s c = C_Get \<Longrightarrow> mtx s = None \<Longrightarrow> m_instance s \<Longrightarrow> s' = goto c (C_Ret 0) s \<Longrightarrow> P"
    and "callers s c = C_Get \<Longrightarrow> mtx s = None \<Longrightarrow> \<not> m_instance s \<Longrightarrow>
      s' = goto c (C_Ret 0) (s\<lparr>m_instance := True, pool := new_pool\<rparr>) \<Longrightarrow> P"
    and "callers s c = C_Del \<Longrightarrow> mtx s = None \<Longrightarrow> m_instance s \<Longrightarrow>
      s' = goto c (C_Join True (m_threads (pool s))) (lock c s) \<Longrightarrow> P"
    and "callers s c = C_Del \<Longrightarrow> mtx s = None \<Longrightarrow> \<not> m_instance s \<Longrightarrow> s' = goto c (C_Ret 0) s \<Longrightarrow> P"
    and "\<And>r. callers s c = C_Ret r \<Longrightarrow> s' = goto c C_Idle s \<Longrightarrow> P"
  shows P
proof (cases "callers s c")
  case C_Idle
  with step show ?thesis by (simp add: caller_step_def)
next
  case (C_Init maxNum minNum)
  show ?thesis
    by (rule assms(2) [OF C_Init]; use step C_Init in \<open>simp add: caller_step_def split: if_splits\<close>)
next
  case (C_Add task)
  show ?thesis
  proof (cases "below_max (push_task task (pool s))")
    case True
    show ?thesis
      by (rule assms(3) [OF C_Add _ refl True];
          use step C_Add True in \<open>simp add: caller_step_def Let_def split: if_splits\<close>)
  next
    case False
    show ?thesis
      by (rule assms(4) [OF C_Add _ refl False];
          use step C_Add False in \<open>simp add: caller_step_def Let_def split: if_splits\<close>)
  qed
next
  case (C_Scan ths)
  show ?thesis
  proof (cases ths)
    case Nil
    show ?thesis
      by (rule assms(5)) (use step C_Scan Nil in \<open>auto simp: caller_step_def\<close>)
  next
    case (Cons th ths')
    show ?thesis
    proof (cases "m_state (thr s ! th) = 1")
      case True
      show ?thesis
        by (rule assms(6) [OF _ True]) (use step C_Scan Cons True in \<open>auto simp: caller_step_def\<close>)
    next
      case False
      show ?thesis
        by (rule assms(7) [OF _ False]) (use step C_Scan Cons False in \<open>auto simp: caller_step_def\<close>)
    qed
  qed
next
  case (C_Create n b)
  show ?thesis
  proof (cases n)
    case 0
    show ?thesis
      by (rule assms(8)) (use step C_Create 0 in \<open>auto simp: caller_step_def\<close>)
  next
    case (Suc m)
    show ?thesis
      by (rule assms(9)) (use step C_Create Suc in \<open>auto simp: caller_step_def\<close>)
  qed
next
  case (C_Poll tid k n b)
  show ?thesis
  proof (cases "m_state (thr s ! tid) = 0")
    case True
    show ?thesis
      by (rule assms(11) [OF C_Poll True];
          use step C_Poll True in \<open>simp add: caller_step_def split: if_splits\<close>)
  next
    case False
    show ?thesis
      by (rule assms(10) [OF C_Poll False]) (use step C_Poll False in \<open>simp add: caller_step_def\<close>)
  qed
next
  case (C_Push tid n b)
  show ?thesis
    by (rule assms(12) [OF C_Push]) (use step C_Push in \<open>simp add: caller_step_def\<close>)
next
  case (C_Unlock b)
  show ?thesis
    by (rule assms(13) [OF C_Unlock]) (use step C_Unlock in \<open>simp add: caller_step_def\<close>)
next
  case C_Notify
  show ?thesis
    by (rule assms(14) [OF C_Notify]) (use step C_Notify in \<open>simp add: caller_step_def\<close>)
next
  case C_Release
  have free: "mtx s = None" using step C_Release by (simp add: caller_step_def split: if_splits)
  show ?thesis
    using assms(15-17) [OF C_Release free] step C_Release free
    by (simp add: caller_step_def split: if_splits)
next
  case (C_Join d ths)
  show ?thesis
  proof (cases ths)
    case Nil
    show ?thesis
      by (rule assms(19)) (use step C_Join Nil in \<open>auto simp: caller_step_def\<close>)
  next
    case (Cons th ths')
    show ?thesis
      by (rule assms(18)) (use step C_Join Cons in \<open>auto simp: caller_step_def split: if_splits\<close>)
  qed
next
  case C_Get
  have free: "mtx s = None" using step C_Get by (simp add: caller_step_def split: if_splits)
  show ?thesis
    using assms(20,21) [OF C_Get free] step C_Get free
    by (simp add: caller_step_def split: if_splits)
next
  case C_Del
  have free: "mtx s = None" using step C_Del by (simp add: caller_step_def split: if_splits)
  show ?thesis
    using assms(22,23) [OF C_Del free] step C_Del free
    by (simp add: caller_step_def split: if_splits)
next
  case (C_Ret r)
  show ?thesis
    by (rule assms(24) [OF C_Ret]) (use step C_Ret in \<open>simp add: caller_step_def\<close>)
qed

lemma poll_timeout_cases:
  assumes "poll_timeout c s = Some s'"
  obtains tid k n b where "callers s c = C_Poll tid k n b" and "m_state (thr s ! tid) = 0"
    and "\<not> k + 1 < 11" and "s' = goto c (C_Push tid n b) s"
  using assms by (auto simp: poll_timeout_def split: cpc.splits if_splits)

subsection \<open>Steps and runs\<close>

datatype 'd op =
    Op_Init int int
  | Op_Add "'d threadTask option"
  | Op_Release
  | Op_Get
  | Op_Del

primrec entry :: "'d op \<Rightarrow> 'd cpc" where
  "entry (Op_Init maxNum minNum) = C_Init maxNum minNum"
| "entry (Op_Add task) = C_Add task"
| "entry Op_Release = C_Release"
| "entry Op_Get = C_Get"
| "entry Op_Del = C_Del"

datatype 'd label =
    Worker nat
  | Caller nat
  | PollTimeout nat
  | Call nat "'d op"

inductive pool_step :: "'d sys \<Rightarrow> 'd label \<Rightarrow> 'd sys \<Rightarrow> bool" where
  by_worker: "worker_enabled s i \<Longrightarrow> pool_step s (Worker i) (do_worker i s)"
| by_caller: "caller_step c s = Some s' \<Longrightarrow> pool_step s (Caller c) s'"
| by_timeout: "poll_timeout c s = Some s' \<Longrightarrow> pool_step s (PollTimeout c) s'"
| by_call: "callers s c = C_Idle \<Longrightarrow> pool_step s (Call c op) (goto c (entry op) s)"

inductive_simps worker_step_iff: "pool_step s (Worker i) s'"
inductive_simps caller_step_iff: "pool_step s (Caller c) s'"
inductive_simps timeout_step_iff: "pool_step s (PollTimeout c) s'"
inductive_simps call_step_iff: "pool_step s (Call c op) s'"

lemmas pool_step_iffs = worker_step_iff caller_step_iff timeout_step_iff call_step_iff

text \<open>The same steps as a function of the label, to run the model.\<close>

fun fire :: "'d label \<Rightarrow> 'd sys \<Rightarrow> 'd sys option" where
  "fire (Worker i) s = (if worker_enabled s i then Some (do_worker i s) else None)"
| "fire (Caller c) s = caller_step c s"
| "fire (PollTimeout c) s = poll_timeout c s"
| "fire (Call c op) s =
     (case callers s c of C_Idle \<Rightarrow> Some (goto c (entry op) s) | _ \<Rightarrow> None)"

lemma fire_iff: "fire l s = Some s' \<longleftrightarrow> pool_step s l s'"
  by (cases l) (auto simp: pool_step_iffs split: cpc.splits)

fun fire_all :: "'d label list \<Rightarrow> 'd sys \<Rightarrow> 'd sys option" where
  "fire_all [] s = Some s"
| "fire_all (l # ls) s = (case fire l s of None \<Rightarrow> None | Some s' \<Rightarrow> fire_all ls s')"

lemma fire_all_reachable:
  "fire_all ls s = Some s' \<Longrightarrow> list_all I ls \<Longrightarrow> reachable pool_step I s0 s
   \<Longrightarrow> reachable pool_step I s0 s'"
proof (induction ls arbitrary: s)
  case (Cons l ls)
  then show ?case by (auto simp: fire_iff intro: reachable.step split: option.splits)
qed simp

lemma fire_all_append:
  "fire_all (ls @ ms) s = (case fire_all ls s of None \<Rightarrow> None | Some s' \<Rightarrow> fire_all ms s')"
  by (induction ls arbitrary: s) (auto split: option.split)

text \<open>
  \<open>fresh_sys\<close> is the program after the first \<open>getInstance()\<close>, with the main thread (caller 0) about to
  run \<open>initTaskPool(maxNum, minNum)\<close>; \<open>boot\<close> is the state once that call has the mutex and has set
  the fields. No other thread of the program exists before.
\<close>

definition fresh_sys :: "int \<Rightarrow> int \<Rightarrow> 'd sys" where
  "fresh_sys maxNum minNum =
     \<lparr>m_instance = True, pool = new_pool, thr = [], mtx = None,
      callers = (\<lambda>_. C_Idle)(0 := C_Init maxNum minNum), added = [], taken = [], runs = []\<rparr>"

definition boot :: "int \<Rightarrow> int \<Rightarrow> 'd sys" where
  "boot maxNum minNum =
     \<lparr>m_instance = True, pool = init_fields maxNum minNum new_pool, thr = [], mtx = Some 0,
      callers = (\<lambda>_. C_Idle)(0 := C_Create (unat (init_tsize minNum (new_pool :: 'd threadPool))) False),
      added = [], taken = [], runs = []\<rparr>"

lemma boot_step: "pool_step (fresh_sys maxNum minNum) (Caller 0) (boot maxNum minNum)"
  by (simp add: caller_step_iff caller_step_def fresh_sys_def boot_def goto_def lock_def)

end
