(* ===== verification/ThreadPoolInv.thy ===== *)
theory ThreadPoolInv
  imports ThreadPool
begin

section \<open>Invariants of the thread pool\<close>

text \<open>
  Facts about every run of the pool: who holds \<open>mtx\<close>, what \<open>m_validThreadNums\<close> counts, how many
  threads live at once, which tasks were taken and run by whom. Each is a state predicate kept by
  every step (one lemma for the workers' steps, one for the callers' steps), lifted to the reachable
  states by an interpretation of \<open>step_invariant\<close>.
\<close>

subsection \<open>The holder of the mutex\<close>

fun critical :: "'d cpc \<Rightarrow> bool" where
  "critical (C_Scan ths) = True"
| "critical (C_Create n notify) = True"
| "critical (C_Poll tid k n notify) = True"
| "critical (C_Push tid n notify) = True"
| "critical (C_Unlock notify) = True"
| "critical (C_Join del ths) = True"
| "critical _ = False"

definition mutex_inv :: "'d sys \<Rightarrow> bool" where
  "mutex_inv s \<longleftrightarrow> (\<forall>c. critical (callers s c) \<longleftrightarrow> mtx s = Some c)"

lemma goto_simps [simp]:
  "callers (goto c q s) = (callers s)(c := q)"
  "mtx (goto c q s) = mtx s" "pool (goto c q s) = pool s" "thr (goto c q s) = thr s"
  "m_instance (goto c q s) = m_instance s" "added (goto c q s) = added s"
  "taken (goto c q s) = taken s" "runs (goto c q s) = runs s"
  by (simp_all add: goto_def)

lemma lock_simps [simp]:
  "callers (lock c s) = callers s" "mtx (lock c s) = Some c" "pool (lock c s) = pool s"
  "thr (lock c s) = thr s" "m_instance (lock c s) = m_instance s" "added (lock c s) = added s"
  "taken (lock c s) = taken s" "runs (lock c s) = runs s"
  by (simp_all add: lock_def)

lemma unlock_simps [simp]:
  "callers (unlock s) = callers s" "mtx (unlock s) = None" "pool (unlock s) = pool s"
  "thr (unlock s) = thr s" "m_instance (unlock s) = m_instance s" "added (unlock s) = added s"
  "taken (unlock s) = taken s" "runs (unlock s) = runs s"
  by (simp_all add: unlock_def)

lemma do_worker_simps [simp]:
  "callers (do_worker i s) = callers s" "mtx (do_worker i s) = mtx s"
  "m_instance (do_worker i s) = m_instance s" "added (do_worker i s) = added s"
  "length (thr (do_worker i s)) = length (thr s)"
  "pool (do_worker i s) = fst (worker_step (pool s) (thr s ! i))"
  "thr (do_worker i s) = (thr s)[i := snd (worker_step (pool s) (thr s ! i))]"
  by (simp_all add: do_worker_def Let_def split: prod.split)

lemma entry_not_critical [simp]: "\<not> critical (entry op)"
  by (cases op) auto

lemma mutex_update:
  assumes "mutex_inv s" and "\<And>d. d \<noteq> c \<Longrightarrow> callers s' d = callers s d"
    and "critical (callers s' c) \<Longrightarrow> mtx s' = Some c \<and> (mtx s = None \<or> mtx s = Some c)"
    and "\<not> critical (callers s' c) \<Longrightarrow>
      (if mtx s = Some c then mtx s' = None else mtx s' = mtx s)"
  shows "mutex_inv s'"
  unfolding mutex_inv_def
proof
  fix d
  have "critical (callers s e) \<longleftrightarrow> mtx s = Some e" for e
    using assms(1) by (simp add: mutex_inv_def)
  with assms(2-4) show "critical (callers s' d) = (mtx s' = Some d)"
    by (cases "d = c"; cases "critical (callers s' c)") (auto split: if_splits)
qed

lemma mutex_caller:
  assumes "caller_step c s = Some s'" and "mutex_inv s"
  shows "mutex_inv s'"
proof -
  have "critical (callers s c) \<longleftrightarrow> mtx s = Some c"
    using assms(2) by (simp add: mutex_inv_def)
  with assms(1) show ?thesis
    by (cases rule: caller_step_cases) (rule mutex_update [OF assms(2), where c = c]; simp split: if_splits)+
qed

lemma mutex_timeout:
  assumes "poll_timeout c s = Some s'" and "mutex_inv s"
  shows "mutex_inv s'"
proof -
  have "critical (callers s c) \<longleftrightarrow> mtx s = Some c"
    using assms(2) by (simp add: mutex_inv_def)
  with assms(1) show ?thesis
    by (auto simp: poll_timeout_def split: cpc.splits if_splits
        intro!: mutex_update [OF assms(2), where c = c])
qed

lemma mutex_step:
  assumes inv: "mutex_inv s" and "pool_step s l s'"
  shows "mutex_inv s'"
  using assms(2)
proof cases
  case (by_worker i)
  then show ?thesis using inv by (simp add: mutex_inv_def)
next
  case (by_caller c)
  then show ?thesis using inv by (auto intro: mutex_caller)
next
  case (by_timeout c)
  then show ?thesis using inv by (auto intro: mutex_timeout)
next
  case (by_call c op)
  then have "mtx s \<noteq> Some c"
    using inv by (auto simp: mutex_inv_def dest!: spec [where x = c])
  then show ?thesis
    using by_call by (intro mutex_update [OF inv, where c = c]) simp_all
qed

lemma mutex_boot: "mutex_inv (boot maxNum minNum)"
  by (simp add: mutex_inv_def boot_def)

interpretation mutex: step_invariant pool_step "\<lambda>_. True" mutex_inv
  by unfold_locales (rule mutex_step)


subsection \<open>What a worker's step changes\<close>

definition live :: "'d wgThread \<Rightarrow> bool" where
  "live t \<longleftrightarrow> t_pc t \<noteq> W_Done"

definition registered :: "'d wgThread \<Rightarrow> bool" where
  "registered t \<longleftrightarrow> t_pc t \<noteq> W_Start \<and> t_pc t \<noteq> W_Register \<and> t_pc t \<noteq> W_Done"

text \<open>A task the worker calls \<open>onTaskProcessor\<close> for, as its argument; the other tasks are dropped.\<close>

definition runnable :: "'d threadTask option \<Rightarrow> 'd list" where
  "runnable x =
     (case x of None \<Rightarrow> [] | Some t \<Rightarrow> if m_worker t \<noteq> None then [m_param t] else [])"

definition t_ok :: "'d wgThread \<Rightarrow> bool" where
  "t_ok t \<longleftrightarrow>
     t_param t \<and> (t_pc t = W_Start \<longrightarrow> m_state t = 0) \<and> (t_pc t = W_Register \<longrightarrow> m_state t = 1) \<and>
     (t_pc t = W_Fetch \<longrightarrow> t_task t = None) \<and> (t_pc t = W_Run \<longrightarrow> runnable (t_task t) \<noteq> [])"

named_theorems worker_facts \<open>what a worker's step changes and keeps\<close>

lemma worker_keeps [worker_facts]:
  "m_tpState (fst (worker_step p t)) = m_tpState p"
  "m_maxNum (fst (worker_step p t)) = m_maxNum p"
  "m_minNum (fst (worker_step p t)) = m_minNum p"
  "m_threads (fst (worker_step p t)) = m_threads p"
  by (cases "t_pc t"; simp add: worker_step_def split: list.split option.split)+

lemma worker_counts [worker_facts]:
  "m_validThreadNums (fst (worker_step p t)) =
   m_validThreadNums p + of_bool (t_pc t = W_Register) - of_bool (t_pc t = W_Unregister)"
  by (cases "t_pc t"; simp add: worker_step_def split: list.split option.split)

lemma worker_tasks [worker_facts]:
  "m_tasks (fst (worker_step p t)) = (if t_pc t = W_Fetch then drop 1 (m_tasks p) else m_tasks p)"
  by (cases "t_pc t"; simp add: worker_step_def split: list.split option.split)

lemma worker_pc [worker_facts]:
  assumes "t_ok t" and "live t"
  shows "t_pc (snd (worker_step p t)) \<noteq> W_Start"
    and "t_pc (snd (worker_step p t)) = W_Register \<longleftrightarrow> t_pc t = W_Start"
    and "live (snd (worker_step p t)) \<longleftrightarrow> t_pc t \<noteq> W_Unregister"
    and "registered (snd (worker_step p t)) \<longleftrightarrow>
      (registered t \<and> t_pc t \<noteq> W_Unregister \<or> t_pc t = W_Register)"
  using assms
  by (cases "t_pc t"; simp add: worker_step_def live_def registered_def t_ok_def
      split: list.split option.split)+

lemma worker_t_ok [worker_facts]: "t_ok t \<Longrightarrow> t_ok (snd (worker_step p t))"
  by (cases "t_pc t"; simp add: worker_step_def t_ok_def runnable_def split: list.split option.split)

lemma new_thread_facts [simp]:
  "t_ok new_thread" "live new_thread" "\<not> registered new_thread" "t_pc new_thread = W_Start"
  by (simp_all add: new_thread_def t_ok_def live_def registered_def)

subsection \<open>The threads and the lists that name them\<close>

fun cpc_tids :: "'d cpc \<Rightarrow> nat list" where
  "cpc_tids (C_Scan ths) = ths"
| "cpc_tids (C_Poll tid k n b) = [tid]"
| "cpc_tids (C_Push tid n b) = [tid]"
| "cpc_tids (C_Join d ths) = ths"
| "cpc_tids _ = []"

definition threads_inv :: "'d sys \<Rightarrow> bool" where
  "threads_inv s \<longleftrightarrow>
     (\<forall>t \<in> set (thr s). t_ok t) \<and> (\<forall>i \<in> set (m_threads (pool s)). i < length (thr s)) \<and>
     (\<forall>c. \<forall>i \<in> set (cpc_tids (callers s c)). i < length (thr s))"

lemma threads_invD:
  assumes "threads_inv s"
  shows "i < length (thr s) \<Longrightarrow> t_ok (thr s ! i)"
    and "i \<in> set (m_threads (pool s)) \<Longrightarrow> i < length (thr s)"
    and "i \<in> set (cpc_tids (callers s c)) \<Longrightarrow> i < length (thr s)"
  using assms by (auto simp: threads_inv_def)

lemma threads_update:
  assumes "threads_inv s" and "\<And>d. d \<noteq> c \<Longrightarrow> callers s' d = callers s d"
    and "thr s' = thr s \<or> thr s' = thr s @ [new_thread]"
    and "set (m_threads (pool s')) \<subseteq> set (m_threads (pool s)) \<union> set (cpc_tids (callers s c))"
    and "set (cpc_tids (callers s' c)) \<subseteq>
      set (m_threads (pool s)) \<union> set (cpc_tids (callers s c)) \<union> {length (thr s)..<length (thr s')}"
  shows "threads_inv s'"
  unfolding threads_inv_def
proof (intro conjI ballI allI)
  have len: "length (thr s) \<le> length (thr s')" using assms(3) by auto
  show "t_ok t" if "t \<in> set (thr s')" for t
    using assms(1,3) that by (auto simp: threads_inv_def)
  have old: "i < length (thr s')" if "i \<in> set (m_threads (pool s)) \<union> set (cpc_tids (callers s d))" for i d
    using threads_invD(2,3) [OF assms(1), of i] that len by fastforce
  show "i < length (thr s')" if "i \<in> set (m_threads (pool s'))" for i
    using old [of i c] assms(4) that by auto
  show "i < length (thr s')" if "i \<in> set (cpc_tids (callers s' d))" for i d
    using old [of i d] assms(2) [of d] assms(5) that by (cases "d = c") auto
qed

lemma push_task_simps [simp]:
  "m_threads (push_task x p) = m_threads p" "m_tasks (push_task x p) = m_tasks p @ [x]"
  "m_validThreadNums (push_task x p) = m_validThreadNums p" "m_maxNum (push_task x p) = m_maxNum p"
  "m_tpState (push_task x p) = m_tpState p"
  by (simp_all add: push_task_def)

lemma init_fields_simps [simp]:
  "m_threads (init_fields a b p) = m_threads p" "m_tasks (init_fields a b p) = m_tasks p"
  "m_validThreadNums (init_fields a b p) = 0" "m_maxNum (init_fields a b p) = word_of_int a"
  by (simp_all add: init_fields_def)

lemma threads_caller:
  assumes "caller_step c s = Some s'" and "threads_inv s"
  shows "threads_inv s'"
  using assms(1)
  by (cases rule: caller_step_cases)
    (rule threads_update [OF assms(2), where c = c]; auto simp: new_pool_def)+

lemma threads_step:
  assumes inv: "threads_inv s" and "pool_step s l s'"
  shows "threads_inv s'"
  using assms(2)
proof cases
  case (by_worker i)
  then have "t_ok (thr s ! i)"
    using inv by (auto simp: worker_enabled_def intro: threads_invD)
  then show ?thesis
    using by_worker inv
    by (auto simp: threads_inv_def worker_facts dest!: set_update_subset_insert [THEN subsetD])
next
  case (by_timeout c)
  then show ?thesis
    by (auto simp: poll_timeout_def split: cpc.splits if_splits
        intro!: threads_update [OF inv, where c = c])
next
  case (by_call c op)
  then show ?thesis
    by (cases op) (auto intro!: threads_update [OF inv, where c = c])
qed (auto intro: threads_caller inv)

lemma threads_boot: "threads_inv (boot maxNum minNum)"
  by (simp add: threads_inv_def boot_def new_pool_def)

interpretation threads: step_invariant pool_step "\<lambda>_. True" threads_inv
  by unfold_locales (rule threads_step)


subsection \<open>Runs with one \<open>initTaskPool\<close> and no \<open>delInstance\<close>\<close>

text \<open>
  The program calls \<open>initTaskPool\<close> once, in the constructor of the task controller, and
  \<open>delInstance\<close> once, in its destructor. \<open>normal\<close> admits every label but these two calls.
\<close>

fun normal :: "'d label \<Rightarrow> bool" where
  "normal (Call c (Op_Init maxNum minNum)) = False"
| "normal (Call c Op_Del) = False"
| "normal _ = True"

fun quiet :: "'d cpc \<Rightarrow> bool" where
  "quiet (C_Init maxNum minNum) = False"
| "quiet C_Del = False"
| "quiet (C_Join d ths) = (\<not> d)"
| "quiet _ = True"

definition quiet_inv :: "'d sys \<Rightarrow> bool" where
  "quiet_inv s \<longleftrightarrow> m_instance s \<and> (\<forall>c. quiet (callers s c))"

lemma quiet_caller:
  assumes "caller_step c s = Some s'" and "quiet_inv s"
  shows "quiet_inv s'"
proof -
  have q: "quiet (callers s d)" and i: "m_instance s" for d
    using assms(2) by (simp_all add: quiet_inv_def)
  show ?thesis
    using assms(1) q [of c] i
    by (cases rule: caller_step_cases) (simp_all add: quiet_inv_def q)
qed

lemma quiet_step:
  assumes inv: "quiet_inv s" and "pool_step s l s'" and "normal l"
  shows "quiet_inv s'"
  using assms(2)
proof cases
  case (by_timeout c)
  then show ?thesis
    using inv by (auto simp: poll_timeout_def quiet_inv_def split: cpc.splits if_splits)
next
  case (by_call c op)
  then show ?thesis
    using inv assms(3) by (cases op) (auto simp: quiet_inv_def)
next
  case (by_caller c)
  then show ?thesis using inv by (blast intro: quiet_caller)
qed (use inv in \<open>simp add: quiet_inv_def\<close>)

lemma quiet_boot: "quiet_inv (boot maxNum minNum)"
  by (simp add: quiet_inv_def boot_def)

subsection \<open>What \<open>m_validThreadNums\<close> counts\<close>

text \<open>
  The number of threads that have passed their increment and not yet their decrement, modulo the
  width of \<open>unsigned short\<close>.
\<close>

definition count_inv :: "'d sys \<Rightarrow> bool" where
  "count_inv s \<longleftrightarrow>
     m_validThreadNums (pool s) = word_of_nat (count_if registered (thr s))"

lemma count_worker:
  assumes "threads_inv s" and "count_inv s" and "worker_enabled s i"
  shows "count_inv (do_worker i s)"
proof -
  let ?t = "thr s ! i" and ?t' = "snd (worker_step (pool s) (thr s ! i))"
  have i: "i < length (thr s)" and t: "t_ok ?t" "live ?t"
    using assms by (auto simp: worker_enabled_def live_def intro: threads_invD)
  have "count_if registered ((thr s)[i := ?t']) + of_bool (registered ?t) =
        count_if registered (thr s) + of_bool (registered ?t')"
    by (rule count_if_update [OF i])
  then have "count_if registered ((thr s)[i := ?t']) + of_bool (t_pc ?t = W_Unregister) =
        count_if registered (thr s) + of_bool (t_pc ?t = W_Register)"
    using worker_pc(4) [OF t] by (cases "t_pc ?t") (simp_all add: registered_def [of ?t])
  then have "(word_of_nat (count_if registered ((thr s)[i := ?t'])) :: u16)
        + of_bool (t_pc ?t = W_Unregister) =
      word_of_nat (count_if registered (thr s)) + of_bool (t_pc ?t = W_Register)"
    by (metis (mono_tags) of_nat_add of_nat_of_bool)
  then have "(word_of_nat (count_if registered ((thr s)[i := ?t'])) :: u16) =
      word_of_nat (count_if registered (thr s)) + of_bool (t_pc ?t = W_Register)
      - of_bool (t_pc ?t = W_Unregister)"
    by (metis add_diff_cancel_right')
  then show ?thesis
    using assms(2) unfolding count_inv_def do_worker_simps worker_counts by metis
qed

lemma count_caller:
  assumes "caller_step c s = Some s'" and "quiet_inv s" and "count_inv s"
  shows "count_inv s'"
proof -
  have "quiet (callers s c)" and "m_instance s"
    using assms(2) by (simp_all add: quiet_inv_def)
  with assms(1,3) show ?thesis
    by (cases rule: caller_step_cases) (simp_all add: count_inv_def)
qed

lemma count_step:
  assumes "threads_inv s" and "quiet_inv s" and "count_inv s" and "pool_step s l s'"
  shows "count_inv s'"
  using assms(4)
proof cases
  case (by_timeout c)
  then show ?thesis
    using assms by (auto simp: poll_timeout_def count_inv_def split: cpc.splits if_splits)
qed (use assms in \<open>auto simp: count_inv_def [of "goto _ _ _"] intro: count_worker count_caller\<close>,
     simp add: count_inv_def)

lemma count_boot: "count_inv (boot maxNum minNum)"
  by (simp add: count_inv_def boot_def)

interpretation counted: step_invariant pool_step normal "\<lambda>s. threads_inv s \<and> quiet_inv s \<and> count_inv s"
  by unfold_locales (auto intro: threads_step quiet_step count_step)

end
