(* ===== verification/ThreadPoolBound.thy ===== *)
theory ThreadPoolBound
  imports ThreadPoolInv
begin

section \<open>The number of threads of the pool\<close>

text \<open>
  \<open>addTask\<close> creates a thread when \<open>m_validThreadNums\<close> is below \<open>m_maxNum\<close> and no listed thread is
  idle. A new thread counts itself only later, so the test alone does not bound the threads. What
  does is that the caller keeps \<open>mtx\<close> until the new thread has set its state to idle: a thread that
  has not counted itself yet is then idle, and the next scan finds it. \<open>phase\<close> states what holds at
  each point of the caller that has the mutex.
\<close>

definition holder :: "'d sys \<Rightarrow> 'd cpc" where
  "holder s = (case mtx s of None \<Rightarrow> C_Idle | Some c \<Rightarrow> callers s c)"

definition no_start :: "'d wgThread list \<Rightarrow> bool" where
  "no_start ts \<longleftrightarrow> (\<forall>i < length ts. t_pc (ts ! i) \<noteq> W_Start)"

fun phase :: "nat \<Rightarrow> 'd wgThread list \<Rightarrow> 'd cpc \<Rightarrow> bool" where
  "phase N ts (C_Scan ths) \<longleftrightarrow>
     count_if registered ts < N \<and> count_if live ts \<le> N \<and> no_start ts \<and>
     (\<forall>i < length ts. t_pc (ts ! i) = W_Register \<longrightarrow> i \<in> set ths)"
| "phase N ts (C_Create n b) \<longleftrightarrow> count_if live ts + n \<le> N \<and> no_start ts"
| "phase N ts (C_Poll tid k n b) \<longleftrightarrow>
     count_if live ts + n \<le> N \<and> (\<forall>i < length ts. t_pc (ts ! i) = W_Start \<longrightarrow> i = tid)"
| "phase N ts (C_Push tid n b) \<longleftrightarrow> count_if live ts + n \<le> N \<and> no_start ts"
| "phase N ts _ \<longleftrightarrow> count_if live ts \<le> N \<and> no_start ts"

text \<open>Every thread that has not returned is in \<open>m_threads\<close>, or about to be put there.\<close>

fun listed :: "nat list \<Rightarrow> 'd cpc \<Rightarrow> nat set" where
  "listed ms (C_Poll tid k n b) = insert tid (set ms)"
| "listed ms (C_Push tid n b) = insert tid (set ms)"
| "listed ms (C_Join d ths) = set ths"
| "listed ms _ = set ms"

definition listed_inv :: "'d sys \<Rightarrow> bool" where
  "listed_inv s \<longleftrightarrow>
     (\<forall>i < length (thr s). live (thr s ! i) \<longrightarrow> i \<in> listed (m_threads (pool s)) (holder s))"

definition bound_inv :: "nat \<Rightarrow> 'd sys \<Rightarrow> bool" where
  "bound_inv N s \<longleftrightarrow> m_maxNum (pool s) = word_of_nat N \<and> phase N (thr s) (holder s)"

fun in_time :: "'d label \<Rightarrow> bool" where
  "in_time (PollTimeout c) = False"
| "in_time _ = True"

subsection \<open>The holder in each kind of step\<close>

lemma holder_own: "mutex_inv s \<Longrightarrow> critical (callers s c) \<Longrightarrow> holder s = callers s c"
  by (simp add: mutex_inv_def holder_def)

lemma holder_free: "mtx s = None \<Longrightarrow> holder s = C_Idle"
  by (simp add: holder_def)

lemma holder_other:
  assumes "mutex_inv s" and "\<not> critical (callers s c)"
  shows "holder (s\<lparr>callers := (callers s)(c := q)\<rparr>) = holder s"
proof -
  have "mtx s \<noteq> Some c" using assms by (simp add: mutex_inv_def)
  then show ?thesis by (auto simp: holder_def split: option.split)
qed

lemma holder_goto_own: "mtx s = Some c \<Longrightarrow> holder (goto c q s) = q"
  by (simp add: holder_def)

lemma holder_goto_free: "mtx s = None \<Longrightarrow> holder (goto c q s) = C_Idle"
  by (simp add: holder_def)

lemma holder_goto_other:
  "mutex_inv s \<Longrightarrow> \<not> critical (callers s c) \<Longrightarrow> holder (goto c q s) = holder s"
  unfolding goto_def by (rule holder_other)

lemma holder_worker [simp]: "holder (do_worker i s) = holder s"
  by (simp add: holder_def split: option.split)

lemmas holder_rules = holder_goto_own holder_goto_free holder_goto_other holder_own holder_free

subsection \<open>Every live thread is listed\<close>

lemma listed_worker:
  assumes "threads_inv s" and "listed_inv s" and "worker_enabled s i"
  shows "listed_inv (do_worker i s)"
  using assms unfolding listed_inv_def
  by (auto simp: worker_facts worker_enabled_def nth_list_update live_def)

lemma own_mtx:
  "mutex_inv s \<Longrightarrow> critical (callers s c) \<Longrightarrow> mtx s = Some c"
  by (simp add: mutex_inv_def)

lemma listed_caller:
  assumes step: "caller_step c s = Some s'" and mi: "mutex_inv s" and "quiet_inv s" and "listed_inv s"
  shows "listed_inv s'"
proof -
  have q: "quiet (callers s c)" "m_instance s"
    using assms(3) by (simp_all add: quiet_inv_def)
  have own: "critical (callers s c) \<Longrightarrow> mtx s = Some c \<and> holder s = callers s c"
    using mi by (simp add: mutex_inv_def holder_own)
  have other: "\<not> critical (callers s c) \<Longrightarrow> holder (goto c q' s) = holder s" for q'
    using mi by (rule holder_goto_other)
  from step show ?thesis
  proof (cases rule: caller_step_cases)
    case (create m b)
    then show ?thesis
      using own assms(4) by (auto simp: listed_inv_def holder_goto_own nth_append less_Suc_eq)
  next
    case (join_next d th ths)
    then show ?thesis
      using own assms(4) by (auto simp: listed_inv_def holder_goto_own live_def)
  next
    case (join_end d)
    then show ?thesis
      using own assms(4) by (auto simp: listed_inv_def holder_def)
  qed (use own other assms(4) q in
      \<open>auto simp: listed_inv_def holder_goto_own holder_goto_free holder_free\<close>)
qed


lemma listed_step:
  assumes "mutex_inv s" and "threads_inv s" and "quiet_inv s" and "listed_inv s"
    and "pool_step s l s'"
  shows "listed_inv s'"
  using assms(5)
proof cases
  case (by_timeout c)
  then obtain tid k n b where c: "callers s c = C_Poll tid k n b" and s': "s' = goto c (C_Push tid n b) s"
    by (auto simp: poll_timeout_def split: cpc.splits if_splits)
  then have "mtx s = Some c" using assms(1) own_mtx [of s c] by simp
  with c s' assms(4) show ?thesis
    by (simp add: listed_inv_def holder_goto_own holder_def)
next
  case (by_call c op)
  then have "holder s' = holder s" using assms(1) by (simp add: holder_goto_other)
  with by_call assms(4) show ?thesis by (simp add: listed_inv_def)
qed (use assms in \<open>auto intro: listed_worker listed_caller\<close>)

lemma listed_boot: "listed_inv (boot maxNum minNum)"
  by (simp add: listed_inv_def boot_def)

subsection \<open>The phases are kept\<close>

lemma phase_worker:
  assumes ok: "i < length ts" "t_ok (ts ! i)" "live (ts ! i)"
    and free: "needs_mtx (t_pc (ts ! i)) \<Longrightarrow> q = C_Idle"
    and ph: "phase N ts q"
  shows "phase N (ts[i := snd (worker_step p (ts ! i))]) q"
proof -
  let ?t' = "snd (worker_step p (ts ! i))"
  note pcs = worker_pc [OF ok(2,3), of p]
  have live: "count_if live (ts[i := ?t']) \<le> count_if live ts"
    using count_if_update [OF ok(1), of live ?t'] ok(3) by (cases "live ?t'") simp_all
  have start: "no_start ts \<Longrightarrow> no_start (ts[i := ?t'])"
    using pcs(1) ok(1) by (simp add: no_start_def nth_list_update)
  show ?thesis
  proof (cases "\<exists>ths. q = C_Scan ths")
    case True
    then obtain ths where q: "q = C_Scan ths" by blast
    then have "\<not> needs_mtx (t_pc (ts ! i))" using free by auto
    then have "registered ?t' = registered (ts ! i)"
      using pcs(4) by (simp add: needs_mtx_def)
    then have "count_if registered (ts[i := ?t']) = count_if registered ts"
      using ok(1) by (intro count_if_update_same)
    moreover have "t_pc ?t' \<noteq> W_Register"
      using pcs(2) ph ok(1) q by (auto simp: no_start_def)
    ultimately show ?thesis
      using ph q start live ok(1) by (auto simp: nth_list_update intro: order_trans)
  next
    case False
    then show ?thesis
      using ph live start pcs(1) ok(1)
      by (cases q) (auto simp: nth_list_update intro: order_trans)
  qed
qed

lemma live_split:
  assumes "\<And>i. i < length ts \<Longrightarrow> t_pc (ts ! i) \<noteq> W_Start \<and> t_pc (ts ! i) \<noteq> W_Register"
  shows "count_if live ts = count_if registered ts"
proof -
  have "filter live ts = filter registered ts"
    using assms by (intro filter_cong) (auto simp: live_def registered_def in_set_conv_nth)
  then show ?thesis by simp
qed

lemma registered_le_live: "count_if registered ts \<le> count_if live ts"
  by (rule count_if_mono) (simp add: live_def registered_def)

lemma below_max_iff:
  assumes "count_inv s" and "m_maxNum (pool s) = word_of_nat N" and "N \<le> 65535"
    and "count_if registered (thr s) \<le> N"
  shows "below_max (pool s) \<longleftrightarrow> count_if registered (thr s) < N"
  using assms
  by (simp add: below_max_def count_inv_def word_less_nat_alt unsigned_ucast_eq unsigned_of_nat
      take_bit_nat_eq_self)


lemma below_max_push [simp]: "below_max (push_task x p) = below_max p"
  by (simp add: below_max_def)

lemma bound_add:
  assumes "mtx s = None" and "below_max (push_task task (pool s))" and li: "listed_inv s" and ci: "count_inv s"
    and "N \<le> 65535" and bi: "bound_inv N s"
  shows "bound_inv N (goto c (C_Scan (m_threads (push_task task (pool s))))
    (lock c (s\<lparr>pool := push_task task (pool s), added := added s @ [task]\<rparr>)))"
proof -
  have idle: "holder s = C_Idle" using assms(1) by (simp add: holder_free)
  then have "count_if live (thr s) \<le> N" using bi by (simp add: bound_inv_def)
  moreover from this have "count_if registered (thr s) < N"
    using below_max_iff [OF ci _ assms(5)] registered_le_live [of "thr s"] bi assms(2)
    by (simp add: bound_inv_def)
  moreover have "i \<in> set (m_threads (pool s))" if "i < length (thr s)" "t_pc (thr s ! i) = W_Register" for i
    using li idle that by (simp add: listed_inv_def live_def)
  ultimately show ?thesis
    using bi idle by (simp add: bound_inv_def holder_goto_own)
qed

lemma bound_caller:
  assumes step: "caller_step c s = Some s'" and mi: "mutex_inv s" and ti: "threads_inv s"
    and "quiet_inv s" and li: "listed_inv s" and ci: "count_inv s" and "N \<le> 65535"
    and bi: "bound_inv N s"
  shows "bound_inv N s'"
proof -
  have q: "quiet (callers s c)" "m_instance s"
    using assms(4) by (simp_all add: quiet_inv_def)
  have own: "critical (callers s c) \<Longrightarrow> mtx s = Some c \<and> holder s = callers s c"
    using mi by (simp add: mutex_inv_def holder_own)
  have other: "\<not> critical (callers s c) \<Longrightarrow> holder (goto c q' s) = holder s" for q'
    using mi by (rule holder_goto_other)
  note simps = bound_inv_def holder_goto_own holder_goto_free holder_free
  from step show ?thesis
  proof (cases rule: caller_step_cases)
    case (add_below task p)
    then show ?thesis using bound_add [OF _ _ li ci assms(7) bi] by simp
  next
    case scan_end
    then have "holder s = C_Scan []" using own by simp
    then have "count_if live (thr s) < N" and "no_start (thr s)"
      using bi live_split [of "thr s"] by (auto simp: bound_inv_def no_start_def)
    then show ?thesis using scan_end own bi by (simp add: simps)
  next
    case (scan_next th ths)
    then have "t_pc (thr s ! th) \<noteq> W_Register"
      using threads_invD(3) [OF ti, of th c] threads_invD(1) [OF ti, of th] by (auto simp: t_ok_def)
    then show ?thesis using scan_next own bi by (auto simp: simps)
  next
    case (create m b)
    then show ?thesis
      using own bi by (auto simp: simps nth_append less_Suc_eq no_start_def)
  next
    case (poll_done tid k n b)
    then have "t_pc (thr s ! tid) \<noteq> W_Start"
      using threads_invD(3) [OF ti, of tid c] threads_invD(1) [OF ti, of tid] by (auto simp: t_ok_def)
    then show ?thesis using poll_done own bi by (auto simp: simps no_start_def)
  next
    case (join_end d)
    then show ?thesis using own bi by (simp add: bound_inv_def holder_def)
  qed (use own other bi q in \<open>simp_all add: simps\<close>)
qed

lemma bound_step:
  assumes "mutex_inv s" and "threads_inv s" and "quiet_inv s" and "listed_inv s" and "count_inv s"
    and "N \<le> 65535" and "bound_inv N s" and "pool_step s l s'" and "in_time l"
  shows "bound_inv N s'"
  using assms(8)
proof cases
  case (by_worker i)
  let ?t = "thr s ! i"
  have i: "i < length (thr s)" "live ?t" and free: "needs_mtx (t_pc ?t) \<Longrightarrow> holder s = C_Idle"
    using by_worker by (auto simp: worker_enabled_def live_def holder_free)
  have "phase N ((thr s)[i := snd (worker_step (pool s) ?t)]) (holder s)"
    using assms(2,7) i free by (intro phase_worker) (auto simp: bound_inv_def intro: threads_invD)
  with by_worker assms(7) show ?thesis by (simp add: bound_inv_def worker_facts)
next
  case (by_call c op)
  then have "holder s' = holder s" using assms(1) by (simp add: holder_goto_other)
  with by_call assms(7) show ?thesis by (simp add: bound_inv_def)
qed (use assms in \<open>auto intro: bound_caller\<close>)

lemma init_tsize_new:
  "0 \<le> minNum \<Longrightarrow> minNum \<le> 65535 \<Longrightarrow> unat (init_tsize minNum new_pool) = nat minNum"
  by (simp add: init_tsize_def new_pool_def unsigned_of_int take_bit_int_eq_self
      flip: nat_take_bit_eq)

lemma bound_boot:
  assumes "0 \<le> minNum" and "minNum \<le> maxNum" and "maxNum \<le> 65535"
  shows "bound_inv (nat maxNum) (boot maxNum minNum)"
  using assms by (simp add: bound_inv_def boot_def holder_def no_start_def init_tsize_new nat_mono)

interpretation bounded: step_invariant pool_step "\<lambda>l. normal l \<and> in_time l"
    "\<lambda>s. N \<le> 65535 \<and> mutex_inv s \<and> threads_inv s \<and> quiet_inv s \<and> listed_inv s \<and> count_inv s \<and> bound_inv N s"
  for N
  by unfold_locales
    (blast intro: mutex_step threads_step quiet_step listed_step count_step bound_step)

lemma bound_reachable:
  assumes "reachable pool_step (\<lambda>l. normal l \<and> in_time l) (boot maxNum minNum) s"
    and "0 \<le> minNum" and "minNum \<le> maxNum" and "maxNum \<le> 65535"
  shows "mutex_inv s \<and> threads_inv s \<and> listed_inv s \<and> count_inv s \<and> bound_inv (nat maxNum) s"
  using bounded.reachable_inv [OF assms(1), of "nat maxNum"] assms(2-4)
  by (simp add: mutex_boot threads_boot quiet_boot listed_boot count_boot bound_boot)

lemma phase_live_bound: "phase N ts q \<Longrightarrow> count_if live ts \<le> N"
  by (cases q) auto

end
