(* ===== verification/ThreadPoolRuns.thy ===== *)
theory ThreadPoolRuns
  imports ThreadPoolBound
begin

section \<open>Tasks, critical sections and shutdown of the thread pool\<close>

text \<open>
  Three groups of facts. The first follows a task through the pool: tasks leave the queue in the
  order they were added, and every thread runs exactly the tasks it took, in that order. The second
  shows that a caller other than \<open>releaseTaskPool\<close> and \<open>delInstance\<close> gives the mutex back after a
  bounded number of its own steps, whatever the workers do. The third shows that those two, which
  join threads while they hold the mutex the threads need, never return once a joined thread is
  still on its way.
\<close>

subsection \<open>From the queue to \<open>onTaskProcessor\<close>\<close>

definition in_hand :: "'d wgThread \<Rightarrow> 'd list" where
  "in_hand t = (if t_pc t = W_Dispatch \<or> t_pc t = W_Run then runnable (t_task t) else [])"

definition taken_by :: "nat \<Rightarrow> 'd sys \<Rightarrow> 'd list" where
  "taken_by i s = concat (map (\<lambda>x. runnable (snd x)) (filter (\<lambda>x. fst x = i) (taken s)))"

definition run_by :: "nat \<Rightarrow> 'd sys \<Rightarrow> 'd list" where
  "run_by i s = map snd (filter (\<lambda>x. fst x = i) (runs s))"

definition hist_inv :: "'d sys \<Rightarrow> bool" where
  "hist_inv s \<longleftrightarrow>
     added s = map snd (taken s) @ m_tasks (pool s) \<and>
     (\<forall>x \<in> set (taken s). fst x < length (thr s)) \<and> (\<forall>x \<in> set (runs s). fst x < length (thr s)) \<and>
     (\<forall>i < length (thr s). taken_by i s = run_by i s @ in_hand (thr s ! i))"

definition step_taken :: "'d threadPool \<Rightarrow> 'd wgThread \<Rightarrow> 'd threadTask option list" where
  "step_taken p t = (if t_pc t = W_Fetch then take 1 (m_tasks p) else [])"

definition step_run :: "'d wgThread \<Rightarrow> 'd list" where
  "step_run t =
     (if t_pc t = W_Run then map m_param (case t_task t of Some x \<Rightarrow> [x] | None \<Rightarrow> []) else [])"

lemma do_worker_history:
  "taken (do_worker i s) = taken s @ map (Pair i) (step_taken (pool s) (thr s ! i))"
  "runs (do_worker i s) = runs s @ map (Pair i) (step_run (thr s ! i))"
  by (simp_all add: do_worker_def step_taken_def step_run_def Let_def split: prod.split option.split)

lemma hand_step:
  assumes "t_ok t"
  shows "in_hand t @ concat (map runnable (step_taken p t)) =
         step_run t @ in_hand (snd (worker_step p t))"
  using assms
  by (cases "t_pc t")
    (auto simp: in_hand_def step_taken_def step_run_def worker_step_def t_ok_def runnable_def
      split: list.split option.splits if_splits)

lemma taken_tasks: "step_taken p t @ m_tasks (fst (worker_step p t)) = m_tasks p"
  by (simp add: step_taken_def worker_tasks)

lemma taken_by_worker:
  "taken_by j (do_worker i s) =
   taken_by j s @ (if j = i then concat (map runnable (step_taken (pool s) (thr s ! i))) else [])"
  by (simp add: taken_by_def do_worker_history comp_def filter_map)

lemma run_by_worker:
  "run_by j (do_worker i s) = run_by j s @ (if j = i then step_run (thr s ! i) else [])"
  by (simp add: run_by_def do_worker_history comp_def filter_map)

lemma hist_worker:
  assumes "threads_inv s" and "hist_inv s" and "worker_enabled s i"
  shows "hist_inv (do_worker i s)"
proof -
  have i: "i < length (thr s)" and ok: "t_ok (thr s ! i)"
    using assms by (auto simp: worker_enabled_def intro: threads_invD)
  show ?thesis
    unfolding hist_inv_def
  proof (intro conjI allI impI)
    show "added (do_worker i s) = map snd (taken (do_worker i s)) @ m_tasks (pool (do_worker i s))"
      using assms(2) taken_tasks [of "pool s" "thr s ! i"]
      by (simp add: hist_inv_def do_worker_history comp_def)
    fix j
    assume "j < length (thr (do_worker i s))"
    then show "taken_by j (do_worker i s) =
        run_by j (do_worker i s) @ in_hand (thr (do_worker i s) ! j)"
      using assms(2) hand_step [OF ok, of "pool s"] i
      by (cases "j = i") (simp_all add: hist_inv_def taken_by_worker run_by_worker)
  qed (use assms(2) i in \<open>auto simp: hist_inv_def do_worker_history\<close>)
qed

lemma hist_caller:
  assumes "caller_step c s = Some s'" and "quiet_inv s" and hi: "hist_inv s"
  shows "hist_inv s'"
proof -
  have q: "quiet (callers s c)" "m_instance s"
    using assms(2) by (simp_all add: quiet_inv_def)
  from assms(1) show ?thesis
  proof (cases rule: caller_step_cases)
    case (create m b)
    have "taken_by (length (thr s)) s = []" and "run_by (length (thr s)) s = []"
      using hi by (auto simp: hist_inv_def taken_by_def run_by_def filter_empty_conv)
    with create hi show ?thesis
      by (auto simp: hist_inv_def nth_append less_Suc_eq taken_by_def run_by_def in_hand_def)
  qed (use hi q in \<open>auto simp: hist_inv_def taken_by_def run_by_def\<close>)
qed

lemma hist_step:
  assumes "threads_inv s" and "quiet_inv s" and "hist_inv s" and "pool_step s l s'"
  shows "hist_inv s'"
  using assms(4)
proof cases
  case (by_timeout c)
  then show ?thesis
    using assms(3) by (auto elim!: poll_timeout_cases)
      (simp_all add: hist_inv_def taken_by_def run_by_def)
next
  case (by_call c op)
  then show ?thesis using assms(3) by (simp add: hist_inv_def taken_by_def run_by_def)
qed (use assms in \<open>auto intro: hist_worker hist_caller\<close>)

lemma hist_boot: "hist_inv (boot maxNum minNum)"
  by (simp add: hist_inv_def boot_def init_fields_def new_pool_def)

interpretation history: step_invariant pool_step normal "\<lambda>s. threads_inv s \<and> quiet_inv s \<and> hist_inv s"
  by unfold_locales (auto intro: threads_step quiet_step hist_step)

subsection \<open>The mutex is given back\<close>

fun rank :: "'d cpc \<Rightarrow> nat" where
  "rank (C_Scan ths) = length ths + 16"
| "rank (C_Create n b) = 13 * n + 2"
| "rank (C_Poll tid k n b) = 13 * n + 4 + (10 - k)"
| "rank (C_Push tid n b) = 13 * n + 3"
| "rank (C_Unlock b) = 1"
| "rank _ = 0"

fun joining :: "'d cpc \<Rightarrow> bool" where
  "joining (C_Join d ths) = True"
| "joining _ = False"

definition own_label :: "nat \<Rightarrow> 'd label \<Rightarrow> bool" where
  "own_label c l \<longleftrightarrow> (case l of Caller d \<Rightarrow> d = c | PollTimeout d \<Rightarrow> d = c | _ \<Rightarrow> False)"

lemma own_label_simps [simp]: "own_label c (Caller d) \<longleftrightarrow> d = c" "own_label c (PollTimeout d) \<longleftrightarrow> d = c"
  by (simp_all add: own_label_def)

lemma holder_moves:
  assumes "critical (callers s c)" and "\<not> joining (callers s c)"
  obtains l s' where "own_label c l" and "fire l s = Some s'"
    and "rank (callers s' c) < rank (callers s c)"
    and "(critical (callers s' c) \<and> \<not> joining (callers s' c)) \<or> mtx s' = None"
proof (cases "\<exists>tid k n b. callers s c = C_Poll tid k n b \<and> m_state (thr s ! tid) = 0 \<and> \<not> k + 1 < 11")
  case True
  then obtain tid k n b where c: "callers s c = C_Poll tid k n b" "m_state (thr s ! tid) = 0" "\<not> k + 1 < 11"
    by blast
  then show ?thesis
    by (intro that [of "PollTimeout c" "goto c (C_Push tid n b) s"]) (simp_all add: poll_timeout_def)
next
  case False
  have "caller_step c s \<noteq> None"
    using assms False by (cases "callers s c") (auto simp: caller_step_def split: list.splits)
  then obtain s' where s': "caller_step c s = Some s'" by blast
  from s' have "rank (callers s' c) < rank (callers s c) \<and>
    ((critical (callers s' c) \<and> \<not> joining (callers s' c)) \<or> mtx s' = None)"
    using assms by (cases rule: caller_step_cases) simp_all
  with s' show ?thesis by (intro that [of "Caller c" s']) simp_all
qed

lemma mutex_returned:
  assumes "critical (callers s c)" and "\<not> joining (callers s c)"
  shows "\<exists>ls s'. length ls \<le> rank (callers s c) \<and> list_all (own_label c) ls \<and>
    fire_all ls s = Some s' \<and> mtx s' = None"
  using assms
proof (induction "rank (callers s c)" arbitrary: s rule: less_induct)
  case less
  obtain l s1 where l: "own_label c l" "fire l s = Some s1"
    and r: "rank (callers s1 c) < rank (callers s c)"
    and cont: "(critical (callers s1 c) \<and> \<not> joining (callers s1 c)) \<or> mtx s1 = None"
    using holder_moves [OF less.prems] by blast
  show ?case
  proof (cases "mtx s1 = None")
    case True
    with l r show ?thesis by (intro exI [of _ "[l]"] exI [of _ s1]) auto
  next
    case False
    then have "critical (callers s1 c)" and "\<not> joining (callers s1 c)" using cont by auto
    from less.hyps [OF r this] obtain ls s' where "length ls \<le> rank (callers s1 c)" "list_all (own_label c) ls"
      "fire_all ls s1 = Some s'" "mtx s' = None"
      by auto
    with l r show ?thesis by (intro exI [of _ "l # ls"] exI [of _ s']) auto
  qed
qed

subsection \<open>Joining threads with the mutex held\<close>

definition join_stuck :: "nat \<Rightarrow> nat \<Rightarrow> 'd sys \<Rightarrow> bool" where
  "join_stuck c th s \<longleftrightarrow>
     mutex_inv s \<and> threads_inv s \<and> th < length (thr s) \<and> t_pc (thr s ! th) \<noteq> W_Done \<and>
     mtx s = Some c \<and> (\<exists>d ths. callers s c = C_Join d ths \<and> th \<in> set ths)"

lemma not_done_while_locked:
  assumes "t_ok t" and "t_pc t \<noteq> W_Done" and "\<not> needs_mtx (t_pc t)"
  shows "t_pc (snd (worker_step p t)) \<noteq> W_Done"
  using worker_pc(3) [of t p] assms by (auto simp: live_def needs_mtx_def)

lemma stuck_step:
  assumes stuck: "join_stuck c th s" and step: "pool_step s l s'"
  shows "join_stuck c th s'"
proof -
  have inv: "mutex_inv s'" "threads_inv s'"
    using assms by (auto simp: join_stuck_def intro: mutex_step threads_step)
  obtain d ths where c: "callers s c = C_Join d ths" "th \<in> set ths"
    and th: "th < length (thr s)" "t_pc (thr s ! th) \<noteq> W_Done" and m: "mtx s = Some c"
    and mi: "mutex_inv s" and ti: "threads_inv s"
    using stuck by (auto simp: join_stuck_def)
  have others: "\<not> critical (callers s e)" if "e \<noteq> c" for e
    using mi m that by (simp add: mutex_inv_def)
  from step show ?thesis
  proof cases
    case (by_worker i)
    then have "\<not> needs_mtx (t_pc (thr s ! i))" using m by (auto simp: worker_enabled_def)
    then show ?thesis
      using by_worker inv c th m not_done_while_locked [OF threads_invD(1) [OF ti th(1)] th(2), of "pool s"]
      by (cases "i = th") (auto simp: join_stuck_def)
  next
    case (by_caller e)
    show ?thesis
    proof (cases "e = c")
      case True
      with by_caller c th m inv show ?thesis
        by (cases ths) (auto simp: join_stuck_def caller_step_def split: if_splits)
    next
      case False
      from by_caller(2) others [OF False] False c th m inv show ?thesis
        by (cases rule: caller_step_cases) (auto simp: join_stuck_def)
    qed
  next
    case (by_timeout e)
    with c th m inv others [of e] show ?thesis
      by (cases "e = c") (auto simp: join_stuck_def elim!: poll_timeout_cases)
  next
    case (by_call e op)
    with c th m inv show ?thesis by (auto simp: join_stuck_def)
  qed
qed

interpretation stuck: step_invariant pool_step "\<lambda>_. True" "join_stuck c th" for c th
  by unfold_locales (rule stuck_step)

end
