(* ===== verification/AddTask.thy ===== *)
theory AddTask
  imports ThreadPoolRuns
begin

section \<open>The interface of the pool: \<open>threadPool::addTask\<close> as one operation\<close>

text \<open>
  What the task controller relies on is that \<open>addTask\<close> appends a task to the queue: the locale
  \<open>task_sink\<close>. \<open>addTask\<close> below is the operation as one function, for a call that no other caller
  disturbs and whose new thread, if it creates one, starts in time; \<open>addTask_run\<close> shows that the step
  relation can carry out this function. \<open>addTask_late\<close> is the operation when the new thread does not start in
  time, and \<open>calling_result\<close> shows that every way such a call can go ends as one of the two says.
\<close>

locale task_sink =
  fixes add :: "'t \<Rightarrow> 'p \<Rightarrow> 'p"
    and queued :: "'p \<Rightarrow> 't list"
  assumes queued_add: "queued (add t p) = queued p @ [t]"
begin

lemma queued_fold: "queued (fold add ts p) = queued p @ ts"
  by (induction ts arbitrary: p) (simp_all add: queued_add)

end

definition createNewThread :: "'d sys \<Rightarrow> 'd sys" where
  "createNewThread s =
     s\<lparr>thr := thr s @ [new_thread\<lparr>m_state := 1, t_pc := W_Register\<rparr>],
       pool := (pool s)\<lparr>m_threads := m_threads (pool s) @ [length (thr s)]\<rparr>\<rparr>"

definition idle_thread :: "'d sys \<Rightarrow> nat list \<Rightarrow> bool" where
  "idle_thread s ths \<longleftrightarrow> (\<exists>th \<in> set ths. m_state (thr s ! th) = 1)"

definition addTask :: "'d threadTask option \<Rightarrow> 'd sys \<Rightarrow> 'd sys" where
  "addTask task s =
     (let p = push_task task (pool s); s1 = s\<lparr>pool := p, added := added s @ [task]\<rparr>
      in if below_max p \<and> \<not> idle_thread s (m_threads p) then createNewThread s1 else s1)"

lemma addTask_tasks: "m_tasks (pool (addTask task s)) = m_tasks (pool s) @ [task]"
  by (simp add: addTask_def Let_def createNewThread_def)

interpretation pool_sink: task_sink addTask "\<lambda>s. m_tasks (pool s)"
  by unfold_locales (rule addTask_tasks)

text \<open>The steps of calls that have begun, and of the workers, while every new thread starts in time.\<close>

fun under_way :: "'d label \<Rightarrow> bool" where
  "under_way (Call c op) = False"
| "under_way (PollTimeout c) = False"
| "under_way _ = True"

lemma under_way_calm: "list_all under_way ls \<Longrightarrow> list_all (\<lambda>l. normal l \<and> in_time l) ls"
  by (erule list.pred_mono_strong) (auto elim: under_way.elims)

text \<open>The steps of one caller and of one thread.\<close>

definition of_pair :: "nat \<Rightarrow> nat \<Rightarrow> 'd label \<Rightarrow> bool" where
  "of_pair c tid l \<longleftrightarrow> l = Caller c \<or> l = Worker tid"

lemma of_pair_simps [simp]: "of_pair c tid (Caller c)" "of_pair c tid (Worker tid)"
  by (simp_all add: of_pair_def)

lemma of_pair_way: "list_all (of_pair c tid) ls \<Longrightarrow> list_all under_way ls"
  by (erule list.pred_mono_strong) (auto simp: of_pair_def)

text \<open>The scan of the caller, run on its own.\<close>

lemma scan_run:
  "callers s c = C_Scan ths \<Longrightarrow>
   \<exists>ls. list_all (of_pair c tid) ls \<and>
     fire_all ls s = Some (goto c (if idle_thread s ths then C_Unlock True else C_Scan []) s)"
proof (induction ths arbitrary: s)
  case Nil
  then show ?case by (intro exI [of _ "[]"]) (simp add: idle_thread_def goto_def fun_upd_idem)
next
  case (Cons th ths)
  show ?case
  proof (cases "m_state (thr s ! th) = 1")
    case True
    with Cons.prems show ?thesis
      by (intro exI [of _ "[Caller c]"]) (simp add: idle_thread_def caller_step_def)
  next
    case False
    have "callers (goto c (C_Scan ths) s) c = C_Scan ths" by simp
    from Cons.IH [OF this] obtain ls where ls: "list_all (of_pair c tid) ls"
      "fire_all ls (goto c (C_Scan ths) s) =
       Some (goto c (if idle_thread s ths then C_Unlock True else C_Scan []) s)"
      by (auto simp: idle_thread_def goto_def)
    with Cons.prems False show ?thesis
      by (intro exI [of _ "Caller c # ls"]) (simp add: idle_thread_def caller_step_def)
  qed
qed


lemma goto_goto [simp]: "goto c q (goto c q' s) = goto c q s"
  by (simp add: goto_def)

lemma unlock_goto: "unlock (goto c q s) = goto c q (unlock s)"
  by (simp add: goto_def unlock_def)

lemma finish_run:
  "callers s c = C_Unlock True \<Longrightarrow>
   fire_all [Caller c, Caller c, Caller c] s = Some (goto c C_Idle (unlock s))"
  by (simp add: caller_step_def unlock_def goto_def)

text \<open>The creation of the thread: the new worker sets its state while the caller polls.\<close>

definition create_labels :: "nat \<Rightarrow> nat \<Rightarrow> 'd label list" where
  "create_labels c tid =
     [Caller c, Caller c, Worker tid, Caller c, Caller c, Caller c]"

lemma create_run:
  assumes "callers s c = C_Scan []"
  shows "fire_all (create_labels c (length (thr s))) s =
         Some (goto c (C_Unlock True) (createNewThread s))"
  using assms
  by (simp add: create_labels_def caller_step_def goto_def worker_enabled_def needs_mtx_def
      do_worker_def worker_step_def new_thread_def createNewThread_def Let_def)

lemma createNewThread_goto: "createNewThread (goto c q s) = goto c q (createNewThread s)"
  by (simp add: createNewThread_def goto_def)

lemma scan_finish:
  assumes "callers s c = C_Scan ths"
  shows "\<exists>ls. list_all (of_pair c (length (thr s))) ls \<and> fire_all ls s =
    Some (goto c C_Idle (unlock (if idle_thread s ths then s else createNewThread s)))"
proof -
  let ?done = "[Caller c, Caller c, Caller c]"
  obtain ms where calm: "list_all (of_pair c (length (thr s))) ms" and ms: "fire_all ms s =
      Some (goto c (if idle_thread s ths then C_Unlock True else C_Scan []) s)"
    using scan_run [OF assms] by blast
  show ?thesis
  proof (cases "idle_thread s ths")
    case True
    then show ?thesis
      using calm ms finish_run [of "goto c (C_Unlock True) s" c]
      by (intro exI [of _ "ms @ ?done"]) (simp add: fire_all_append unlock_goto)
  next
    case False
    then show ?thesis
      using calm ms create_run [of "goto c (C_Scan []) s" c]
        finish_run [of "goto c (C_Unlock True) (createNewThread s)" c]
      by (intro exI [of _ "ms @ create_labels c (length (thr s)) @ ?done"])
        (simp add: fire_all_append createNewThread_goto unlock_goto, simp add: create_labels_def)
  qed
qed

text \<open>The state in which the caller has pushed its task, and the way back to where it started.\<close>

lemma return_home:
  assumes "callers s c = C_Idle" and "callers t = callers s" and "mtx t = None"
  shows "goto c C_Idle (unlock (goto c q (lock c t))) = t"
  using assms by (simp add: goto_def lock_def unlock_def fun_upd_idem)

lemma addTask_alone:
  assumes c: "callers s c = C_Idle" and free: "mtx s = None"
  shows "\<exists>ls. list_all (of_pair c (length (thr s))) ls \<and>
    fire_all (Call c (Op_Add task) # Caller c # ls) s = Some (addTask task s)"
proof -
  let ?p = "push_task task (pool s)" and ?s1 = "s\<lparr>pool := push_task task (pool s), added := added s @ [task]\<rparr>"
  let ?q = "if below_max (pool s) then C_Scan (m_threads (pool s)) else C_Unlock True"
  let ?t = "goto c ?q (lock c ?s1)"
  have start: "fire_all [Call c (Op_Add task), Caller c] s = Some ?t"
    using c free by (simp add: caller_step_def Let_def)
  have "\<exists>ls. list_all (of_pair c (length (thr s))) ls \<and> fire_all ls ?t = Some (addTask task s)"
  proof (cases "below_max (pool s)")
    case False
    then have "callers ?t c = C_Unlock True" by simp
    from finish_run [OF this] show ?thesis
      using False return_home [OF c, of ?s1] free
      by (intro exI [of _ "[Caller c, Caller c, Caller c]"]) (simp add: addTask_def Let_def)
  next
    case True
    then have "callers ?t c = C_Scan (m_threads (pool s))" by simp
    from scan_finish [OF this] obtain ls where calm: "list_all (of_pair c (length (thr s))) ls"
      and "fire_all ls ?t = Some (goto c C_Idle (unlock
        (if idle_thread ?t (m_threads (pool s)) then ?t else createNewThread ?t)))" by auto
    then have "fire_all ls ?t = Some (goto c C_Idle (unlock
        (if idle_thread ?t (m_threads (pool s)) then ?t else createNewThread ?t)))" by blast
    moreover have "createNewThread ?t = goto c ?q (lock c (createNewThread ?s1))"
      by (simp add: createNewThread_def goto_def lock_def)
    moreover have "idle_thread ?t (m_threads (pool s)) = idle_thread s (m_threads (pool s))"
      by (simp add: idle_thread_def)
    moreover have "goto c C_Idle (unlock (goto c ?q (lock c (createNewThread ?s1)))) = createNewThread ?s1"
      using c free by (intro return_home) (simp_all add: createNewThread_def)
    ultimately show ?thesis
      using True return_home [OF c, of ?s1 ?q] free calm
      by (intro exI [of _ ls]) (auto simp: addTask_def Let_def)
  qed
  then obtain ls where calm: "list_all (of_pair c (length (thr s))) ls"
    and "fire_all ls ?t = Some (addTask task s)" by blast
  then have "fire_all ([Call c (Op_Add task), Caller c] @ ls) s = Some (addTask task s)"
    by (simp only: fire_all_append start option.case)
  with calm show ?thesis by (intro exI [of _ ls]) simp
qed

lemma addTask_run:
  assumes "callers s c = C_Idle" and "mtx s = None"
  shows "\<exists>ls. list_all under_way ls \<and>
    fire_all (Call c (Op_Add task) # Caller c # ls) s = Some (addTask task s)"
  using addTask_alone [OF assms] of_pair_way by blast

text \<open>The caller is home again, so one call can follow another.\<close>

lemma addTask_home:
  "callers (addTask task s) = callers s" "mtx (addTask task s) = mtx s"
  by (simp_all add: addTask_def Let_def createNewThread_def)

lemma addTask_reachable:
  assumes "callers s c = C_Idle" and "mtx s = None"
  shows "reachable pool_step (\<lambda>l. normal l \<and> in_time l) s (addTask task s)"
proof -
  obtain ls where "list_all under_way ls"
    and run: "fire_all (Call c (Op_Add task) # Caller c # ls) s = Some (addTask task s)"
    using addTask_run [OF assms] by blast
  then have "list_all (\<lambda>l. normal l \<and> in_time l) (Call c (Op_Add task) # Caller c # ls)" by (simp add: under_way_calm)
  from fire_all_reachable [OF run this reachable.start] show ?thesis .
qed

subsection \<open>Every way such a call can go\<close>

text \<open>
  A new thread that has not started when the loop of \<open>createNewThread\<close> gives up is appended all the same:
  \<open>addTask_late\<close>. A call during which only the caller and the thread it creates make steps ends as one of
  the two functions says; \<open>calling\<close> lists the states it goes through.
\<close>

definition createNewThread_late :: "'d sys \<Rightarrow> 'd sys" where
  "createNewThread_late s =
     s\<lparr>thr := thr s @ [new_thread],
       pool := (pool s)\<lparr>m_threads := m_threads (pool s) @ [length (thr s)]\<rparr>\<rparr>"

definition addTask_late :: "'d threadTask option \<Rightarrow> 'd sys \<Rightarrow> 'd sys" where
  "addTask_late task s =
     (let p = push_task task (pool s); s1 = s\<lparr>pool := p, added := added s @ [task]\<rparr>
      in if below_max p \<and> \<not> idle_thread s (m_threads p) then createNewThread_late s1 else s1)"

definition started_thread :: "'d wgThread" where
  "started_thread = new_thread\<lparr>m_state := 1, t_pc := W_Register\<rparr>"

definition mid :: "nat \<Rightarrow> 'd cpc \<Rightarrow> 'd threadPool \<Rightarrow> 'd wgThread list \<Rightarrow> 'd threadTask option \<Rightarrow> 'd sys \<Rightarrow> 'd sys" where
  "mid c q p ws task s = goto c q (lock c (s\<lparr>pool := p, added := added s @ [task], thr := thr s @ ws\<rparr>))"

lemma mid_simps [simp]:
  "callers (mid c q p ws task s) c = q" "thr (mid c q p ws task s) = thr s @ ws"
  "pool (mid c q p ws task s) = p" "mtx (mid c q p ws task s) = Some c"
  "goto c q' (mid c q p ws task s) = mid c q' p ws task s"
  "(mid c q p ws task s)\<lparr>thr := thr s @ vs\<rparr> = mid c q p vs task s"
  "(mid c q p ws task s)\<lparr>pool := p'\<rparr> = mid c q p' ws task s"
  by (simp_all add: mid_def goto_def lock_def)

lemma mid_returned:
  assumes "callers s c = C_Idle" and "mtx s = None"
  shows "goto c C_Idle (unlock (mid c q p ws task s)) = s\<lparr>pool := p, added := added s @ [task], thr := thr s @ ws\<rparr>"
  using assms by (simp add: mid_def goto_def lock_def unlock_def fun_upd_idem)

lemma mid_worker:
  "worker_enabled (mid c q p ws task s) (length (thr s)) \<longleftrightarrow>
   ws \<noteq> [] \<and> t_pc (hd ws) \<noteq> W_Done \<and> \<not> needs_mtx (t_pc (hd ws))"
  "do_worker (length (thr s)) (mid c q p [new_thread] task s) = mid c q p [started_thread] task s"
  by (cases ws; simp add: worker_enabled_def)
    (simp add: do_worker_def worker_step_def new_thread_def started_thread_def mid_def goto_def lock_def)

definition creates :: "'d sys \<Rightarrow> bool" where
  "creates s \<longleftrightarrow> below_max (pool s) \<and> \<not> idle_thread s (m_threads (pool s))"

definition listed :: "'d threadTask option \<Rightarrow> 'd sys \<Rightarrow> 'd threadPool" where
  "listed task s = (push_task task (pool s))\<lparr>m_threads := m_threads (pool s) @ [length (thr s)]\<rparr>"

inductive calling :: "bool \<Rightarrow> nat \<Rightarrow> 'd threadTask option \<Rightarrow> 'd sys \<Rightarrow> 'd sys \<Rightarrow> bool" for late c task s where
  add: "calling late c task s (goto c (C_Add task) s)"
| scan: "below_max (pool s) \<Longrightarrow> idle_thread s ths = idle_thread s (m_threads (pool s)) \<Longrightarrow>
    calling late c task s (mid c (C_Scan ths) (push_task task (pool s)) [] task s)"
| create: "creates s \<Longrightarrow> calling late c task s (mid c (C_Create 1 True) (push_task task (pool s)) [] task s)"
| poll: "creates s \<Longrightarrow> w = new_thread \<or> w = started_thread \<Longrightarrow>
    calling late c task s (mid c (C_Poll (length (thr s)) k 0 True) (push_task task (pool s)) [w] task s)"
| push: "creates s \<Longrightarrow> w = started_thread \<or> late \<and> w = new_thread \<Longrightarrow>
    calling late c task s (mid c (C_Push (length (thr s)) 0 True) (push_task task (pool s)) [w] task s)"
| created: "creates s \<Longrightarrow> w = started_thread \<or> late \<and> w = new_thread \<Longrightarrow> q = C_Create 0 True \<or> q = C_Unlock True \<Longrightarrow>
    calling late c task s (mid c q (listed task s) [w] task s)"
| pushed: "\<not> creates s \<Longrightarrow> calling late c task s (mid c (C_Unlock True) (push_task task (pool s)) [] task s)"
| left: "callers t c = C_Notify \<or> callers t c = C_Ret 0 \<or> callers t c = C_Idle \<Longrightarrow> calling late c task s t"

lemma thread_states: "m_state new_thread = 0" "m_state started_thread = 1"
  "t_pc new_thread = W_Start" "t_pc started_thread = W_Register"
  by (simp_all add: new_thread_def started_thread_def)

lemma calling_worker:
  assumes "calling late c task s t" and "fire (Worker (length (thr s))) t = Some t'"
  shows "calling late c task s t'"
  using assms(1)
proof cases
  case left
  with assms(2) show ?thesis by (auto intro: calling.left split: if_splits)
qed (use assms(2) in \<open>auto simp: mid_worker thread_states needs_mtx_def worker_enabled_def
    intro: calling.intros split: if_splits\<close>)

lemma idle_thread_simps [simp]:
  "idle_thread s [] \<longleftrightarrow> False" "idle_thread s (th # ths) \<longleftrightarrow> m_state (thr s ! th) = 1 \<or> idle_thread s ths"
  by (simp_all add: idle_thread_def)

lemma idle_thread_mid [simp]: "idle_thread (mid c q p [] task s) = idle_thread s"
  by (simp add: idle_thread_def fun_eq_iff)

lemma calling_left: "calling late c task s (goto c C_Notify t)"
  by (rule calling.left) simp

lemma calling_caller:
  assumes "calling late c task s t" and "fire (Caller c) t = Some t'" and "mtx s = None"
  shows "calling late c task s t'"
  using assms(1)
proof cases
  case add
  have "fire (Caller c) t = Some (mid c (if below_max (pool s) then C_Scan (m_threads (pool s)) else C_Unlock True)
      (push_task task (pool s)) [] task s)"
    using assms(3) by (simp add: add caller_step_def Let_def mid_def)
  with assms(2) show ?thesis by (auto simp: creates_def intro: calling.intros)
next
  case (scan ths)
  show ?thesis
  proof (cases ths)
    case Nil
    with scan have "creates s" and "t' = mid c (C_Create 1 True) (push_task task (pool s)) [] task s"
      using assms(2) by (simp_all add: caller_step_def creates_def)
    then show ?thesis by (simp only: calling.create)
  next
    case (Cons th ths')
    with scan assms(2) show ?thesis
      by (auto simp: caller_step_def creates_def intro: calling.scan calling.pushed split: if_splits)
  qed
next
  case left
  with assms(2) show ?thesis by (auto simp: caller_step_def intro!: calling.left)
qed (use assms(2) in \<open>auto simp: caller_step_def thread_states simp flip: listed_def
    intro: calling.poll calling.push calling.created calling_left split: if_splits\<close>)

lemma calling_timeout:
  assumes "calling True c task s t" and "fire (PollTimeout c) t = Some t'"
  shows "calling True c task s t'"
  using assms(1)
proof cases
  case left
  with assms(2) show ?thesis by (auto simp: poll_timeout_def)
qed (use assms(2) in \<open>auto simp: poll_timeout_def thread_states intro: calling.intros split: if_splits\<close>)

lemma calling_run:
  assumes "mtx s = None"
  shows "calling late c task s t \<Longrightarrow> list_all (\<lambda>l. of_pair c (length (thr s)) l \<or> late \<and> l = PollTimeout c) ls \<Longrightarrow>
    fire_all ls t = Some t' \<Longrightarrow> calling late c task s t'"
proof (induction ls arbitrary: t)
  case (Cons l ls)
  then obtain t1 where t1: "fire l t = Some t1" "fire_all ls t1 = Some t'" by (auto split: option.splits)
  have "calling late c task s t1"
    using Cons.prems(1,2) t1(1) calling_worker calling_caller [OF _ _ assms] calling_timeout
    by (auto simp: of_pair_def)
  with Cons.IH Cons.prems(2) t1(2) show ?case by simp
qed simp

lemma calling_result:
  assumes "calling late c task s t" and "callers t c = C_Unlock True"
    and "callers s c = C_Idle" and "mtx s = None"
  shows "goto c C_Idle (unlock t) = addTask task s \<or> late \<and> goto c C_Idle (unlock t) = addTask_late task s"
  using assms(1)
  by cases (use assms(2-4) in \<open>auto simp: mid_returned addTask_def addTask_late_def Let_def creates_def listed_def
      createNewThread_def createNewThread_late_def started_thread_def\<close>)

end
