(* ===== verification/TaskController.thy ===== *)
theory TaskController
  imports AddTask
begin

section \<open>Reassembling requests: \<open>server/taskController.h\<close>, \<open>taskController::makeNewTask\<close>\<close>

text \<open>
  \<open>onRecv\<close> gets what one \<open>recv\<close> returned: a pointer into the 32 kB receive buffer and a length.
  \<open>makeNewTask\<close> cuts the bytes into messages by the total length in their first four bytes, keeps an
  incomplete message per client in \<open>m_recvList\<close> and hands every complete one to the pool.

  The buffer argument is the array from the pointer to its end, so \<open>buf + n\<close> is \<open>drop n buf\<close> and
  every \<open>memcpy\<close> is checked against it; the buffer of a task is made of cells that are unwritten
  until \<open>memcpy\<close> fills them. Parameters: \<open>can_alloc\<close>, the lengths \<open>operator new\<close> grants (it throws
  \<open>bad_alloc\<close> for the others, so the \<open>NULL\<close> test after it is never true), and \<open>add\<close>, the operation
  of the pool, which \<open>addTask\<close> is for the real pool. The recursion need not end, so the result is
  an option: \<open>None\<close> is a call that never returns.

  The destructor of \<open>taskData\<close> is not modelled: no code of the program deletes a task.
\<close>

record taskData =
  m_clientId :: int
  m_databuf :: "cell list"
  m_len :: u32
  m_curLen :: u32

record 'p taskController =
  m_recvList :: "int \<Rightarrow> taskData option"
  m_pool :: 'p

definition memcpy_in :: "cell list \<Rightarrow> nat \<Rightarrow> byte list \<Rightarrow> nat \<Rightarrow> cell list res" where
  "memcpy_in dst off src n = bind_res (read_at src 0 n) (\<lambda>bs. write_at dst off (map Some bs))"

definition new_taskData :: "int \<Rightarrow> cell list \<Rightarrow> u32 \<Rightarrow> taskData" where
  "new_taskData clientId databuf len =
     \<lparr>m_clientId = clientId, m_databuf = databuf, m_len = len, m_curLen = 0\<rparr>"

partial_function (option) makeNewTask ::
  "(u32 \<Rightarrow> bool) \<Rightarrow> (taskData \<Rightarrow> 'p \<Rightarrow> 'p) \<Rightarrow> int \<Rightarrow> byte list \<Rightarrow> u32 \<Rightarrow> 'p taskController
   \<Rightarrow> 'p taskController res option" where
  "makeNewTask can_alloc add clientID buf len s =
     (case m_recvList s clientID of
        None \<Rightarrow>
          (case load32 (map Some buf) 0 of
             Inl e \<Rightarrow> Some (Inl e)
           | Inr totalLen \<Rightarrow>
               if \<not> can_alloc totalLen then Some (Inl Bad_Alloc)
               else if totalLen \<le> len then
                 (case memcpy_in (new_char totalLen) 0 buf (unat totalLen) of
                    Inl e \<Rightarrow> Some (Inl e)
                  | Inr revBuf \<Rightarrow>
                      let s' = s\<lparr>m_pool := add (new_taskData clientID revBuf totalLen) (m_pool s)\<rparr>
                      in if totalLen < len
                         then makeNewTask can_alloc add clientID (drop (unat totalLen) buf)
                                (len - totalLen) s'
                         else Some (Inr s'))
               else
                 (case memcpy_in (new_char totalLen) 0 buf (unat len) of
                    Inl e \<Rightarrow> Some (Inl e)
                  | Inr revBuf \<Rightarrow>
                      let data = (new_taskData clientID revBuf totalLen)\<lparr>m_curLen := 0 + len\<rparr>
                      in Some (Inr (s\<lparr>m_recvList := (m_recvList s)(clientID := Some data)\<rparr>))))
      | Some data \<Rightarrow>
          if len + m_curLen data < m_len data then
            (case memcpy_in (m_databuf data) (unat (m_curLen data)) buf (unat len) of
               Inl e \<Rightarrow> Some (Inl e)
             | Inr databuf \<Rightarrow>
                 let data' = data\<lparr>m_databuf := databuf, m_curLen := m_curLen data + len\<rparr>
                 in Some (Inr (s\<lparr>m_recvList := (m_recvList s)(clientID := Some data')\<rparr>)))
          else
            (case memcpy_in (m_databuf data) (unat (m_curLen data)) buf
                    (unat (m_len data - m_curLen data)) of
               Inl e \<Rightarrow> Some (Inl e)
             | Inr databuf \<Rightarrow>
                 let data' = data\<lparr>m_databuf := databuf\<rparr>;
                     s' = s\<lparr>m_pool := add data' (m_pool s),
                            m_recvList := (m_recvList s)(clientID := None)\<rparr>
                 in if m_len data < len + m_curLen data
                    then makeNewTask can_alloc add clientID
                           (drop (unat (m_len data) - unat (m_curLen data)) buf)
                           (len - (m_len data - m_curLen data)) s'
                    else Some (Inr s')))"

definition onRecv ::
  "(u32 \<Rightarrow> bool) \<Rightarrow> (taskData \<Rightarrow> 'p \<Rightarrow> 'p) \<Rightarrow> int \<Rightarrow> byte list \<Rightarrow> u32 \<Rightarrow> 'p taskController
   \<Rightarrow> 'p taskController res option" where
  "onRecv can_alloc add socket data len s = makeNewTask can_alloc add socket data len s"


subsection \<open>The messages in a byte stream\<close>

definition frame_len :: "byte list \<Rightarrow> nat" where
  "frame_len bs = unat (of_le32 (take 4 bs))"

text \<open>
  The reference: cut a stream into its complete messages and the rest. \<open>None\<close> where the stream ends
  inside the length field of a message or the length is zero.
\<close>

function split_frames :: "byte list \<Rightarrow> (byte list list \<times> byte list) option" where
  "split_frames bs =
     (if bs = [] then Some ([], [])
      else if length bs < 4 \<or> frame_len bs = 0 then None
      else if frame_len bs \<le> length bs
      then map_option (\<lambda>(fs, r). (take (frame_len bs) bs # fs, r)) (split_frames (drop (frame_len bs) bs))
      else Some ([], bs))"
  by pat_completeness auto
termination
  by (relation "measure length") auto

declare split_frames.simps [simp del]

lemma split_frames_Nil [simp]: "split_frames [] = Some ([], [])"
  by (simp add: split_frames.simps)

lemma split_frames_partial:
  "bs \<noteq> [] \<Longrightarrow> 4 \<le> length bs \<Longrightarrow> length bs < frame_len bs \<Longrightarrow> split_frames bs = Some ([], bs)"
  by (simp add: split_frames.simps)

lemma split_frames_frame:
  assumes "4 \<le> length bs" and "0 < frame_len bs" and "frame_len bs \<le> length bs"
  shows "split_frames bs =
    map_option (\<lambda>(fs, r). (take (frame_len bs) bs # fs, r)) (split_frames (drop (frame_len bs) bs))"
proof -
  have "bs \<noteq> []" using assms(1) by auto
  with assms show ?thesis by (simp add: split_frames.simps [of bs])
qed

lemma split_frames_cases:
  assumes "split_frames bs = Some (fs, r)" and "bs \<noteq> []"
  obtains (partial) "4 \<le> length bs" "length bs < frame_len bs" "fs = []" "r = bs"
  | (frame) gs where "4 \<le> length bs" "0 < frame_len bs" "frame_len bs \<le> length bs"
      "fs = take (frame_len bs) bs # gs" "split_frames (drop (frame_len bs) bs) = Some (gs, r)"
  using assms by (subst (asm) split_frames.simps) (auto split: if_splits)

lemma frame_len_append: "4 \<le> length p \<Longrightarrow> frame_len (p @ q) = frame_len p"
  by (simp add: frame_len_def)

text \<open>Cutting a longer stream continues from the rest of the shorter one.\<close>

lemma split_frames_append:
  "split_frames a = Some (fs, r) \<Longrightarrow>
   split_frames (a @ b) = map_option (\<lambda>(gs, t). (fs @ gs, t)) (split_frames (r @ b))"
proof (induction a arbitrary: fs rule: split_frames.induct)
  case (1 a)
  show ?case
  proof (cases "a = []")
    case True
    with "1.prems" show ?thesis by (simp add: option.map_ident case_prod_beta')
  next
    case False
    from "1.prems" False show ?thesis
    proof (cases rule: split_frames_cases)
      case partial
      then show ?thesis by (simp add: option.map_ident case_prod_beta')
    next
      case (frame gs)
      let ?n = "frame_len a"
      have "split_frames (drop ?n a @ b) = map_option (\<lambda>(hs, t). (gs @ hs, t)) (split_frames (r @ b))"
        using "1.IH" [OF False] frame by simp
      moreover have "split_frames (a @ b) =
          map_option (\<lambda>(hs, t). (take ?n a # hs, t)) (split_frames (drop ?n a @ b))"
        using frame split_frames_frame [of "a @ b"] by (simp add: frame_len_append)
      ultimately show ?thesis
        using frame by (simp add: option.map_comp comp_def case_prod_beta')
    qed
  qed
qed

text \<open>Every complete message is one of the ones the length field announces.\<close>

definition is_frame :: "byte list \<Rightarrow> bool" where
  "is_frame f \<longleftrightarrow> 4 \<le> length f \<and> frame_len f = length f"

lemma split_frames_one:
  "is_frame f \<Longrightarrow> split_frames (f @ b) = map_option (\<lambda>(gs, t). (f # gs, t)) (split_frames b)"
  using split_frames_frame [of "f @ b"]
  by (cases "f = []") (simp_all add: is_frame_def frame_len_append)

lemma split_frames_concat:
  "list_all is_frame fs \<Longrightarrow> split_frames (concat fs) = Some (fs, [])"
  by (induction fs) (simp_all add: split_frames_one)


subsection \<open>What \<open>makeNewTask\<close> keeps of a client's bytes\<close>

text \<open>\<open>holds s c p\<close>: the bytes \<open>p\<close> of client \<open>c\<close> wait in \<open>m_recvList\<close> for the rest of their message.\<close>

definition pending_entry :: "int \<Rightarrow> byte list \<Rightarrow> taskData \<Rightarrow> bool" where
  "pending_entry c p d \<longleftrightarrow>
     m_clientId d = c \<and> unat (m_len d) = frame_len p \<and> unat (m_curLen d) = length p \<and>
     m_databuf d = map Some p @ replicate (frame_len p - length p) None \<and>
     4 \<le> length p \<and> length p < frame_len p"

definition holds :: "'p taskController \<Rightarrow> int \<Rightarrow> byte list \<Rightarrow> bool" where
  "holds s c p \<longleftrightarrow>
     (case m_recvList s c of None \<Rightarrow> p = [] | Some d \<Rightarrow> pending_entry c p d)"

definition task_view :: "taskData \<Rightarrow> int \<times> cell list \<times> u32" where
  "task_view d = (m_clientId d, m_databuf d, m_len d)"

definition msg_view :: "int \<Rightarrow> byte list \<Rightarrow> int \<times> cell list \<times> u32" where
  "msg_view c f = (c, map Some f, word_of_nat (length f))"

lemma memcpy_in_prefix:
  "length x \<le> length d \<Longrightarrow> n = length x \<Longrightarrow> off = length p \<Longrightarrow>
   memcpy_in (p @ d) off (x @ y) n = Inr (p @ map Some x @ drop (length x) d)"
  by (simp add: memcpy_in_def read_at_def write_at_def)

lemma memcpy_in_new:
  "length x \<le> unat N \<Longrightarrow> n = length x \<Longrightarrow>
   memcpy_in (new_char N) 0 (x @ y) n = Inr (map Some x @ replicate (unat N - length x) None)"
  using memcpy_in_prefix [of x "new_char N" n 0 "[]" y] by (simp add: new_char_def)

lemma memcpy_in_take:
  assumes "length (take k bs) = k"
  shows "memcpy_in (map Some p @ replicate k None) (length p) (bs @ q) k =
         Inr (map Some (p @ take k bs))"
proof -
  have "length (take k bs) \<le> length (replicate k (None :: cell))" using assms by simp
  from memcpy_in_prefix [OF this assms [symmetric] refl, of "map Some p" "drop k bs @ q"]
  have "memcpy_in (map Some p @ replicate k None) (length p) (take k bs @ drop k bs @ q) k =
      Inr (map Some p @ map Some (take k bs) @ drop (length (take k bs)) (replicate k None))"
    by simp
  then show ?thesis by (simp only: assms append_assoc [symmetric] append_take_drop_id map_append)
      simp
qed

lemma load_total:
  "4 \<le> length bs \<Longrightarrow> load32 (map Some (bs @ q)) 0 = Inr (of_le32 (take 4 bs))"
  using load32_map_Some [of 0 bs "map Some q"] by simp

text \<open>The three outcomes of a call for a client with no waiting bytes.\<close>

lemma makeNewTask_wait:
  assumes "m_recvList s c = None" and "4 \<le> length bs" and "length bs < frame_len bs"
    and "unat len = length bs" and "can_alloc (of_le32 (take 4 bs))"
  shows "\<exists>d. makeNewTask can_alloc add c (bs @ q) len s =
      Some (Inr (s\<lparr>m_recvList := (m_recvList s)(c := Some d)\<rparr>)) \<and> pending_entry c bs d"
proof -
  let ?N = "of_le32 (take 4 bs)"
  have N: "unat ?N = frame_len bs" by (simp add: frame_len_def)
  then have "\<not> ?N \<le> len" using assms(3,4) by (simp add: word_le_nat_alt)
  then show ?thesis
    using assms memcpy_in_new [of bs ?N "unat len" q] N
    by (intro exI [of _ "(new_taskData c (map Some bs @ replicate (frame_len bs - length bs) None) ?N)
          \<lparr>m_curLen := len\<rparr>"])
      (simp add: makeNewTask.simps [of can_alloc add c "bs @ q"] load_total new_taskData_def
        pending_entry_def del: map_append)
qed

lemma makeNewTask_cut:
  assumes "m_recvList s c = None" and "4 \<le> length bs" and "frame_len bs \<le> length bs"
    and "unat len = length bs" and "can_alloc (of_le32 (take 4 bs))"
  shows "\<exists>d. task_view d = msg_view c (take (frame_len bs) bs) \<and>
    makeNewTask can_alloc add c (bs @ q) len s =
      (let s' = s\<lparr>m_pool := add d (m_pool s)\<rparr>
       in if frame_len bs < length bs
          then makeNewTask can_alloc add c (drop (frame_len bs) bs @ q) (len - of_le32 (take 4 bs)) s'
          else Some (Inr s'))"
proof -
  let ?N = "of_le32 (take 4 bs)" and ?n = "frame_len bs"
  have N: "unat ?N = ?n" by (simp add: frame_len_def)
  then have le: "?N \<le> len" and lt: "?N < len \<longleftrightarrow> ?n < length bs"
    using assms(3,4) by (simp_all add: word_le_nat_alt word_less_nat_alt)
  have split: "take ?n bs @ (drop ?n bs @ q) = bs @ q"
    by (metis append_assoc append_take_drop_id)
  have "memcpy_in (new_char ?N) 0 (bs @ q) ?n = Inr (map Some (take ?n bs))"
    using memcpy_in_new [of "take ?n bs" ?N ?n "drop ?n bs @ q"] assms(3) N unfolding split by simp
  moreover have "msg_view c (take ?n bs) = (c, map Some (take ?n bs), ?N)"
  proof -
    have "word_of_nat (length (take ?n bs)) = ?N" using assms(3) by (simp add: frame_len_def)
    then show ?thesis by (simp only: msg_view_def)
  qed
  ultimately show ?thesis
    using assms le lt N
    by (intro exI [of _ "new_taskData c (map Some (take ?n bs)) ?N"])
      (simp add: makeNewTask.simps [of can_alloc add c "bs @ q"] load_total Let_def task_view_def
        new_taskData_def del: map_append)
qed


text \<open>The two outcomes of a call for a client whose bytes wait.\<close>

lemma makeNewTask_more:
  assumes "m_recvList s c = Some d" and "pending_entry c p d" and "unat len = length bs"
    and "length p + length bs < frame_len p"
  shows "\<exists>d'. makeNewTask can_alloc add c (bs @ q) len s =
      Some (Inr (s\<lparr>m_recvList := (m_recvList s)(c := Some d')\<rparr>)) \<and> pending_entry c (p @ bs) d'"
proof -
  have d: "unat (m_len d) = frame_len p" "unat (m_curLen d) = length p" "4 \<le> length p"
    "m_databuf d = map Some p @ replicate (frame_len p - length p) None"
    using assms(2) by (simp_all add: pending_entry_def)
  have sum: "unat (len + m_curLen d) = length p + length bs"
    using assms(3,4) d unat32_bound [of "m_len d"] by (simp add: unat32_add)
  have fill: "memcpy_in (m_databuf d) (length p) (bs @ q) (length bs) =
      Inr (map Some (p @ bs) @ replicate (frame_len p - (length p + length bs)) None)"
    using memcpy_in_prefix [of bs "replicate (frame_len p - length p) None" _ _ "map Some p" q] assms(4) d
    by simp
  have less: "len + m_curLen d < m_len d" using sum d assms(4) by (simp add: word_less_nat_alt)
  show ?thesis
    using assms(1-4) fill sum d less
    by (intro exI [of _ "d\<lparr>m_databuf := map Some (p @ bs)
          @ replicate (frame_len p - (length p + length bs)) None, m_curLen := m_curLen d + len\<rparr>"])
      (simp add: makeNewTask.simps [of can_alloc add c "bs @ q"] pending_entry_def frame_len_append
        add.commute)
qed

lemma makeNewTask_complete:
  assumes "m_recvList s c = Some d" and "pending_entry c p d" and "unat len = length bs"
    and "frame_len p \<le> length p + length bs" and "length p + length bs < 2 ^ 32"
  shows "\<exists>d'. task_view d' = msg_view c (p @ take (frame_len p - length p) bs) \<and>
    makeNewTask can_alloc add c (bs @ q) len s =
      (let s' = s\<lparr>m_pool := add d' (m_pool s), m_recvList := (m_recvList s)(c := None)\<rparr>
       in if frame_len p < length p + length bs
          then makeNewTask can_alloc add c (drop (frame_len p - length p) bs @ q)
                 (len - (m_len d - m_curLen d)) s'
          else Some (Inr s'))"
proof -
  let ?k = "frame_len p - length p"
  have d: "unat (m_len d) = frame_len p" "unat (m_curLen d) = length p" "m_clientId d = c"
    "m_databuf d = map Some p @ replicate ?k None" "length p < frame_len p"
    using assms(2) by (simp_all add: pending_entry_def)
  have sum: "unat (len + m_curLen d) = length p + length bs"
    using assms(3,5) d by (simp add: unat32_add)
  have k: "unat (m_len d - m_curLen d) = ?k" using d by (simp add: unat32_sub)
  have len: "length (take ?k bs) = ?k" using assms(4) by simp
  have fill: "memcpy_in (m_databuf d) (length p) (bs @ q) ?k = Inr (map Some (p @ take ?k bs))"
    using len unfolding d(4) by (rule memcpy_in_take)
  have cmp: "\<not> len + m_curLen d < m_len d" "m_len d < len + m_curLen d \<longleftrightarrow> frame_len p < length p + length bs"
    using sum d assms(4) by (simp_all add: word_less_nat_alt)
  have "msg_view c (p @ take ?k bs) = (c, map Some (p @ take ?k bs), m_len d)"
  proof -
    have "length (p @ take ?k bs) = unat (m_len d)" using len d by simp
    then have "word_of_nat (length (p @ take ?k bs)) = m_len d" by simp
    then show ?thesis by (simp only: msg_view_def)
  qed
  then have "task_view (d\<lparr>m_databuf := map Some (p @ take ?k bs)\<rparr>) = msg_view c (p @ take ?k bs)"
    using d(3) by (simp add: task_view_def del: map_append)
  moreover have "makeNewTask can_alloc add c (bs @ q) len s =
      (let s' = s\<lparr>m_pool := add (d\<lparr>m_databuf := map Some (p @ take ?k bs)\<rparr>) (m_pool s),
                  m_recvList := (m_recvList s)(c := None)\<rparr>
       in if frame_len p < length p + length bs
          then makeNewTask can_alloc add c (drop ?k bs @ q) (len - (m_len d - m_curLen d)) s'
          else Some (Inr s'))"
    by (subst makeNewTask.simps)
      (simp add: assms(1) fill cmp k d(1,2) Let_def del: map_append)
  ultimately show ?thesis by blast
qed


subsection \<open>The controller as a client of the pool\<close>

definition grants :: "(u32 \<Rightarrow> bool) \<Rightarrow> nat \<Rightarrow> bool" where
  "grants can_alloc M \<longleftrightarrow> (\<forall>n. unat n \<le> M \<longrightarrow> can_alloc n)"

definition bounded_by :: "nat \<Rightarrow> byte list list \<Rightarrow> byte list \<Rightarrow> bool" where
  "bounded_by M fs r \<longleftrightarrow> (\<forall>f \<in> set fs. length f \<le> M) \<and> (r \<noteq> [] \<longrightarrow> frame_len r \<le> M)"

text \<open>The state after bytes of client \<open>c\<close> have been cut into the messages \<open>fs\<close> and the rest \<open>r\<close>.\<close>

definition delivered ::
  "('p \<Rightarrow> taskData list) \<Rightarrow> int \<Rightarrow> byte list list \<Rightarrow> byte list \<Rightarrow> 'p taskController
   \<Rightarrow> 'p taskController \<Rightarrow> bool" where
  "delivered queued c fs r s s' \<longleftrightarrow>
     map task_view (queued (m_pool s')) = map task_view (queued (m_pool s)) @ map (msg_view c) fs \<and>
     holds s' c r \<and> (\<forall>b. b \<noteq> c \<longrightarrow> m_recvList s' b = m_recvList s b)"

lemma delivered_trans:
  "delivered queued c fs r s s' \<Longrightarrow> delivered queued c gs t s' s'' \<Longrightarrow> delivered queued c (fs @ gs) t s s''"
  by (simp add: delivered_def)

locale controller_sink = task_sink add queued
  for add :: "taskData \<Rightarrow> 'p \<Rightarrow> 'p" and queued :: "'p \<Rightarrow> taskData list"
begin

text \<open>A call that adds the first message and, if bytes are left, goes on with them.\<close>

lemma deliver_then:
  assumes "delivered queued c [m] [] s s1"
    and "call = (if again then rest else Some (Inr s1))"
    and "again \<Longrightarrow> \<exists>s'. rest = Some (Inr s') \<and> delivered queued c gs r s1 s'"
    and "\<not> again \<Longrightarrow> gs = [] \<and> r = []"
  shows "\<exists>s'. call = Some (Inr s') \<and> delivered queued c (m # gs) r s s'"
  using assms delivered_trans [OF assms(1), of gs r] by (cases again) auto

lemma cut_fresh:
  assumes "split_frames bs = Some (fs, r)" and "bs \<noteq> []" and "m_recvList s c = None"
    and "unat len = length bs" and "grants can_alloc M" and "bounded_by M fs r"
  shows "\<exists>s'. makeNewTask can_alloc add c (bs @ q) len s = Some (Inr s') \<and>
    delivered queued c fs r s s'"
  using assms
proof (induction bs arbitrary: fs s len rule: split_frames.induct)
  case (1 bs)
  from "1.prems"(1,2) show ?case
  proof (cases rule: split_frames_cases)
    case partial
    then have "can_alloc (of_le32 (take 4 bs))"
      using "1.prems" by (simp add: grants_def bounded_by_def frame_len_def)
    from makeNewTask_wait [of s c bs len can_alloc add q, OF "1.prems"(3) partial(1,2) "1.prems"(4) this]
    show ?thesis using partial by (auto simp: delivered_def holds_def)
  next
    case (frame gs)
    let ?n = "frame_len bs" and ?N = "of_le32 (take 4 bs)"
    have "can_alloc ?N"
      using "1.prems"(5,6) frame by (simp add: grants_def bounded_by_def frame_len_def)
    from makeNewTask_cut [of s c bs len can_alloc add q, OF "1.prems"(3) frame(1,3) "1.prems"(4) this]
    obtain d where d: "task_view d = msg_view c (take ?n bs)"
      and call: "makeNewTask can_alloc add c (bs @ q) len s =
        (let s' = s\<lparr>m_pool := add d (m_pool s)\<rparr> in if ?n < length bs
         then makeNewTask can_alloc add c (drop ?n bs @ q) (len - ?N) s' else Some (Inr s'))"
      by blast
    let ?s1 = "s\<lparr>m_pool := add d (m_pool s)\<rparr>"
    have one: "delivered queued c [take ?n bs] [] s ?s1"
      using d "1.prems"(3) by (simp add: delivered_def queued_add holds_def)
    have "\<exists>s'. makeNewTask can_alloc add c (bs @ q) len s = Some (Inr s') \<and>
        delivered queued c (take ?n bs # gs) r s s'"
      using one call [unfolded Let_def]
    proof (rule deliver_then)
      assume True: "?n < length bs"
      have "unat (len - ?N) = length (drop ?n bs)"
        using "1.prems"(4) frame(3) by (simp add: unat32_sub frame_len_def)
      moreover have "bounded_by M gs r" using "1.prems"(6) frame(4) by (simp add: bounded_by_def)
      ultimately show "\<exists>s'. makeNewTask can_alloc add c (drop ?n bs @ q) (len - ?N) ?s1 = Some (Inr s')
          \<and> delivered queued c gs r ?s1 s'"
        using "1.IH" [of gs ?s1 "len - ?N"] "1.prems" frame True by auto
    qed (use frame in simp)
    then show ?thesis using frame(4) by simp
  qed
qed

text \<open>One call, whatever was waiting: the stream is continued.\<close>

lemma cut_pending:
  assumes Some: "m_recvList s c = Some d" and d: "pending_entry c p d"
    and "split_frames (p @ bs) = Some (fs, r)" and "bs \<noteq> []"
    and "unat len = length bs" and "grants can_alloc M" and "bounded_by M fs r"
    and "length p + length bs < 2 ^ 32"
  shows "\<exists>s'. makeNewTask can_alloc add c (bs @ q) len s = Some (Inr s') \<and>
    delivered queued c fs r s s'"
proof -
  have p: "4 \<le> length p" "length p < frame_len p" using d by (simp_all add: pending_entry_def)
  let ?k = "frame_len p - length p"
  have fl: "frame_len (p @ bs) = frame_len p" using p by (simp add: frame_len_append)
  have "p @ bs \<noteq> []" using assms(4) by simp
  from assms(3) this show ?thesis
  proof (cases rule: split_frames_cases)
    case partial
    then have "length p + length bs < frame_len p" by (simp add: fl)
    from makeNewTask_more [OF Some d assms(5) this, of can_alloc add q] partial show ?thesis
      by (fastforce simp: delivered_def holds_def)
  next
    case (frame gs)
    then have le: "frame_len p \<le> length p + length bs" by (simp add: fl)
    have first: "take (frame_len p) (p @ bs) = p @ take ?k bs"
      and rest: "drop (frame_len p) (p @ bs) = drop ?k bs" using p by simp_all
    from makeNewTask_complete [OF Some d assms(5) le assms(8), of can_alloc add q]
    obtain d' where d': "task_view d' = msg_view c (p @ take ?k bs)"
      and call: "makeNewTask can_alloc add c (bs @ q) len s =
        (let s' = s\<lparr>m_pool := add d' (m_pool s), m_recvList := (m_recvList s)(c := None)\<rparr>
         in if frame_len p < length p + length bs
            then makeNewTask can_alloc add c (drop ?k bs @ q) (len - (m_len d - m_curLen d)) s'
            else Some (Inr s'))"
      by blast
    let ?s1 = "s\<lparr>m_pool := add d' (m_pool s), m_recvList := (m_recvList s)(c := None)\<rparr>"
    have one: "delivered queued c [p @ take ?k bs] [] s ?s1"
      using d' by (simp add: delivered_def queued_add holds_def)
    have "\<exists>s'. makeNewTask can_alloc add c (bs @ q) len s = Some (Inr s') \<and>
        delivered queued c ((p @ take ?k bs) # gs) r s s'"
      using one call [unfolded Let_def]
    proof (rule deliver_then)
      assume True: "frame_len p < length p + length bs"
      have "unat (len - (m_len d - m_curLen d)) = length (drop ?k bs)"
        using d assms(5) le p by (simp add: unat32_sub pending_entry_def)
      moreover have "bounded_by M gs r" using assms(7) frame(4) by (simp add: bounded_by_def)
      moreover have "drop ?k bs \<noteq> []" using True p by simp
      moreover have "split_frames (drop ?k bs) = Some (gs, r)" using frame(5) rest by (simp only: fl)
      moreover have "m_recvList ?s1 c = None" by simp
      ultimately show "\<exists>s'. makeNewTask can_alloc add c (drop ?k bs @ q)
          (len - (m_len d - m_curLen d)) ?s1 = Some (Inr s') \<and> delivered queued c gs r ?s1 s'"
        using assms(6) by (intro cut_fresh)
    qed (use frame rest le in \<open>simp add: fl\<close>)
    then show ?thesis using frame(4) first by (simp add: fl)
  qed
qed

lemma cut_chunk:
  assumes "holds s c p" and "split_frames (p @ bs) = Some (fs, r)" and "bs \<noteq> []"
    and "unat len = length bs" and "grants can_alloc M" and "bounded_by M fs r"
    and "length p + length bs < 2 ^ 32"
  shows "\<exists>s'. makeNewTask can_alloc add c (bs @ q) len s = Some (Inr s') \<and>
    delivered queued c fs r s s'"
proof (cases "m_recvList s c")
  case None
  with assms(1) have "p = []" by (simp add: holds_def)
  with None assms cut_fresh show ?thesis by simp
next
  case (Some d)
  with assms(1) have "pending_entry c p d" by (simp add: holds_def)
  from cut_pending [OF Some this assms(2-)] show ?thesis .
qed

end


subsection \<open>The pool of the server\<close>

text \<open>
  \<open>threadPool::getInstance()->addTask(std::make_shared<threadTask>(this, data))\<close>: the controller
  itself is the worker of the task. \<open>queued_data\<close> are the arguments the queued tasks carry.
\<close>

definition server_add :: "nat \<Rightarrow> taskData \<Rightarrow> taskData sys \<Rightarrow> taskData sys" where
  "server_add this data s = addTask (Some \<lparr>m_worker = Some this, m_param = data\<rparr>) s"

definition queued_data :: "taskData sys \<Rightarrow> taskData list" where
  "queued_data s = concat (map runnable (m_tasks (pool s)))"

lemma server_add_queued: "queued_data (server_add this d s) = queued_data s @ [d]"
  by (simp add: queued_data_def server_add_def pool_sink.queued_add runnable_def)

interpretation server_sink: controller_sink "server_add this" queued_data for this
  by unfold_locales (rule server_add_queued)

end
