(* ===== verification/Kernel.thy ===== *)
theory Kernel
  imports Prelude
begin

section \<open>The system calls the program makes\<close>

text \<open>
  The operating system is not part of the program, so nothing is said here about what a call does:
  the state \<open>os\<close> holds the answers the kernel gives to the following calls, in order, and the
  calls made so far with their arguments. A theorem quantifies over the answers. A call whose
  answer has not come is \<open>Inl Blocked\<close>; nothing after it happens.

  An answer is a return value, the bytes a \<open>recv\<close> stored (its return value is their number) or the
  events of an \<open>epoll_wait\<close>. The numeric constants are those of Linux.
\<close>

datatype sys_call =
    Sys_socket int int int
  | Sys_bind int "cell list"
  | Sys_listen int int
  | Sys_accept int
  | Sys_connect int "cell list"
  | Sys_unlink "byte list"
  | Sys_epoll_create int
  | Sys_epoll_add int int u32
  | Sys_epoll_del int int
  | Sys_epoll_wait int
  | Sys_getfl int
  | Sys_setfl int u32
  | Sys_send int "byte list"
  | Sys_recv int nat
  | Sys_close int
  | Sys_join nat

datatype answer =
    Ret int
  | Bytes "byte list"
  | Events "(int \<times> u32) list"

record os =
  answers :: "answer list"
  calls :: "sys_call list"

definition sys_do :: "sys_call \<Rightarrow> os \<Rightarrow> (answer \<times> os) res" where
  "sys_do c w =
     (case answers w of
        [] \<Rightarrow> Inl Blocked
      | a # as \<Rightarrow> Inr (a, w\<lparr>answers := as, calls := calls w @ [c]\<rparr>))"

text \<open>The \<open>int\<close> a call returns.\<close>

primrec ret_of :: "answer \<Rightarrow> int" where
  "ret_of (Ret n) = n"
| "ret_of (Bytes bs) = int (length bs)"
| "ret_of (Events evs) = int (length evs)"

primrec events_of :: "answer \<Rightarrow> (int \<times> u32) list" where
  "events_of (Ret n) = []"
| "events_of (Bytes bs) = []"
| "events_of (Events evs) = evs"

definition sys_int :: "sys_call \<Rightarrow> os \<Rightarrow> (int \<times> os) res" where
  "sys_int c w = bind_res (sys_do c w) (\<lambda>(a, w'). Inr (ret_of a, w'))"

text \<open>
  A \<open>recv\<close> stores at most as many bytes as the buffer it was given has, and a positive return value
  is the number of bytes stored; an answer of another kind is read as an error or the end.
\<close>

definition sys_recv :: "int \<Rightarrow> nat \<Rightarrow> os \<Rightarrow> (int \<times> byte list \<times> os) res" where
  "sys_recv fd n w =
     bind_res (sys_do (Sys_recv fd n) w) (\<lambda>(a, w').
       case a of
         Bytes bs \<Rightarrow> Inr (int (length (take n bs)), take n bs, w')
       | Ret k \<Rightarrow> Inr (min k 0, [], w')
       | Events evs \<Rightarrow> Inr (- 1, [], w'))"

definition os_of :: "answer list \<Rightarrow> os" where
  "os_of as = \<lparr>answers = as, calls = []\<rparr>"

definition AF_UNIX :: int where "AF_UNIX = 1"
definition AF_INET :: int where "AF_INET = 2"
definition AF_INET6 :: int where "AF_INET6 = 10"
definition SOCK_STREAM :: int where "SOCK_STREAM = 1"
definition EPOLLIN :: u32 where "EPOLLIN = 1"
definition EPOLLOUT :: u32 where "EPOLLOUT = 4"
definition EPOLLERR :: u32 where "EPOLLERR = 8"
definition EPOLLHUP :: u32 where "EPOLLHUP = 16"
definition O_NONBLOCK :: u32 where "O_NONBLOCK = 2048"

definition has_flag :: "u32 \<Rightarrow> u32 \<Rightarrow> bool" where
  "has_flag events flag \<longleftrightarrow> and events flag \<noteq> 0"

text \<open>Every call uses up one answer.\<close>

lemma sys_do_Inr:
  "sys_do c w = Inr (a, w') \<longleftrightarrow> answers w = a # answers w' \<and> w' = w\<lparr>answers := answers w', calls := calls w @ [c]\<rparr>"
  by (auto simp: sys_do_def split: list.splits)

lemma sys_do_answer [simp]:
  "sys_do c \<lparr>answers = a # as, calls = cs\<rparr> = Inr (a, \<lparr>answers = as, calls = cs @ [c]\<rparr>)"
  by (simp add: sys_do_def)

lemma sys_int_answer [simp]:
  "sys_int c \<lparr>answers = a # as, calls = cs\<rparr> = Inr (ret_of a, \<lparr>answers = as, calls = cs @ [c]\<rparr>)"
  by (simp add: sys_int_def)

lemma sys_do_shorter: "sys_do c w = Inr (a, w') \<Longrightarrow> length (answers w') < length (answers w)"
  by (auto simp: sys_do_def split: list.splits)

lemma sys_int_shorter: "sys_int c w = Inr (n, w') \<Longrightarrow> length (answers w') < length (answers w)"
  by (auto simp: sys_int_def bind_res_Inr_iff dest: sys_do_shorter)

lemma sys_recv_shorter: "sys_recv fd n w = Inr (k, bs, w') \<Longrightarrow> length (answers w') < length (answers w)"
proof -
  assume "sys_recv fd n w = Inr (k, bs, w')"
  then obtain a w1 where "sys_do (Sys_recv fd n) w = Inr (a, w1)" and "w1 = w'"
    by (cases "sys_do (Sys_recv fd n) w") (auto simp: sys_recv_def split: answer.split_asm)
  then show ?thesis by (auto dest: sys_do_shorter)
qed

lemma sys_recv_answer [simp]:
  "sys_recv fd n \<lparr>answers = Bytes bs # as, calls = cs\<rparr> =
   Inr (int (length (take n bs)), take n bs, \<lparr>answers = as, calls = cs @ [Sys_recv fd n]\<rparr>)"
  "sys_recv fd n \<lparr>answers = Ret k # as, calls = cs\<rparr> =
   Inr (min k 0, [], \<lparr>answers = as, calls = cs @ [Sys_recv fd n]\<rparr>)"
  by (simp_all add: sys_recv_def)

lemmas sys_shorter = sys_do_shorter sys_int_shorter sys_recv_shorter

end
