(* ===== verification/SocketBase.thy ===== *)
theory SocketBase
  imports Kernel "HOL-Library.AList"
begin

section \<open>The epoll server: \<open>server/socket/socketBase.h\<close>, \<open>socketBase.cpp\<close>\<close>

text \<open>
  The class \<open>socketBase\<close>: its fields, its public operations, and the functions of its three threads
  \<open>threadListenFun\<close>, \<open>threadSendFun\<close> and \<open>threadRecvFun\<close>, as the treatment of one event, of the
  events of one \<open>epoll_wait\<close>, and the loop. A thread pointer is \<open>None\<close> for \<open>NULL\<close> and otherwise says
  whether the thread is joinable. \<open>m_sendDataList\<close> is an association list without duplicate keys;
  \<open>operator[]\<close> adds an empty list for a key that is not there.

  The sections under \<open>m_wtmtx\<close> are the functions \<open>push_back\<close> (in \<open>send\<close>), \<open>take_front\<close> (in
  \<open>threadSendFun\<close>) and \<open>erase_list\<close> (in \<open>threadListenFun\<close>). No other thread touches the map while one
  of them runs, so each is one action of the step relation of the theory SendQueue.

  Parameters: \<open>can_alloc\<close> as in the theory TaskController; \<open>onRecv\<close>, the listener's operation, which
  is \<open>None\<close> where a call of it does not return.
\<close>

subsection \<open>Data\<close>

record sendData =
  sd_clientId :: int
  sd_databuf :: "byte list"
  sd_len :: u32

record socketBase =
  m_listener :: bool
  m_mutilThread :: bool
  m_socket :: int
  m_epfd :: int
  m_listenThread :: "bool option"
  m_sendThread :: "bool option"
  m_recvThread :: "bool option"
  m_sendDataList :: "(int \<times> sendData list) list"

text \<open>\<open>socketListener::onRecv\<close>, on a listener whose state is of type \<open>'l\<close>.\<close>

type_synonym 'l socketListener = "int \<Rightarrow> byte list \<Rightarrow> u32 \<Rightarrow> 'l \<Rightarrow> 'l res option"

definition EPOLL_EVENT_SIZE :: int where
  "EPOLL_EVENT_SIZE = 1024"

definition SOCKET_RECV_BUFFER_LEN :: nat where
  "SOCKET_RECV_BUFFER_LEN = 32 * 1024"

text \<open>\<open>m_epfd\<close> is not initialised by the constructor; the argument \<open>e\<close> is what it happens to hold.\<close>

definition new_socketBase :: "bool \<Rightarrow> int \<Rightarrow> socketBase" where
  "new_socketBase mutilThread e =
     \<lparr>m_listener = False, m_mutilThread = mutilThread, m_socket = - 1, m_epfd = e,
      m_listenThread = None, m_sendThread = None, m_recvThread = None, m_sendDataList = []\<rparr>"

definition setListener :: "bool \<Rightarrow> socketBase \<Rightarrow> socketBase" where
  "setListener l s = s\<lparr>m_listener := l\<rparr>"

definition delete_socketBase :: "socketBase \<Rightarrow> socketBase" where
  "delete_socketBase s = s\<lparr>m_socket := - 1\<rparr>"

definition listen :: "int \<Rightarrow> socketBase \<Rightarrow> os \<Rightarrow> (int \<times> socketBase \<times> os) res" where
  "listen backlog s w =
     (if 0 < m_socket s then
        bind_res (sys_int (Sys_listen (m_socket s) backlog) w) (\<lambda>(r, w1).
        if r = - 1 then Inr (- 1, s, w1)
        else
          bind_res (sys_int (Sys_epoll_create EPOLL_EVENT_SIZE) w1) (\<lambda>(efd, w2).
          let s1 = s\<lparr>m_epfd := efd\<rparr> in
          if efd = - 1 then Inr (- 1, s1, w2)
          else
            bind_res (sys_int (Sys_epoll_add efd (m_socket s) EPOLLIN) w2) (\<lambda>(r3, w3).
            if r3 = - 1 then Inr (- 1, s1, w3)
            else if m_mutilThread s1
            then Inr (0, s1\<lparr>m_listenThread := Some True, m_sendThread := Some True,
                            m_recvThread := Some True\<rparr>, w3)
            else Inr (0, s1, w3))))
      else Inr (- 1, s, w))"

text \<open>The sections under \<open>m_wtmtx\<close>.\<close>

definition list_of :: "socketBase \<Rightarrow> int \<Rightarrow> sendData list" where
  "list_of s fd = (case map_of (m_sendDataList s) fd of None \<Rightarrow> [] | Some l \<Rightarrow> l)"

definition push_back :: "int \<Rightarrow> sendData \<Rightarrow> socketBase \<Rightarrow> socketBase" where
  "push_back fd d s = s\<lparr>m_sendDataList := AList.update fd (list_of s fd @ [d]) (m_sendDataList s)\<rparr>"

definition take_front :: "int \<Rightarrow> socketBase \<Rightarrow> sendData option \<times> socketBase" where
  "take_front fd s =
     (if m_sendDataList s \<noteq> [] then
        (case list_of s fd of
           [] \<Rightarrow> (None, s\<lparr>m_sendDataList := AList.update fd [] (m_sendDataList s)\<rparr>)
         | d # ds \<Rightarrow> (Some d, s\<lparr>m_sendDataList := AList.update fd ds (m_sendDataList s)\<rparr>))
      else (None, s))"

definition erase_list :: "int \<Rightarrow> socketBase \<Rightarrow> socketBase" where
  "erase_list fd s = s\<lparr>m_sendDataList := AList.delete fd (m_sendDataList s)\<rparr>"

definition send ::
  "(u32 \<Rightarrow> bool) \<Rightarrow> int \<Rightarrow> cell list \<Rightarrow> u32 \<Rightarrow> socketBase \<Rightarrow> (int \<times> socketBase) res" where
  "send can_alloc fd buf len s =
     (if 0 < fd then
        if \<not> can_alloc len then Inl Bad_Alloc
        else
          bind_res (read_at buf 0 (unat len)) (\<lambda>cs.
          bind_res (init_cells cs) (\<lambda>sendBuf.
          Inr (- 1, push_back fd \<lparr>sd_clientId = fd, sd_databuf = sendBuf, sd_len = len\<rparr> s)))
      else Inr (- 1, s))"

definition join_thread :: "nat \<Rightarrow> bool option \<Rightarrow> os \<Rightarrow> (bool option \<times> os) res" where
  "join_thread n t w =
     (if t = Some True then bind_res (sys_int (Sys_join n) w) (\<lambda>(_, w'). Inr (Some False, w'))
      else Inr (t, w))"

definition closeSocket :: "socketBase \<Rightarrow> os \<Rightarrow> (int \<times> socketBase \<times> os) res" where
  "closeSocket s w =
     bind_res (sys_int (Sys_close (m_epfd s)) w) (\<lambda>(_, w1).
     bind_res (sys_int (Sys_close (m_socket s)) w1) (\<lambda>(_, w2).
     if m_mutilThread s then
       bind_res (join_thread 0 (m_listenThread s) w2) (\<lambda>(t0, w3).
       bind_res (join_thread 1 (m_sendThread s) w3) (\<lambda>(t1, w4).
       bind_res (join_thread 2 (m_recvThread s) w4) (\<lambda>(t2, w5).
       Inr (0, s\<lparr>m_listenThread := t0, m_sendThread := t1, m_recvThread := t2\<rparr>, w5))))
     else Inr (0, s, w2)))"

definition accept :: "socketBase \<Rightarrow> os \<Rightarrow> (int \<times> os) res" where
  "accept s w = (if 0 < m_socket s then sys_int (Sys_accept (m_socket s)) w else Inr (- 1, w))"


subsection \<open>The three threads\<close>

definition listen_event :: "int \<times> u32 \<Rightarrow> socketBase \<Rightarrow> os \<Rightarrow> (socketBase \<times> os) res" where
  "listen_event ev s w =
     (let (fd, events) = ev in
      if fd = m_socket s then
        bind_res (accept s w) (\<lambda>(clientSocket, w1).
        if clientSocket < 0 then Inr (s, w1)
        else
          bind_res (sys_int (Sys_getfl clientSocket) w1) (\<lambda>(flags, w2).
          bind_res (sys_int (Sys_setfl clientSocket (or (word_of_int flags) O_NONBLOCK)) w2) (\<lambda>(_, w3).
          bind_res (sys_int (Sys_epoll_add (m_epfd s) clientSocket (or EPOLLIN EPOLLOUT)) w3) (\<lambda>(r, w4).
          if r = - 1 then bind_res (sys_int (Sys_close clientSocket) w4) (\<lambda>(_, w5). Inr (s, w5))
          else Inr (s, w4)))))
      else if has_flag events EPOLLERR \<or> has_flag events EPOLLHUP then
        let s1 = erase_list fd s in
        bind_res (sys_int (Sys_close fd) w) (\<lambda>(_, w1).
        bind_res (sys_int (Sys_epoll_del (m_epfd s) fd) w1) (\<lambda>(_, w2). Inr (s1, w2)))
      else Inr (s, w))"

definition send_event :: "int \<times> u32 \<Rightarrow> socketBase \<Rightarrow> os \<Rightarrow> (socketBase \<times> os) res" where
  "send_event ev s w =
     (let (fd, events) = ev in
      if fd \<noteq> m_socket s then
        if has_flag events EPOLLOUT then
          (case take_front fd s of
             (None, s1) \<Rightarrow> Inr (s1, w)
           | (Some d, s1) \<Rightarrow>
               bind_res (read_at (sd_databuf d) 0 (unat (sd_len d))) (\<lambda>bs.
               bind_res (sys_int (Sys_send fd bs) w) (\<lambda>(_, w1). Inr (s1, w1))))
        else Inr (s, w)
      else Inr (s, w))"

text \<open>The buffer is cleared before every \<open>recv\<close>.\<close>

definition recv_buffer :: "byte list \<Rightarrow> byte list" where
  "recv_buffer chunk = chunk @ replicate (SOCKET_RECV_BUFFER_LEN - length chunk) 0"

text \<open>The receive thread works on the listener, whose state is \<open>l\<close>.\<close>

definition recv_event ::
  "'l socketListener \<Rightarrow> socketBase \<Rightarrow> int \<times> u32 \<Rightarrow> 'l \<Rightarrow> os
   \<Rightarrow> ('l \<times> os) res option" where
  "recv_event onRecv s ev l w =
     (let (fd, events) = ev in
      if fd \<noteq> m_socket s then
        if has_flag events EPOLLIN then
          (case sys_recv fd SOCKET_RECV_BUFFER_LEN w of
             Inl e \<Rightarrow> Some (Inl e)
           | Inr (revLen, bs, w1) \<Rightarrow>
               if revLen \<le> 0 then Some (Inr (l, w1))
               else if m_listener s then
                 (case onRecv fd (recv_buffer bs) (word_of_int revLen) l of
                    None \<Rightarrow> None
                  | Some (Inl e) \<Rightarrow> Some (Inl e)
                  | Some (Inr l1) \<Rightarrow> Some (Inr (l1, w1)))
               else Some (Inr (l, w1)))
        else Some (Inr (l, w))
      else Some (Inr (l, w)))"

fun each_event ::
  "(int \<times> u32 \<Rightarrow> 's \<Rightarrow> os \<Rightarrow> ('s \<times> os) res) \<Rightarrow> (int \<times> u32) list \<Rightarrow> 's \<Rightarrow> os \<Rightarrow> ('s \<times> os) res" where
  "each_event h [] s w = Inr (s, w)"
| "each_event h (ev # evs) s w = bind_res (h ev s w) (\<lambda>(s1, w1). each_event h evs s1 w1)"

fun recv_events ::
  "'l socketListener \<Rightarrow> socketBase \<Rightarrow> (int \<times> u32) list \<Rightarrow> 'l \<Rightarrow> os
   \<Rightarrow> ('l \<times> os) res option" where
  "recv_events onRecv s [] l w = Some (Inr (l, w))"
| "recv_events onRecv s (ev # evs) l w =
     (case recv_event onRecv s ev l w of
        Some (Inr (l1, w1)) \<Rightarrow> recv_events onRecv s evs l1 w1
      | r \<Rightarrow> r)"

text \<open>
  The loops. Each round uses up an answer, so they end where the answers do; a negative answer of
  \<open>epoll_wait\<close> is the only way out in the code.
\<close>

definition shortens :: "(int \<times> u32 \<Rightarrow> 's \<Rightarrow> os \<Rightarrow> ('s \<times> os) res) \<Rightarrow> bool" where
  "shortens h \<longleftrightarrow> (\<forall>ev s w s1 w1. h ev s w = Inr (s1, w1) \<longrightarrow> length (answers w1) \<le> length (answers w))"

lemma each_event_shortens:
  "shortens h \<Longrightarrow> each_event h evs s w = Inr (s1, w1) \<Longrightarrow> length (answers w1) \<le> length (answers w)"
proof (induction h evs s w rule: each_event.induct)
  case (2 h ev evs s w)
  then obtain s2 w2 where h: "h ev s w = Inr (s2, w2)" and rest: "each_event h evs s2 w2 = Inr (s1, w1)"
    by (auto simp: bind_res_Inr_iff)
  from h "2.prems"(1) have "length (answers w2) \<le> length (answers w)" unfolding shortens_def by blast
  moreover from "2.IH" [OF h refl "2.prems"(1) rest] have "length (answers w1) \<le> length (answers w2)" .
  ultimately show ?case by simp
qed simp

lemma listen_event_shortens: "shortens listen_event"
  by (auto simp: shortens_def listen_event_def accept_def Let_def bind_res_Inr_iff
      split: if_splits dest!: sys_int_shorter)

lemma send_event_shortens: "shortens send_event"
  by (auto simp: shortens_def send_event_def Let_def bind_res_Inr_iff
      split: if_splits option.splits prod.splits dest!: sys_int_shorter)

function threadListenFun :: "socketBase \<Rightarrow> os \<Rightarrow> (socketBase \<times> os) res" where
  "threadListenFun s w =
     bind_res (sys_do (Sys_epoll_wait (m_epfd s)) w) (\<lambda>(a, w1).
       if ret_of a < 0 then Inr (s, w1)
       else
         bind_res (each_event listen_event (events_of a) s w1) (\<lambda>(s2, w2). threadListenFun s2 w2))"
  by pat_completeness auto
termination
  by (relation "measure (\<lambda>(s, w). length (answers w))")
    (auto dest!: sys_do_shorter each_event_shortens [OF listen_event_shortens])

function threadSendFun :: "socketBase \<Rightarrow> os \<Rightarrow> (socketBase \<times> os) res" where
  "threadSendFun s w =
     bind_res (sys_do (Sys_epoll_wait (m_epfd s)) w) (\<lambda>(a, w1).
       if ret_of a < 0 then Inr (s, w1)
       else
         bind_res (each_event send_event (events_of a) s w1) (\<lambda>(s2, w2). threadSendFun s2 w2))"
  by pat_completeness auto
termination
  by (relation "measure (\<lambda>(s, w). length (answers w))")
    (auto dest!: sys_do_shorter each_event_shortens [OF send_event_shortens])

lemma recv_event_shorter:
  "recv_event onRecv s ev l w = Some (Inr (l1, w1)) \<Longrightarrow> length (answers w1) \<le> length (answers w)"
  by (auto simp: recv_event_def Let_def split: if_splits sum.split_asm option.split_asm prod.split_asm
      dest!: sys_recv_shorter)

lemma recv_events_shorter:
  "recv_events onRecv s evs l w = Some (Inr (l1, w1)) \<Longrightarrow> length (answers w1) \<le> length (answers w)"
proof (induction onRecv s evs l w rule: recv_events.induct)
  case (2 onRecv s ev evs l w)
  then show ?case
    by (fastforce split: option.split_asm sum.split_asm dest: recv_event_shorter)
qed simp

function threadRecvFun ::
  "'l socketListener \<Rightarrow> socketBase \<Rightarrow> 'l \<Rightarrow> os \<Rightarrow> ('l \<times> os) res option"
  where
  "threadRecvFun onRecv s l w =
     (case sys_do (Sys_epoll_wait (m_epfd s)) w of
        Inl e \<Rightarrow> Some (Inl e)
      | Inr (a, w1) \<Rightarrow>
          if ret_of a < 0 then Some (Inr (l, w1))
          else
            (case recv_events onRecv s (events_of a) l w1 of
               Some (Inr (l2, w2)) \<Rightarrow> threadRecvFun onRecv s l2 w2
             | r \<Rightarrow> r))"
  by pat_completeness auto
termination
  by (relation "measure (\<lambda>(r, s, l, w). length (answers w))")
    (auto dest!: sys_do_shorter recv_events_shorter)

declare threadListenFun.simps [simp del] threadSendFun.simps [simp del] threadRecvFun.simps [simp del]


subsection \<open>The interface of a listener\<close>

text \<open>
  What the receive thread relies on: \<open>onRecv\<close> keeps the listener's invariant for every buffer the
  thread passes, and fails only in ways the listener admits. \<open>N\<close> bounds what one \<open>recv\<close> returns.
\<close>

definition outcome :: "(fault \<Rightarrow> bool) \<Rightarrow> ('l \<Rightarrow> bool) \<Rightarrow> 'l res \<Rightarrow> bool" where
  "outcome F ok y \<longleftrightarrow> (case y of Inl e \<Rightarrow> F e | Inr l \<Rightarrow> ok l)"

lemma outcome_simps [simp]: "outcome F ok (Inl e) \<longleftrightarrow> F e" "outcome F ok (Inr l) \<longleftrightarrow> ok l"
  by (simp_all add: outcome_def)

fun recv_within :: "nat \<Rightarrow> answer \<Rightarrow> bool" where
  "recv_within N (Bytes bs) \<longleftrightarrow> length bs \<le> N"
| "recv_within N _ \<longleftrightarrow> True"

definition recvs_within :: "nat \<Rightarrow> os \<Rightarrow> bool" where
  "recvs_within N w \<longleftrightarrow> list_all (recv_within N) (answers w)"

lemma recvs_within_step:
  "recvs_within N w \<Longrightarrow> sys_do c w = Inr (a, w') \<Longrightarrow> recvs_within N w' \<and> recv_within N a"
  by (auto simp: recvs_within_def sys_do_Inr)

lemma sys_recv_got:
  assumes "sys_recv fd n w = Inr (k, bs, w')" and "recvs_within N w"
  shows "recvs_within N w' \<and> length bs \<le> N \<and> (0 < k \<longrightarrow> bs \<noteq> [] \<and> k = int (length bs))"
proof -
  obtain a w1 where a: "sys_do (Sys_recv fd n) w = Inr (a, w1)"
    using assms(1) by (cases "sys_do (Sys_recv fd n) w") (auto simp: sys_recv_def)
  from recvs_within_step [OF assms(2) a] assms(1) a show ?thesis
    by (cases a) (auto simp: sys_recv_def)
qed

lemma sys_recv_fails: "sys_recv fd n w = Inl e \<Longrightarrow> e = Blocked"
  by (auto simp: sys_recv_def sys_do_def split: list.splits answer.splits)

locale socket_listener =
  fixes onRecv :: "'l socketListener"
    and ok :: "'l \<Rightarrow> bool"
    and fails :: "fault \<Rightarrow> bool"
    and N :: nat
  assumes onRecv_keeps:
    "ok l \<Longrightarrow> bs \<noteq> [] \<Longrightarrow> length bs \<le> N \<Longrightarrow>
     onRecv fd (recv_buffer bs) (word_of_nat (length bs)) l = Some y \<Longrightarrow> outcome fails ok y"
begin

definition good :: "('l \<times> os) res \<Rightarrow> bool" where
  "good = outcome (\<lambda>e. fails e \<or> e = Blocked) (\<lambda>(l, w). ok l \<and> recvs_within N w)"

lemma event_keeps:
  assumes "ok l" and "recvs_within N w" and "recv_event onRecv s ev l w = Some y"
  shows "good y"
proof (cases "sys_recv (fst ev) SOCKET_RECV_BUFFER_LEN w")
  case (Inl e)
  with assms sys_recv_fails [OF Inl] show ?thesis
    by (auto simp: recv_event_def good_def Let_def split: prod.splits if_splits)
next
  case (Inr x)
  obtain k bs w1 where x: "x = (k, bs, w1)" by (cases x)
  note got = sys_recv_got [OF Inr [unfolded x] assms(2)]
  have call: "outcome fails ok z" if "0 < k" "onRecv (fst ev) (recv_buffer bs) (word_of_int k) l = Some z" for z
    using onRecv_keeps [OF assms(1), of bs "fst ev" z] got that by simp
  show ?thesis
  proof (cases "onRecv (fst ev) (recv_buffer bs) (word_of_int k) l")
    case None
    with assms Inr x got show ?thesis
      by (auto simp: recv_event_def good_def Let_def split: prod.splits if_splits)
  next
    case (Some z)
    with assms Inr x got call [OF _ Some] show ?thesis
      by (cases z) (auto simp: recv_event_def good_def Let_def split: prod.splits if_splits)
  qed
qed

lemma events_keep:
  "ok l \<Longrightarrow> recvs_within N w \<Longrightarrow> recv_events onRecv s evs l w = Some y \<Longrightarrow> good y"
proof (induction evs arbitrary: l w)
  case (Cons ev evs)
  show ?case
  proof (cases "recv_event onRecv s ev l w")
    case (Some z)
    from event_keeps [OF Cons.prems(1,2) Some] Cons Some show ?thesis
      by (cases z) (auto simp: good_def)
  qed (use Cons.prems in simp)
qed (auto simp: good_def)

text \<open>The receive thread, for any answers of the kernel.\<close>

lemma thread_keeps:
  "ok l \<Longrightarrow> recvs_within N w \<Longrightarrow> threadRecvFun onRecv s l w = Some y \<Longrightarrow> good y"
proof (induction "length (answers w)" arbitrary: l w rule: less_induct)
  case less
  show ?case
  proof (cases "sys_do (Sys_epoll_wait (m_epfd s)) w")
    case (Inl e)
    then have "e = Blocked" by (auto simp: sys_do_def split: list.splits)
    with Inl less.prems(3) show ?thesis by (auto simp: threadRecvFun.simps good_def)
  next
    case (Inr x)
    obtain a w1 where x: "x = (a, w1)" by fastforce
    note a = Inr [unfolded x]
    have w1: "recvs_within N w1" using recvs_within_step [OF less.prems(2) a] by simp
    show ?thesis
    proof (cases "ret_of a < 0")
      case True
      with a less.prems w1 show ?thesis by (auto simp: threadRecvFun.simps good_def)
    next
      case False
      with less.prems(3) a obtain z where z: "recv_events onRecv s (events_of a) l w1 = Some z"
        and y: "(case z of Inl e \<Rightarrow> Some (Inl e) | Inr (l2, w2) \<Rightarrow> threadRecvFun onRecv s l2 w2) = Some y"
        by (subst (asm) threadRecvFun.simps) (auto split: option.splits sum.splits)
      from events_keep [OF less.prems(1) w1 z] have g: "good z" .
      show ?thesis
      proof (cases z)
        case (Inl e)
        with y g show ?thesis by (auto simp: good_def)
      next
        case (Inr p)
        obtain l2 w2 where p: "p = (l2, w2)" by fastforce
        have "length (answers w2) < length (answers w)"
          using recv_events_shorter [of onRecv s "events_of a" l w1 l2 w2] z Inr p sys_do_shorter [OF a] by simp
        moreover have "ok l2" "recvs_within N w2" "threadRecvFun onRecv s l2 w2 = Some y"
          using y g Inr p by (simp_all add: good_def)
        ultimately show ?thesis by (rule less.hyps)
      qed
    qed
  qed
qed

end

end
