(* ===== verification/Reassembly.thy ===== *)
theory Reassembly
  imports TaskController SocketBase
begin

section \<open>The request streams of the clients\<close>

text \<open>
  \<open>feed\<close> is the receive thread as \<open>taskController\<close> sees it: one \<open>onRecv\<close> for every successful
  \<open>recv\<close>, with the 32 kB buffer that was cleared before the call. The first part shows what becomes
  of the streams of all clients when every \<open>recv\<close> ends outside the length fields; the second what
  holds for any bytes at all; the third the calls that never return.
\<close>

fun feed ::
  "(u32 \<Rightarrow> bool) \<Rightarrow> (taskData \<Rightarrow> 'p \<Rightarrow> 'p) \<Rightarrow> (int \<times> byte list) list \<Rightarrow> 'p taskController
   \<Rightarrow> 'p taskController res option" where
  "feed can_alloc add [] s = Some (Inr s)"
| "feed can_alloc add ((c, chunk) # cs) s =
     (case onRecv can_alloc add c (recv_buffer chunk) (word_of_nat (length chunk)) s of
        Some (Inr s') \<Rightarrow> feed can_alloc add cs s'
      | r \<Rightarrow> r)"

lemma feed_append:
  "feed can_alloc add (xs @ ys) s =
   (case feed can_alloc add xs s of Some (Inr s') \<Rightarrow> feed can_alloc add ys s' | r \<Rightarrow> r)"
  by (induction can_alloc add xs s rule: feed.induct) (auto split: option.splits sum.splits)

definition new_controller :: "'p \<Rightarrow> 'p taskController" where
  "new_controller p = \<lparr>m_recvList = (\<lambda>_. None), m_pool = p\<rparr>"

definition stream_of :: "int \<Rightarrow> (int \<times> byte list) list \<Rightarrow> byte list" where
  "stream_of c evs = concat (map snd (filter (\<lambda>e. fst e = c) evs))"

lemma stream_of_simps [simp]:
  "stream_of c [] = []"
  "stream_of c (xs @ ys) = stream_of c xs @ stream_of c ys"
  "stream_of c [(d, chunk)] = (if d = c then chunk else [])"
  by (simp_all add: stream_of_def)

text \<open>What one \<open>recv\<close> returns, and streams in which each \<open>recv\<close> ends outside a length field.\<close>

definition recv_ok :: "int \<times> byte list \<Rightarrow> bool" where
  "recv_ok e \<longleftrightarrow> snd e \<noteq> [] \<and> length (snd e) \<le> SOCKET_RECV_BUFFER_LEN"

definition cut_ok :: "nat \<Rightarrow> byte list \<Rightarrow> bool" where
  "cut_ok M bs \<longleftrightarrow> (case split_frames bs of None \<Rightarrow> False | Some (fs, r) \<Rightarrow> bounded_by M fs r)"

definition streams_ok :: "nat \<Rightarrow> (int \<times> byte list) list \<Rightarrow> bool" where
  "streams_ok M evs \<longleftrightarrow> list_all recv_ok evs \<and>
     (\<forall>n \<in> {..length evs}. \<forall>c \<in> fst ` set evs. cut_ok M (stream_of c (take n evs)))"

definition frames_of :: "byte list \<Rightarrow> byte list list" where
  "frames_of bs = (case split_frames bs of None \<Rightarrow> [] | Some (fs, r) \<Rightarrow> fs)"

definition rest_of :: "byte list \<Rightarrow> byte list" where
  "rest_of bs = (case split_frames bs of None \<Rightarrow> [] | Some (fs, r) \<Rightarrow> r)"

definition sent_by :: "int \<Rightarrow> taskData list \<Rightarrow> (int \<times> cell list \<times> u32) list" where
  "sent_by c ds = filter (\<lambda>v. fst v = c) (map task_view ds)"

lemma streams_okD:
  "streams_ok M (evs @ [e]) \<Longrightarrow> streams_ok M evs \<and> recv_ok e \<and>
     cut_ok M (stream_of (fst e) evs) \<and> cut_ok M (stream_of (fst e) (evs @ [e]))"
  unfolding streams_ok_def
proof (intro conjI)
  assume asm: "list_all recv_ok (evs @ [e]) \<and>
    (\<forall>n\<in>{..length (evs @ [e])}. \<forall>c\<in>fst ` set (evs @ [e]). cut_ok M (stream_of c (take n (evs @ [e]))))"
  then show "list_all recv_ok evs" "recv_ok e" by simp_all
  have all: "cut_ok M (stream_of c (take n (evs @ [e])))"
    if "n \<le> Suc (length evs)" "c \<in> fst ` set (evs @ [e])" for n c
    using asm that by auto
  show "\<forall>n\<in>{..length evs}. \<forall>c\<in>fst ` set evs. cut_ok M (stream_of c (take n evs))"
  proof (intro ballI)
    fix n c
    assume "n \<in> {..length evs}" "c \<in> fst ` set evs"
    then show "cut_ok M (stream_of c (take n evs))" using all [of n c] by auto
  qed
  show "cut_ok M (stream_of (fst e) evs)" using all [of "length evs" "fst e"] by simp
  show "cut_ok M (stream_of (fst e) (evs @ [e]))" using all [of "Suc (length evs)" "fst e"] by simp
qed

lemma msg_view_filter: "filter (\<lambda>v. fst v = b) (map (msg_view c) fs) = (if b = c then map (msg_view c) fs else [])"
  by (simp add: filter_map msg_view_def comp_def)

context controller_sink
begin

text \<open>The state of the controller is a function of the streams.\<close>

definition tracks :: "(int \<times> byte list) list \<Rightarrow> 'p taskController \<Rightarrow> bool" where
  "tracks evs s \<longleftrightarrow> (\<forall>c. sent_by c (queued (m_pool s)) = map (msg_view c) (frames_of (stream_of c evs)) \<and>
     holds s c (rest_of (stream_of c evs)))"

lemma delivered_tracks:
  assumes "tracks evs s" and old: "split_frames (stream_of c evs) = Some (fs, p)"
    and new: "split_frames (stream_of c evs @ chunk) = Some (fs @ gs, r)" and del: "delivered queued c gs r s s'"
  shows "tracks (evs @ [(c, chunk)]) s'"
  unfolding tracks_def
proof
  fix b
  have q: "sent_by b (queued (m_pool s')) =
      sent_by b (queued (m_pool s)) @ (if b = c then map (msg_view c) gs else [])"
    using del by (simp add: delivered_def sent_by_def msg_view_filter)
  show "sent_by b (queued (m_pool s')) = map (msg_view b) (frames_of (stream_of b (evs @ [(c, chunk)]))) \<and>
      holds s' b (rest_of (stream_of b (evs @ [(c, chunk)])))"
  proof (cases "b = c")
    case True
    then show ?thesis
      using q del assms(1) old new by (simp add: tracks_def frames_of_def rest_of_def delivered_def)
  next
    case False
    then show ?thesis
      using q del assms(1) by (simp add: tracks_def delivered_def holds_def)
  qed
qed

lemma tracks_chunk:
  assumes "tracks evs s" and "recv_ok (c, chunk)" and "cut_ok M (stream_of c evs)"
    and "cut_ok M (stream_of c evs @ chunk)" and "grants can_alloc M" and "M + 2 ^ 15 < 2 ^ 32"
  shows "\<exists>s'. onRecv can_alloc add c (recv_buffer chunk) (word_of_nat (length chunk)) s = Some (Inr s') \<and>
    tracks (evs @ [(c, chunk)]) s'"
proof -
  obtain fs p where old: "split_frames (stream_of c evs) = Some (fs, p)" "bounded_by M fs p"
    using assms(3) by (auto simp: cut_ok_def split: option.splits)
  obtain gs r where new: "split_frames (p @ chunk) = Some (gs, r)"
      "split_frames (stream_of c evs @ chunk) = Some (fs @ gs, r)" "bounded_by M (fs @ gs) r"
    using assms(4) split_frames_append [OF old(1), of chunk]
    by (auto simp: cut_ok_def split: option.splits)
  have hold: "holds s c p" 
  proof -
    have "holds s c (rest_of (stream_of c evs))" using assms(1) by (simp add: tracks_def)
    with old(1) show ?thesis by (simp add: rest_of_def)
  qed
  have len: "length chunk \<le> 2 ^ 15" "chunk \<noteq> []"
    using assms(2) by (simp_all add: recv_ok_def SOCKET_RECV_BUFFER_LEN_def)
  have "length p \<le> M"
    using hold old(2) by (cases "m_recvList s c") (auto simp: holds_def pending_entry_def bounded_by_def)
  then have small: "length p + length chunk < 2 ^ 32" using len(1) assms(6) by simp
  have u: "unat (word_of_nat (length chunk) :: u32) = length chunk"
    using len(1) by (intro unat32_of_nat) simp
  have bnd: "bounded_by M gs r" using new(3) by (simp add: bounded_by_def)
  obtain s' where s': "makeNewTask can_alloc add c (recv_buffer chunk) (word_of_nat (length chunk)) s =
      Some (Inr s')" and del: "delivered queued c gs r s s'"
    using cut_chunk [OF hold new(1) len(2) u assms(5) bnd small] by (auto simp: recv_buffer_def)
  with s' delivered_tracks [OF assms(1) old(1) new(2) del] show ?thesis by (auto simp: onRecv_def)
qed

lemma feed_tracks:
  assumes "grants can_alloc M" and "M + 2 ^ 15 < 2 ^ 32" and "queued p = []"
  shows "streams_ok M evs \<Longrightarrow>
    \<exists>s'. feed can_alloc add evs (new_controller p) = Some (Inr s') \<and> tracks evs s'"
proof (induction evs rule: rev_induct)
  case Nil
  show ?case
    using assms(3)
    by (simp add: tracks_def new_controller_def sent_by_def frames_of_def rest_of_def holds_def)
next
  case (snoc e evs)
  obtain c chunk where e: "e = (c, chunk)" by fastforce
  from streams_okD [OF snoc.prems] have ok: "streams_ok M evs" "recv_ok (c, chunk)"
      "cut_ok M (stream_of c evs)" "cut_ok M (stream_of c evs @ chunk)" by (simp_all add: e)
  from snoc.IH [OF ok(1)] obtain s where s: "feed can_alloc add evs (new_controller p) = Some (Inr s)"
      "tracks evs s" by blast
  from tracks_chunk [OF s(2) ok(2-4) assms(1,2)] obtain s' where
    "onRecv can_alloc add c (recv_buffer chunk) (word_of_nat (length chunk)) s = Some (Inr s')"
    "tracks (evs @ [(c, chunk)]) s'" by blast
  with s(1) show ?case by (simp add: feed_append e)
qed

end


subsection \<open>Any bytes: which faults are possible and what a task contains\<close>

definition full :: "cell list \<Rightarrow> bool" where
  "full cs \<longleftrightarrow> list_all (\<lambda>x. x \<noteq> None) cs"

definition task_ok :: "taskData \<Rightarrow> bool" where
  "task_ok d \<longleftrightarrow> length (m_databuf d) = unat (m_len d) \<and> full (m_databuf d)"

definition pending_ok :: "nat \<Rightarrow> taskData \<Rightarrow> bool" where
  "pending_ok M d \<longleftrightarrow> length (m_databuf d) = unat (m_len d) \<and> full (take (unat (m_curLen d)) (m_databuf d)) \<and>
     unat (m_curLen d) < unat (m_len d) \<and> unat (m_len d) \<le> M"

definition controller_ok :: "nat \<Rightarrow> ('p \<Rightarrow> taskData list) \<Rightarrow> 'p taskController \<Rightarrow> bool" where
  "controller_ok M queued s \<longleftrightarrow>
     (\<forall>c d. m_recvList s c = Some d \<longrightarrow> pending_ok M d) \<and> list_all task_ok (queued (m_pool s))"

definition refuses :: "(u32 \<Rightarrow> bool) \<Rightarrow> nat \<Rightarrow> bool" where
  "refuses can_alloc M \<longleftrightarrow> (\<forall>n. can_alloc n \<longrightarrow> unat n \<le> M)"

text \<open>
  The faults that remain: memory is refused, or, where the buffer is less than three bytes longer than the data
  in it, a length field is read past its end. \<open>gap\<close> is the number of these bytes.
\<close>

definition only_faults :: "nat \<Rightarrow> ('s \<Rightarrow> bool) \<Rightarrow> 's res \<Rightarrow> bool" where
  "only_faults gap ok y \<longleftrightarrow> (case y of Inl e \<Rightarrow> e = Bad_Alloc \<or> gap < 3 \<and> e = OOB_Read | Inr s \<Rightarrow> ok s)"

abbreviation only_bad_alloc :: "('s \<Rightarrow> bool) \<Rightarrow> 's res \<Rightarrow> bool" where
  "only_bad_alloc \<equiv> only_faults 3"

lemma only_faults_simps [simp]:
  "only_faults gap ok (Inl e) \<longleftrightarrow> e = Bad_Alloc \<or> gap < 3 \<and> e = OOB_Read" "only_faults gap ok (Inr s) \<longleftrightarrow> ok s"
  by (simp_all add: only_faults_def)

lemma full_simps [simp]: "full []" "full (xs @ ys) \<longleftrightarrow> full xs \<and> full ys" "full (map Some bs)"
  by (simp_all add: full_def) (simp add: list_all_iff)

lemma memcpy_in_ok:
  assumes "off + n \<le> length dst" and "n \<le> length src"
  shows "memcpy_in dst off src n = Inr (take off dst @ map Some (take n src) @ drop (off + n) dst)"
  using assms by (simp add: memcpy_in_def read_at_def write_at_def)

lemma load32_bytes:
  "4 \<le> length bs \<Longrightarrow> load32 (map Some bs) 0 = Inr (of_le32 (take 4 bs))"
  using load_total [of bs "[]"] by simp

lemma controller_ok_add:
  "controller_ok M queued s \<Longrightarrow> task_ok d \<Longrightarrow> queued (add d (m_pool s)) = queued (m_pool s) @ [d] \<Longrightarrow>
   controller_ok M queued (s\<lparr>m_pool := add d (m_pool s)\<rparr>)"
  by (simp add: controller_ok_def)

lemma controller_ok_pend:
  "controller_ok M queued s \<Longrightarrow> pending_ok M d \<Longrightarrow>
   controller_ok M queued (s\<lparr>m_recvList := (m_recvList s)(c := Some d)\<rparr>)"
  by (simp add: controller_ok_def)

lemma controller_ok_drop:
  "controller_ok M queued s \<Longrightarrow> controller_ok M queued (s\<lparr>m_recvList := (m_recvList s)(c := None)\<rparr>)"
  by (simp add: controller_ok_def)

definition call_ok :: "nat \<Rightarrow> byte list \<Rightarrow> u32 \<Rightarrow> bool" where
  "call_ok gap buf len \<longleftrightarrow> 0 < unat len \<and> unat len + gap \<le> length buf \<and> unat len \<le> 2 ^ 15"

lemma call_ok_drop:
  "call_ok gap buf len \<Longrightarrow> unat k < unat len \<Longrightarrow> call_ok gap (drop (unat k) buf) (len - k)"
  using unat32_sub [of k len] by (auto simp: call_ok_def)

text \<open>
  The body of \<open>makeNewTask\<close> with the recursive call as a parameter, and how a call ends: refused memory,
  a state that is still consistent, or another call that is again admissible, in such a state.
\<close>

definition one_call ::
  "((u32 \<Rightarrow> bool) \<Rightarrow> (taskData \<Rightarrow> 'p \<Rightarrow> 'p) \<Rightarrow> int \<Rightarrow> byte list \<Rightarrow> u32 \<Rightarrow> 'p taskController \<Rightarrow> 'p taskController res option)
   \<Rightarrow> (u32 \<Rightarrow> bool) \<Rightarrow> (taskData \<Rightarrow> 'p \<Rightarrow> 'p) \<Rightarrow> int \<Rightarrow> byte list \<Rightarrow> u32 \<Rightarrow> 'p taskController
   \<Rightarrow> 'p taskController res option" where
  "one_call f can_alloc add clientID buf len s =
     (case m_recvList s clientID of
        None \<Rightarrow>
          (case load32 (map Some buf) 0 of
             Inl e \<Rightarrow> Some (Inl e)
           | Inr totalLen \<Rightarrow>
               if \<not> can_alloc totalLen then Some (Inl Bad_Alloc)
               else if totalLen \<le> len then
                 (case memcpy_in (new_char totalLen) 0 buf (unat totalLen) of
                    Inl e \<Rightarrow> Some (Inl e)
                  | Inr revBuf \<Rightarrow>
                      let s' = s\<lparr>m_pool := add (new_taskData clientID revBuf totalLen) (m_pool s)\<rparr>
                      in if totalLen < len
                         then f can_alloc add clientID (drop (unat totalLen) buf)
                                (len - totalLen) s'
                         else Some (Inr s'))
               else
                 (case memcpy_in (new_char totalLen) 0 buf (unat len) of
                    Inl e \<Rightarrow> Some (Inl e)
                  | Inr revBuf \<Rightarrow>
                      let data = (new_taskData clientID revBuf totalLen)\<lparr>m_curLen := 0 + len\<rparr>
                      in Some (Inr (s\<lparr>m_recvList := (m_recvList s)(clientID := Some data)\<rparr>))))
      | Some data \<Rightarrow>
          if len + m_curLen data < m_len data then
            (case memcpy_in (m_databuf data) (unat (m_curLen data)) buf (unat len) of
               Inl e \<Rightarrow> Some (Inl e)
             | Inr databuf \<Rightarrow>
                 let data' = data\<lparr>m_databuf := databuf, m_curLen := m_curLen data + len\<rparr>
                 in Some (Inr (s\<lparr>m_recvList := (m_recvList s)(clientID := Some data')\<rparr>)))
          else
            (case memcpy_in (m_databuf data) (unat (m_curLen data)) buf
                    (unat (m_len data - m_curLen data)) of
               Inl e \<Rightarrow> Some (Inl e)
             | Inr databuf \<Rightarrow>
                 let data' = data\<lparr>m_databuf := databuf\<rparr>;
                     s' = s\<lparr>m_pool := add data' (m_pool s),
                            m_recvList := (m_recvList s)(clientID := None)\<rparr>
                 in if m_len data < len + m_curLen data
                    then f can_alloc add clientID
                           (drop (unat (m_len data) - unat (m_curLen data)) buf)
                           (len - (m_len data - m_curLen data)) s'
                    else Some (Inr s')))"

definition safe_end ::
  "nat \<Rightarrow> (byte list \<Rightarrow> u32 \<Rightarrow> 'p taskController \<Rightarrow> 'p taskController res option) \<Rightarrow> ('p taskController \<Rightarrow> bool)
   \<Rightarrow> 'p taskController res \<Rightarrow> bool" where
  "safe_end gap rec ok y \<longleftrightarrow> only_faults gap ok y \<or>
     (\<exists>buf len s. rec buf len s = Some y \<and> call_ok gap buf len \<and> ok s)"

lemma safe_then:
  assumes "(if again then rec (drop (unat k) buf) (len - k) s1 else Some (Inr s1)) = Some y"
    and "ok s1" and "call_ok gap buf len" and "again \<Longrightarrow> unat k < unat len"
  shows "safe_end gap rec ok y"
  using assms call_ok_drop [of gap buf len k] by (cases again) (auto simp: safe_end_def)

lemma safe_fresh_whole:
  fixes buf defines "N \<equiv> of_le32 (take 4 buf)"
  assumes None: "m_recvList s c = None" and body: "one_call f can_alloc add c buf len s = Some y"
    and law: "\<And>t p. queued (add t p) = queued p @ [t]"
    and ok: "controller_ok M queued s" and call: "call_ok gap buf len" and four: "4 \<le> length buf" and N: "can_alloc N" "N \<le> len"
  shows "safe_end gap (f can_alloc add c) (controller_ok M queued) y"
proof -
  have buf: "4 \<le> length buf" "unat N \<le> length buf"
    using call four N(2) by (simp_all add: call_ok_def word_le_nat_alt)
  have cp: "memcpy_in (new_char N) 0 buf (unat N) = Inr (map Some (take (unat N) buf))"
    using buf(2) by (simp add: memcpy_in_ok new_char_def)
  let ?d = "new_taskData c (map Some (take (unat N) buf)) N"
  have "task_ok ?d" using buf(2) by (simp add: task_ok_def new_taskData_def)
  then have ok': "controller_ok M queued (s\<lparr>m_pool := add ?d (m_pool s)\<rparr>)"
    using ok law by (intro controller_ok_add)
  show ?thesis
  proof (rule safe_then)
    show "(if N < len then f can_alloc add c (drop (unat N) buf) (len - N) (s\<lparr>m_pool := add ?d (m_pool s)\<rparr>)
        else Some (Inr (s\<lparr>m_pool := add ?d (m_pool s)\<rparr>))) = Some y"
      using body None buf(1) N cp by (auto simp: one_call_def load32_bytes Let_def N_def split: if_splits)
  qed (use ok' call in \<open>simp_all add: word_less_nat_alt\<close>)
qed

lemma safe_fresh_part:
  fixes buf defines "N \<equiv> of_le32 (take 4 buf)"
  assumes None: "m_recvList s c = None" and body: "one_call f can_alloc add c buf len s = Some y"
    and ok: "controller_ok M queued s" and call: "call_ok gap buf len" and four: "4 \<le> length buf"
    and N: "can_alloc N" "unat N \<le> M" "\<not> N \<le> len"
  shows "safe_end gap (f can_alloc add c) (controller_ok M queued) y"
proof -
  have buf: "4 \<le> length buf" "unat len \<le> length buf" using call four by (simp_all add: call_ok_def)
  have lt: "unat len < unat N" using N(3) by (simp add: word_le_nat_alt)
  let ?b = "map Some (take (unat len) buf) @ drop (unat len) (new_char N)"
  have cp: "memcpy_in (new_char N) 0 buf (unat len) = Inr ?b"
    using lt buf(2) by (simp add: memcpy_in_ok)
  have "pending_ok M ((new_taskData c ?b N)\<lparr>m_curLen := 0 + len\<rparr>)"
    using lt N(2) buf(2) by (simp add: pending_ok_def new_taskData_def)
  from controller_ok_pend [OF ok this, of c] show ?thesis
    using body None buf(1) N cp by (auto simp: one_call_def load32_bytes Let_def safe_end_def N_def)
qed

lemma safe_fresh:
  assumes "m_recvList s c = None" and "one_call f can_alloc add c buf len s = Some y"
    and "\<And>t p. queued (add t p) = queued p @ [t]" and "refuses can_alloc M"
    and "controller_ok M queued s" and "call_ok gap buf len"
  shows "safe_end gap (f can_alloc add c) (controller_ok M queued) y"
proof (cases "length buf < 4")
  case True
  moreover from True have "gap < 3" using assms(6) by (simp add: call_ok_def)
  ultimately show ?thesis
    using assms(1,2) by (auto simp: one_call_def load32_oob safe_end_def)
next
  case four: False
  show ?thesis
  proof (cases "can_alloc (of_le32 (take 4 buf))")
    case False
    with assms(1,2) four show ?thesis by (auto simp: one_call_def load32_bytes safe_end_def)
  next
    case True
    then have "unat (of_le32 (take 4 buf)) \<le> M" using assms(4) by (simp add: refuses_def)
    with True four show ?thesis
      using safe_fresh_whole [OF assms(1-3,5,6)] safe_fresh_part [OF assms(1,2,5,6)] by force
  qed
qed

text \<open>The same for bytes that go to a pending message: they do not complete it, or they do.\<close>

lemma safe_pending_part:
  assumes Some: "m_recvList s c = Some d" and body: "one_call f can_alloc add c buf len s = Some y"
    and ok: "controller_ok M queued s" and call: "call_ok gap buf len"
    and sum: "unat (len + m_curLen d) = unat len + unat (m_curLen d)" and less: "len + m_curLen d < m_len d"
  shows "safe_end gap (f can_alloc add c) (controller_ok M queued) y"
proof -
  let ?off = "unat (m_curLen d)"
  have buf: "unat len \<le> length buf" using call by (simp add: call_ok_def)
  have d: "pending_ok M d" using ok Some by (simp add: controller_ok_def)
  have lt: "unat len + ?off < unat (m_len d)" using sum less by (simp add: word_less_nat_alt)
  let ?b = "take ?off (m_databuf d) @ map Some (take (unat len) buf) @ drop (?off + unat len) (m_databuf d)"
  have cp: "memcpy_in (m_databuf d) ?off buf (unat len) = Inr ?b"
    using d lt buf by (intro memcpy_in_ok) (simp_all add: pending_ok_def)
  have "pending_ok M (d\<lparr>m_databuf := ?b, m_curLen := m_curLen d + len\<rparr>)"
    using d lt sum buf by (simp add: pending_ok_def add.commute)
  from controller_ok_pend [OF ok this, of c] show ?thesis
    using body Some less cp by (auto simp: one_call_def Let_def safe_end_def)
qed

lemma safe_pending_whole:
  assumes Some: "m_recvList s c = Some d" and body: "one_call f can_alloc add c buf len s = Some y"
    and law: "\<And>t p. queued (add t p) = queued p @ [t]"
    and ok: "controller_ok M queued s" and call: "call_ok gap buf len"
    and sum: "unat (len + m_curLen d) = unat len + unat (m_curLen d)"
    and le: "\<not> len + m_curLen d < m_len d"
  shows "safe_end gap (f can_alloc add c) (controller_ok M queued) y"
proof -
  let ?off = "unat (m_curLen d)" and ?k = "m_len d - m_curLen d"
  have buf: "unat len \<le> length buf" using call by (simp add: call_ok_def)
  have d: "pending_ok M d" using ok Some by (simp add: controller_ok_def)
  have k: "unat ?k = unat (m_len d) - ?off" using d by (simp add: pending_ok_def unat32_sub)
  have ge: "unat (m_len d) \<le> unat len + ?off" using sum le by (simp add: word_less_nat_alt)
  define b where "b = take ?off (m_databuf d) @ map Some (take (unat ?k) buf) @ drop (?off + unat ?k) (m_databuf d)"
  have cp: "memcpy_in (m_databuf d) ?off buf (unat ?k) = Inr b"
    using d ge buf k unfolding b_def by (intro memcpy_in_ok) (simp_all add: pending_ok_def)
  let ?s = "s\<lparr>m_pool := add (d\<lparr>m_databuf := b\<rparr>) (m_pool s), m_recvList := (m_recvList s)(c := None)\<rparr>"
  have "task_ok (d\<lparr>m_databuf := b\<rparr>)" using d k ge buf by (simp add: task_ok_def pending_ok_def b_def)
  then have "controller_ok M queued (s\<lparr>m_pool := add (d\<lparr>m_databuf := b\<rparr>) (m_pool s)\<rparr>)"
    using ok law by (intro controller_ok_add)
  from controller_ok_drop [OF this, of c] have ok': "controller_ok M queued ?s" by simp
  show ?thesis
  proof (rule safe_then)
    show "(if m_len d < len + m_curLen d then f can_alloc add c (drop (unat ?k) buf) (len - ?k) ?s
        else Some (Inr ?s)) = Some y"
      using body Some le cp by (auto simp: one_call_def Let_def simp flip: k split: if_splits)
  qed (use ok' call sum k d in \<open>auto simp: word_less_nat_alt pending_ok_def\<close>)
qed

lemma safe_pending:
  assumes "m_recvList s c = Some d" and "one_call f can_alloc add c buf len s = Some y"
    and "\<And>t p. queued (add t p) = queued p @ [t]" and "M + 2 ^ 15 < 2 ^ 32"
    and "controller_ok M queued s" and "call_ok gap buf len"
  shows "safe_end gap (f can_alloc add c) (controller_ok M queued) y"
proof -
  have "pending_ok M d" using assms(1,5) by (simp add: controller_ok_def)
  then have "unat (len + m_curLen d) = unat len + unat (m_curLen d)"
    using assms(4,6) by (intro unat32_add) (simp add: pending_ok_def call_ok_def)
  then show ?thesis
    using safe_pending_part [OF assms(1,2,5,6)] safe_pending_whole [OF assms(1-3,5,6)] by blast
qed

lemmas makeNewTask_induct = makeNewTask.raw_induct [rotated, consumes 1, case_names call]
lemmas one_call_induct = makeNewTask.raw_induct [folded one_call_def, rotated, consumes 1, case_names call]

lemma makeNewTask_safe:
  assumes "makeNewTask can_alloc add c buf len s = Some y"
    and "\<And>t p. queued (add t p) = queued p @ [t]"
    and "refuses can_alloc M" and "M + 2 ^ 15 < 2 ^ 32"
    and "controller_ok M queued s" and "call_ok gap buf len"
  shows "only_faults gap (controller_ok M queued) y"
  using assms
proof (induction can_alloc add c buf len s y rule: one_call_induct)
  case (call f can_alloc add c buf len s y)
  have "safe_end gap (f can_alloc add c) (controller_ok M queued) y"
    using safe_fresh [OF _ call.hyps call.prems(1,2,4,5)] safe_pending [OF _ call.hyps call.prems(1,3,4,5)]
    by (cases "m_recvList s c") auto
  then show ?case using call.IH [OF _ call.prems(1-3)] by (auto simp: safe_end_def)
qed

lemma feed_safe:
  assumes "\<And>t p. queued (add t p) = queued p @ [t]" and "refuses can_alloc M" and "M + 2 ^ 15 < 2 ^ 32"
  shows "list_all (\<lambda>e. snd e \<noteq> [] \<and> length (snd e) + gap \<le> SOCKET_RECV_BUFFER_LEN) evs \<Longrightarrow>
    controller_ok M queued s \<Longrightarrow> feed can_alloc add evs s = Some y \<Longrightarrow>
    only_faults gap (controller_ok M queued) y"
proof (induction evs arbitrary: s)
  case (Cons e evs)
  obtain c chunk where e: "e = (c, chunk)" by fastforce
  let ?len = "word_of_nat (length chunk) :: u32"
  have "unat ?len = length chunk"
    using Cons.prems(1) by (intro unat32_of_nat) (simp add: e SOCKET_RECV_BUFFER_LEN_def)
  then have "call_ok gap (recv_buffer chunk) ?len"
    using Cons.prems(1) by (simp add: e call_ok_def recv_buffer_def SOCKET_RECV_BUFFER_LEN_def)
  note one = makeNewTask_safe [OF _ assms Cons.prems(2) this, where c = c]
  show ?case
  proof (cases "makeNewTask can_alloc add c (recv_buffer chunk) ?len s")
    case None
    with Cons.prems(3) show ?thesis by (simp add: e onRecv_def)
  next
    case (Some r)
    from one [OF this] Some Cons show ?thesis by (cases r) (auto simp: e onRecv_def)
  qed
qed auto


subsection \<open>The pool under the controller\<close>

text \<open>All the controller does to the pool is to add tasks.\<close>

lemma makeNewTask_pool:
  assumes "makeNewTask can_alloc add c buf len s = Some y" and "y = Inr s'"
  shows "\<exists>ds. m_pool s' = fold add ds (m_pool s)"
  using assms
proof (induction can_alloc add c buf len s y rule: makeNewTask_induct)
  case (call f can_alloc add c buf len s y)
  have stay: "\<exists>ds. m_pool s = fold add ds (m_pool s)" by (rule exI [of _ "[]"]) simp
  have one: "\<exists>ds. add d (m_pool s) = fold add ds (m_pool s)" for d by (rule exI [of _ "[d]"]) simp
  have more: "\<exists>ds. m_pool s' = fold add ds (m_pool s)"
    if "f can_alloc add c b n t = Some (Inr s')" "m_pool t = add d (m_pool s)" for d t b n
  proof -
    note new = that(2) and old = call.IH [OF that(1) refl]
    from old obtain ds where "m_pool s' = fold add ds (m_pool t)" by blast
    with new show ?thesis by (intro exI [of _ "d # ds"]) simp
  qed
  from call.hyps call.prems stay one show ?case
    by (auto simp: Let_def split: option.splits sum.splits if_splits dest: more)
qed

lemma feed_pool:
  "feed can_alloc add evs s = Some (Inr s') \<Longrightarrow> \<exists>ds. m_pool s' = fold add ds (m_pool s)"
proof (induction evs arbitrary: s)
  case Nil
  then show ?case by (intro exI [of _ "[]"]) simp
next
  case (Cons e evs)
  obtain c chunk where e: "e = (c, chunk)" by fastforce
  from Cons.prems obtain s1 where one: "onRecv can_alloc add c (recv_buffer chunk) (word_of_nat (length chunk)) s = Some (Inr s1)"
    and rest: "feed can_alloc add evs s1 = Some (Inr s')"
    by (auto simp: e split: option.splits sum.splits)
  obtain ds where "m_pool s1 = fold add ds (m_pool s)"
    using makeNewTask_pool [OF one [unfolded onRecv_def] refl] by blast
  moreover obtain es where "m_pool s' = fold add es (m_pool s1)" using Cons.IH [OF rest] by blast
  ultimately show ?case by (intro exI [of _ "ds @ es"]) simp
qed


subsection \<open>Calls that never return\<close>

lemma makeNewTask_zero:
  assumes "makeNewTask can_alloc add c buf len s = Some y"
    and "m_recvList s c = None" and "4 \<le> length buf" and "of_le32 (take 4 buf) = 0"
    and "can_alloc 0" and "0 < len"
  shows False
  using assms
proof (induction can_alloc add c buf len s y rule: makeNewTask_induct)
  case (call f can_alloc add c buf len s y)
  let ?s = "s\<lparr>m_pool := add (new_taskData c (map Some (take 0 buf)) 0) (m_pool s)\<rparr>"
  have "memcpy_in (new_char 0) 0 buf 0 = Inr (map Some (take 0 buf))"
    by (simp add: memcpy_in_ok new_char_def)
  with call.prems call.hyps have "f can_alloc add c buf len ?s = Some y"
    by (simp add: load32_bytes Let_def)
  from call.IH [OF this] call.prems show False by simp
qed

lemma of_le32_replicate: "of_le32 (replicate n 0) = 0"
  by (induction n) (simp_all add: of_le32_def)

lemma zero_header:
  assumes "list_all (\<lambda>b. b = 0) (take 4 chunk)"
  shows "of_le32 (take 4 (recv_buffer chunk)) = 0"
proof -
  have "take 4 (recv_buffer chunk) = replicate (length (take 4 (recv_buffer chunk))) 0"
    using assms by (intro replicate_eqI) (auto simp: recv_buffer_def list_all_iff)
  then show ?thesis
    by (metis of_le32_replicate)
qed


subsection \<open>A length field cut short\<close>

lemma short_header:
  "p \<noteq> [] \<Longrightarrow> length p < 4 \<Longrightarrow> take 4 (recv_buffer p) = p @ replicate (4 - length p) 0"
  by (simp add: recv_buffer_def SOCKET_RECV_BUFFER_LEN_def)

lemma word_of_short: "length p < 4 \<Longrightarrow> unat (word_of_nat (length p) :: u32) = length p"
  by (intro unat32_of_nat) simp


subsection \<open>The controller as the listener of the socket\<close>

text \<open>\<open>onRecv\<close> of the controller on the real pool keeps \<open>controller_ok\<close>, and fails only for want of memory
  for everything up to three bytes short of the buffer.\<close>

definition listener_ok :: "nat \<Rightarrow> taskData sys taskController \<Rightarrow> bool" where
  "listener_ok M = controller_ok M queued_data"

lemma listener_keeps:
  assumes "refuses can_alloc M" and "M + 2 ^ 15 < 2 ^ 32" and "listener_ok M l" and "bs \<noteq> []"
    and "length bs + gap \<le> SOCKET_RECV_BUFFER_LEN"
    and "onRecv can_alloc (server_add this) fd (recv_buffer bs) (word_of_nat (length bs)) l = Some y"
  shows "outcome (\<lambda>e. e = Bad_Alloc \<or> gap < 3 \<and> e = OOB_Read) (listener_ok M) y"
proof -
  have one: "list_all (\<lambda>e. snd e \<noteq> [] \<and> length (snd e) + gap \<le> SOCKET_RECV_BUFFER_LEN) [(fd, bs)]"
    using assms(4,5) by simp
  have "feed can_alloc (server_add this) [(fd, bs)] l = Some y"
    using assms(6) by (cases y) simp_all
  from feed_safe [OF server_add_queued assms(1,2) one _ this] assms(3)
  have "only_faults gap (controller_ok M queued_data) y" by (simp add: listener_ok_def)
  then show ?thesis by (cases y) (simp_all add: listener_ok_def)
qed

text \<open>
  A length the memory of a process does not hold: 3 GB here. An allocator that refuses more is one that has
  been \<open>capped\<close>.
\<close>

definition memory_limit :: nat where
  "memory_limit = 3 * 2 ^ 30"

definition small_alloc :: "u32 \<Rightarrow> bool" where
  "small_alloc n \<longleftrightarrow> unat n \<le> memory_limit"

definition capped :: "(u32 \<Rightarrow> bool) \<Rightarrow> u32 \<Rightarrow> bool" where
  "capped can_alloc n \<longleftrightarrow> can_alloc n \<and> unat n \<le> memory_limit"

lemma small_alloc_facts: "refuses small_alloc memory_limit" "grants small_alloc memory_limit"
    "memory_limit + 2 ^ 15 < 2 ^ 32"
  by (simp_all add: refuses_def grants_def small_alloc_def memory_limit_def)

lemma capped_refuses: "refuses (capped can_alloc) memory_limit"
  by (simp add: refuses_def capped_def)

lemma refuses_capped: "refuses can_alloc memory_limit \<Longrightarrow> capped can_alloc = can_alloc"
  by (auto simp: refuses_def capped_def fun_eq_iff)

interpretation controller_listener: socket_listener
  "onRecv (capped can_alloc) (server_add this)" "listener_ok memory_limit"
  "\<lambda>e. e = Bad_Alloc \<or> gap < 3 \<and> e = OOB_Read" "SOCKET_RECV_BUFFER_LEN - gap" for can_alloc this gap
proof
  fix l fd y and bs :: "byte list"
  assume l: "listener_ok memory_limit l" and bs: "bs \<noteq> []" "length bs \<le> SOCKET_RECV_BUFFER_LEN - gap"
    and y: "onRecv (capped can_alloc) (server_add this) fd (recv_buffer bs) (word_of_nat (length bs)) l = Some y"
  have "0 < length bs" using bs(1) by simp
  with bs(2) have "length bs + gap \<le> SOCKET_RECV_BUFFER_LEN" by arith
  from listener_keeps [OF capped_refuses small_alloc_facts(3) l bs(1) this y]
  show "outcome (\<lambda>e. e = Bad_Alloc \<or> gap < 3 \<and> e = OOB_Read) (listener_ok memory_limit) y" .
qed


subsection \<open>Properties\<close>

text \<open>C7: However the requests of all clients arrive (interleaved, in pieces, several in one \<open>recv\<close>), as
  long as every \<open>recv\<close> ends outside a length field, every call returns, the tasks queued for a client are
  exactly the complete messages of its stream, in order and with all their bytes, and \<open>m_recvList\<close>
  holds exactly the bytes of its incomplete message.\<close>

theorem streams_reassembled:
  assumes "grants can_alloc M" and "M + 2 ^ 15 < 2 ^ 32" and "queued_data p = []" and "streams_ok M evs"
  shows "\<exists>s'. feed can_alloc (server_add this) evs (new_controller p) = Some (Inr s') \<and>
    (\<forall>c. sent_by c (queued_data (m_pool s')) = map (msg_view c) (frames_of (stream_of c evs)) \<and>
         holds s' c (rest_of (stream_of c evs)))"
  using server_sink.feed_tracks [OF assms, of this] by (simp only: server_sink.tracks_def)

definition two_clients :: "(int \<times> byte list) list" where
  "two_clients = [(5, [6, 0, 0, 0, 1]), (7, [4, 0, 0, 0, 5, 0, 0, 0, 9, 8, 0, 0, 0]), (5, [2, 9, 0, 0, 0, 3])]"

lemma two_clients_ok: "streams_ok 9 two_clients"
  unfolding streams_ok_def
proof
  show "list_all recv_ok two_clients"
    by (simp add: two_clients_def recv_ok_def SOCKET_RECV_BUFFER_LEN_def)
  show "\<forall>n\<in>{..length two_clients}. \<forall>c\<in>fst ` set two_clients. cut_ok 9 (stream_of c (take n two_clients))"
    by (simp add: two_clients_def numeral_eq_Suc atMost_Suc)
      (simp add: stream_of_def cut_ok_def split_frames.simps frame_len_def of_le32_def bounded_by_def)
qed

lemma two_clients_frames:
  "frames_of (stream_of 5 two_clients) = [[6, 0, 0, 0, 1, 2]]"
  "frames_of (stream_of 7 two_clients) = [[4, 0, 0, 0], [5, 0, 0, 0, 9]]"
  by code_simp+

theorem streams_reassembled_witness:
  "\<exists>s'. feed (\<lambda>n. True) (server_add 0) two_clients (new_controller (boot 8 2)) = Some (Inr s') \<and>
    sent_by 5 (queued_data (m_pool s')) = [msg_view 5 [6, 0, 0, 0, 1, 2]] \<and>
    sent_by 7 (queued_data (m_pool s')) = [msg_view 7 [4, 0, 0, 0], msg_view 7 [5, 0, 0, 0, 9]]"
proof -
  have q: "queued_data (boot 8 2) = []"
    by (simp add: queued_data_def boot_def init_fields_def new_pool_def)
  note two_clients_ok
  moreover have "grants (\<lambda>n. True) 9" by (simp add: grants_def)
  moreover have "9 + 2 ^ 15 < (2 ^ 32 :: nat)" by simp
  ultimately obtain s' where "feed (\<lambda>n. True) (server_add 0) two_clients (new_controller (boot 8 2)) = Some (Inr s')"
    and "\<forall>c. sent_by c (queued_data (m_pool s')) = map (msg_view c) (frames_of (stream_of c two_clients))"
    using streams_reassembled [OF _ _ q, of "\<lambda>n. True" 9 two_clients 0] by blast
  with two_clients_frames show ?thesis by (intro exI [of _ s']) simp
qed

text \<open>C8: For any bytes from any clients, received in pieces of up to the 32768 bytes that are asked for, and if
  no allocation above 3 GB succeeds, the receive thread has no fault but a refused allocation and, only if
  some \<open>recv\<close> returns more than 32765 bytes, a read past the end of its buffer: nothing is ever written
  outside a buffer, and every task that reaches the pool has a buffer of exactly \<open>m_len\<close> initialised bytes.\<close>

theorem receive_thread_safe:
  assumes "controller_ok memory_limit queued_data l" and "recvs_within SOCKET_RECV_BUFFER_LEN w"
    and "refuses can_alloc memory_limit"
    and "threadRecvFun (onRecv can_alloc (server_add this)) s l w = Some y"
  shows "case y of
      Inl e \<Rightarrow> e = Bad_Alloc \<or> e = Blocked \<or> e = OOB_Read \<and> \<not> recvs_within 32765 w
    | Inr (l', w') \<Rightarrow> controller_ok memory_limit queued_data l'"
proof -
  have l: "listener_ok memory_limit l" using assms(1) by (simp add: listener_ok_def)
  have run: "threadRecvFun (onRecv (capped can_alloc) (server_add this)) s l w = Some y"
    using assms(4) by (simp only: refuses_capped [OF assms(3)])
  have out: "outcome (\<lambda>e. (e = Bad_Alloc \<or> gap < 3 \<and> e = OOB_Read) \<or> e = Blocked)
      (\<lambda>(l, w). listener_ok memory_limit l \<and> recvs_within (SOCKET_RECV_BUFFER_LEN - gap) w) y"
    if "recvs_within (SOCKET_RECV_BUFFER_LEN - gap) w" for gap
    using controller_listener.thread_keeps [OF l that run] by (simp only: controller_listener.good_def)
  from out [of 0] out [of 3] assms(2) show ?thesis
    by (cases y) (auto simp: listener_ok_def SOCKET_RECV_BUFFER_LEN_def)
qed

definition server_socket :: "int \<Rightarrow> int \<Rightarrow> socketBase" where
  "server_socket fd efd = (new_socketBase True efd)\<lparr>m_listener := True, m_socket := fd\<rparr>"

definition five_bytes :: os where
  "five_bytes = os_of [Events [(5, EPOLLIN)], Bytes [16, 0, 0, 0, 1], Ret (- 1)]"

lemma five_bytes_received:
  "\<exists>l w. threadRecvFun (onRecv small_alloc (server_add 0)) (server_socket 3 4) (new_controller (boot 8 2))
      five_bytes = Some (Inr (l, w))"
proof -
  let ?bs = "[16, 0, 0, 0, 1] :: byte list"
  have "small_alloc (of_le32 (take 4 ?bs))" by (simp add: small_alloc_def memory_limit_def of_le32_def)
  from makeNewTask_wait [of "new_controller (boot 8 2)" 5 ?bs 5 small_alloc "server_add 0"
      "replicate (SOCKET_RECV_BUFFER_LEN - length ?bs) 0", OF _ _ _ _ this]
  obtain l where "onRecv small_alloc (server_add 0) 5 (recv_buffer ?bs) 5 (new_controller (boot 8 2)) = Some (Inr l)"
    by (auto simp: new_controller_def frame_len_def of_le32_def onRecv_def recv_buffer_def)
  then show ?thesis
    by (simp add: threadRecvFun.simps five_bytes_def os_of_def recv_event_def server_socket_def new_socketBase_def Let_def
        has_flag_def EPOLLIN_def SOCKET_RECV_BUFFER_LEN_def)
qed

theorem receive_thread_safe_witness:
  "\<exists>l w. threadRecvFun (onRecv small_alloc (server_add 0)) (server_socket 3 4) (new_controller (boot 8 2)) five_bytes =
      Some (Inr (l, w)) \<and> controller_ok memory_limit queued_data l"
proof -
  have ok: "controller_ok memory_limit queued_data (new_controller (boot 8 2))"
    by (simp add: controller_ok_def new_controller_def queued_data_def boot_def init_fields_def new_pool_def)
  have w: "recvs_within SOCKET_RECV_BUFFER_LEN five_bytes"
    by (simp add: recvs_within_def five_bytes_def os_of_def SOCKET_RECV_BUFFER_LEN_def)
  obtain l w' where run: "threadRecvFun (onRecv small_alloc (server_add 0)) (server_socket 3 4)
      (new_controller (boot 8 2)) five_bytes = Some (Inr (l, w'))"
    using five_bytes_received by blast
  from receive_thread_safe [OF ok w small_alloc_facts(1) run] run show ?thesis by auto
qed

text \<open>C33: A first message whose length field is zero, or the start of it that has arrived, makes the call
  of \<open>onRecv\<close> never return: the receive thread queues empty tasks for ever.\<close>

theorem zero_length_hangs:
  assumes "m_recvList s c = None" and "chunk \<noteq> []" and "length chunk \<le> SOCKET_RECV_BUFFER_LEN"
    and "list_all (\<lambda>b. b = 0) (take 4 chunk)" and "can_alloc 0"
  shows "onRecv can_alloc (server_add this) c (recv_buffer chunk) (word_of_nat (length chunk)) s = None"
proof (rule ccontr)
  assume "onRecv can_alloc (server_add this) c (recv_buffer chunk) (word_of_nat (length chunk)) s \<noteq> None"
  then obtain y where y: "makeNewTask can_alloc (server_add this) c (recv_buffer chunk) (word_of_nat (length chunk)) s = Some y"
    by (auto simp: onRecv_def)
  have "unat (word_of_nat (length chunk) :: u32) = length chunk"
    using assms(3) by (intro unat32_of_nat) (simp add: SOCKET_RECV_BUFFER_LEN_def)
  then have "0 < (word_of_nat (length chunk) :: u32)" using assms(2) by (simp add: word_less_nat_alt)
  moreover have "4 \<le> length (recv_buffer chunk)"
    using assms(3) by (simp add: recv_buffer_def SOCKET_RECV_BUFFER_LEN_def)
  ultimately show False using makeNewTask_zero [OF y assms(1) _ zero_header [OF assms(4)] assms(5)] by simp
qed

theorem zero_length_hangs_witness:
  "onRecv small_alloc (server_add 0) 5 (recv_buffer [0]) 1 (new_controller (boot 8 2)) = None"
  using zero_length_hangs [of "new_controller (boot 8 2)" 5 "[0]" small_alloc 0]
  by (simp add: new_controller_def SOCKET_RECV_BUFFER_LEN_def small_alloc_def memory_limit_def)

text \<open>C34: A \<open>recv\<close> that ends inside a length field makes the controller take the bytes that are there,
  filled up with zeros, for the length, and the client's message is cut by that number from then on.\<close>

theorem length_field_cut:
  assumes "m_recvList s c = None" and "p \<noteq> []" and "length p < 4"
    and "length p < unat (of_le32 (p @ replicate (4 - length p) 0))"
    and "can_alloc (of_le32 (p @ replicate (4 - length p) 0))"
  shows "\<exists>s' d. onRecv can_alloc (server_add this) c (recv_buffer p) (word_of_nat (length p)) s = Some (Inr s') \<and>
    m_recvList s' c = Some d \<and> m_len d = of_le32 (p @ replicate (4 - length p) 0) \<and>
    unat (m_curLen d) = length p"
proof -
  let ?N = "of_le32 (p @ replicate (4 - length p) 0)" and ?len = "word_of_nat (length p) :: u32"
  have u: "unat ?len = length p" using assms(3) by (rule word_of_short)
  have N: "load32 (map Some (recv_buffer p)) 0 = Inr ?N"
    using short_header [OF assms(2,3)] by (subst load32_bytes) (simp_all add: recv_buffer_def SOCKET_RECV_BUFFER_LEN_def)
  have cp: "\<exists>b. memcpy_in (new_char ?N) 0 (recv_buffer p) (length p) = Inr b"
    using memcpy_in_new [of p ?N "length p"] assms(4) by (auto simp: recv_buffer_def)
  have "\<not> ?N \<le> ?len" using assms(4) u by (simp add: word_le_nat_alt)
  with assms(1,5) N cp u show ?thesis
    by (auto simp: onRecv_def makeNewTask.simps [of _ _ _ "recv_buffer p"] new_taskData_def Let_def)
qed

text \<open>One byte of the length field 1044 of a response-sized message: 20 is taken for the length.\<close>

theorem length_field_cut_witness:
  "\<exists>s' d. onRecv small_alloc (server_add 0) 5 (recv_buffer (take 1 (le32 1044))) 1 (new_controller (boot 8 2)) =
      Some (Inr s') \<and> m_recvList s' 5 = Some d \<and> m_len d = 20"
proof -
  have p: "take 1 (le32 1044) = [20]" and n: "of_le32 ([20] @ replicate (4 - length [20 :: byte]) 0) = 20"
    by code_simp+
  show ?thesis
    using length_field_cut [of "new_controller (boot 8 2)" 5 "[20]" small_alloc 0] n unfolding p
    by (auto simp: new_controller_def small_alloc_def memory_limit_def)
qed

text \<open>C35: When \<open>recv\<close> fills the buffer and the last complete message leaves one to three bytes in it, the
  next length field is read past the end of the buffer.\<close>

theorem length_field_past_buffer:
  assumes "m_recvList s c = None" and "is_frame f" and "r \<noteq> []" and "length r < 4"
    and "length f + length r = SOCKET_RECV_BUFFER_LEN" and "can_alloc (word_of_nat (length f))"
  shows "onRecv can_alloc (server_add this) c (recv_buffer (f @ r)) (word_of_nat (length (f @ r))) s =
    Some (Inl OOB_Read)"
proof -
  let ?len = "word_of_nat (length (f @ r)) :: u32"
  have f: "4 \<le> length f" "frame_len (f @ r) = length f" "take 4 (f @ r) = take 4 f"
    using assms(2) by (simp_all add: is_frame_def frame_len_append)
  have u: "unat ?len = length (f @ r)"
    using assms(5) by (intro unat32_of_nat) (simp add: SOCKET_RECV_BUFFER_LEN_def)
  have "of_le32 (take 4 f) = word_of_nat (length f)"
  proof -
    have "unat (of_le32 (take 4 f)) = length f" using assms(2) by (simp add: is_frame_def frame_len_def)
    moreover have "word_of_nat (unat (of_le32 (take 4 f))) = of_le32 (take 4 f)" by simp
    ultimately show ?thesis by (simp only:)
  qed
  with assms(6) have "can_alloc (of_le32 (take 4 (f @ r)))" by (simp only: f)
  moreover have "4 \<le> length (f @ r)" "frame_len (f @ r) \<le> length (f @ r)" "frame_len (f @ r) < length (f @ r)"
    using f assms(3) by simp_all
  ultimately obtain d where "makeNewTask can_alloc (server_add this) c ((f @ r) @ []) ?len s =
      makeNewTask can_alloc (server_add this) c (drop (frame_len (f @ r)) (f @ r) @ []) (?len - of_le32 (take 4 (f @ r)))
        (s\<lparr>m_pool := server_add this d (m_pool s)\<rparr>)"
    using makeNewTask_cut [of s c "f @ r" ?len can_alloc "server_add this" "[]", OF assms(1) _ _ u]
    by (auto simp: Let_def)
  then have "makeNewTask can_alloc (server_add this) c (f @ r) ?len s =
      makeNewTask can_alloc (server_add this) c r (?len - of_le32 (take 4 (f @ r)))
        (s\<lparr>m_pool := server_add this d (m_pool s)\<rparr>)"
    by (simp add: f(2))
  also have "\<dots> = Some (Inl OOB_Read)"
    using assms(1,4) load32_oob [of "map Some r" 0] by (subst makeNewTask.simps) simp
  finally show ?thesis using assms(5) by (simp add: onRecv_def recv_buffer_def)
qed

theorem length_field_past_buffer_witness:
  "onRecv small_alloc (server_add 0) 5 (recv_buffer ((le32 32766 @ replicate 32762 0) @ [16, 0])) 32768
    (new_controller (boot 8 2)) = Some (Inl OOB_Read)"
proof -
  let ?f = "le32 32766 @ replicate 32762 0"
  have len: "length ?f = 32766" by simp
  have "is_frame ?f" by (simp add: is_frame_def frame_len_def)
  moreover have "length ?f + length [16, 0 :: byte] = SOCKET_RECV_BUFFER_LEN"
    unfolding len by (simp add: SOCKET_RECV_BUFFER_LEN_def)
  moreover have "small_alloc (word_of_nat (length ?f))"
    unfolding len by (simp add: small_alloc_def memory_limit_def)
  ultimately have "onRecv small_alloc (server_add 0) 5 (recv_buffer (?f @ [16, 0]))
      (word_of_nat (length (?f @ [16, 0 :: byte]))) (new_controller (boot 8 2)) = Some (Inl OOB_Read)"
    by (intro length_field_past_buffer) (simp_all add: new_controller_def del: replicate.simps)
  moreover have "(word_of_nat (length (?f @ [16, 0 :: byte])) :: u32) = 32768" by simp
  ultimately show ?thesis by (simp only:)
qed

end
