(* ===== verification/ReceiveThread.thy ===== *)
theory ReceiveThread
  imports Reassembly
begin

section \<open>From the kernel to the tasks: the whole receive thread\<close>

text \<open>
  The receive thread seen through its system calls: a trace is the list of the calls it made, each with
  the answer of the kernel. Whatever the events and answers, the thread does to the controller exactly
  what \<open>feed\<close> does with the data the successful \<open>recv\<close>s of the trace returned; so the results on the
  streams of the clients hold for the thread itself.
\<close>

type_synonym trace = "(sys_call \<times> answer) list"

definition traced :: "os \<Rightarrow> os \<Rightarrow> trace \<Rightarrow> bool" where
  "traced w w' tr \<longleftrightarrow> answers w = map snd tr @ answers w' \<and> calls w' = calls w @ map fst tr"

fun received :: "sys_call \<times> answer \<Rightarrow> (int \<times> byte list) list" where
  "received (Sys_recv fd n, Bytes bs) = (if take n bs = [] then [] else [(fd, take n bs)])"
| "received _ = []"

definition receives :: "trace \<Rightarrow> (int \<times> byte list) list" where
  "receives tr = concat (map received tr)"

lemma receives_simps [simp]:
  "receives [] = []"
  "receives (ca # tr) = received ca @ receives tr"
  "receives (tr @ tr') = receives tr @ receives tr'"
  by (simp_all add: receives_def)

lemma traced_refl: "traced w w []"
  by (simp add: traced_def)

lemma traced_trans: "traced w w1 tr \<Longrightarrow> traced w1 w2 tr' \<Longrightarrow> traced w w2 (tr @ tr')"
  by (simp add: traced_def)

lemma traced_do: "sys_do c w = Inr (a, w') \<Longrightarrow> traced w w' [(c, a)]"
  unfolding sys_do_Inr traced_def by (metis append_Cons append_Nil list.map(1,2) fst_conv snd_conv os.select_convs(2) os.surjective os.update_convs(1,2))

lemma traced_recv:
  assumes "sys_recv fd n w = Inr (k, bs, w')"
  shows "\<exists>a. traced w w' [(Sys_recv fd n, a)] \<and> received (Sys_recv fd n, a) = (if k \<le> 0 then [] else [(fd, bs)]) \<and>
    (0 < k \<longrightarrow> k = int (length bs))"
proof -
  obtain a w1 where a: "sys_do (Sys_recv fd n) w = Inr (a, w1)"
    using assms by (cases "sys_do (Sys_recv fd n) w") (auto simp: sys_recv_def)
  with assms have "w' = w1" and
    "received (Sys_recv fd n, a) = (if k \<le> 0 then [] else [(fd, bs)]) \<and> (0 < k \<longrightarrow> k = int (length bs))"
    by (auto simp: sys_recv_def min_def split: answer.split_asm if_splits)
  with traced_do [OF a] show ?thesis by blast
qed

lemma recv_event_feeds:
  assumes "m_listener s" and "recv_event (onRecv can_alloc add) s ev l w = Some (Inr (l1, w1))"
  shows "\<exists>tr. traced w w1 tr \<and> feed can_alloc add (receives tr) l = Some (Inr l1)"
proof (cases "fst ev \<noteq> m_socket s \<and> has_flag (snd ev) EPOLLIN")
  case False
  with assms(2) have "l1 = l \<and> w1 = w" by (auto simp: recv_event_def split: prod.splits if_splits)
  with traced_refl show ?thesis by (intro exI [of _ "[]"]) simp
next
  case True
  with assms(2) obtain k bs w2 where recv: "sys_recv (fst ev) SOCKET_RECV_BUFFER_LEN w = Inr (k, bs, w2)"
    by (auto simp: recv_event_def split: prod.splits sum.splits)
  obtain a where a: "traced w w2 [(Sys_recv (fst ev) SOCKET_RECV_BUFFER_LEN, a)]"
    "received (Sys_recv (fst ev) SOCKET_RECV_BUFFER_LEN, a) = (if k \<le> 0 then [] else [(fst ev, bs)])"
    "0 < k \<longrightarrow> k = int (length bs)"
    using traced_recv [OF recv] by blast
  have "w1 = w2 \<and> feed can_alloc add (if k \<le> 0 then [] else [(fst ev, bs)]) l = Some (Inr l1)"
    using assms True recv a(3)
    by (auto simp: recv_event_def split: prod.splits if_splits option.splits sum.splits)
  with a show ?thesis
    by (intro exI [of _ "[(Sys_recv (fst ev) SOCKET_RECV_BUFFER_LEN, a)]"]) simp
qed

lemma recv_events_feed:
  assumes "m_listener s"
  shows "recv_events (onRecv can_alloc add) s evs l w = Some (Inr (l1, w1)) \<Longrightarrow>
    \<exists>tr. traced w w1 tr \<and> feed can_alloc add (receives tr) l = Some (Inr l1)"
proof (induction evs arbitrary: l w)
  case Nil
  with traced_refl show ?case by (intro exI [of _ "[]"]) simp
next
  case (Cons ev evs)
  then obtain l2 w2 where ev: "recv_event (onRecv can_alloc add) s ev l w = Some (Inr (l2, w2))"
    and rest: "recv_events (onRecv can_alloc add) s evs l2 w2 = Some (Inr (l1, w1))"
    by (auto split: option.splits sum.splits)
  obtain tr where tr: "traced w w2 tr" "feed can_alloc add (receives tr) l = Some (Inr l2)"
    using recv_event_feeds [OF assms ev] by blast
  obtain tr' where tr': "traced w2 w1 tr'" "feed can_alloc add (receives tr') l2 = Some (Inr l1)"
    using Cons.IH [OF rest] by blast
  from tr tr' traced_trans [OF tr(1) tr'(1)] show ?case
    by (intro exI [of _ "tr @ tr'"]) (simp add: feed_append)
qed

lemma threadRecvFun_feeds:
  assumes "m_listener s" and "threadRecvFun (onRecv can_alloc add) s l w = Some (Inr (l1, w1))"
  shows "\<exists>tr. traced w w1 tr \<and> feed can_alloc add (receives tr) l = Some (Inr l1)"
  using assms(2)
proof (induction "length (answers w)" arbitrary: l w rule: less_induct)
  case less
  obtain a w2 where wait: "sys_do (Sys_epoll_wait (m_epfd s)) w = Inr (a, w2)"
    using less.prems by (subst (asm) threadRecvFun.simps) (auto split: sum.splits)
  note tr1 = traced_do [OF wait]
  show ?case
  proof (cases "ret_of a < 0")
    case True
    with less.prems wait have "l1 = l \<and> w1 = w2" by (simp add: threadRecvFun.simps)
    with tr1 show ?thesis by (intro exI [of _ "[(Sys_epoll_wait (m_epfd s), a)]"]) simp
  next
    case False
    with less.prems wait obtain l2 w3 where
      evs: "recv_events (onRecv can_alloc add) s (events_of a) l w2 = Some (Inr (l2, w3))" and
      rest: "threadRecvFun (onRecv can_alloc add) s l2 w3 = Some (Inr (l1, w1))"
      by (subst (asm) threadRecvFun.simps) (auto split: option.splits sum.splits)
    have "length (answers w3) < length (answers w)"
      using sys_do_shorter [OF wait] recv_events_shorter [OF evs] by simp
    from less.hyps [OF this rest] obtain tr3 where
      tr3: "traced w3 w1 tr3" "feed can_alloc add (receives tr3) l2 = Some (Inr l1)" by blast
    obtain tr2 where
      tr2: "traced w2 w3 tr2" "feed can_alloc add (receives tr2) l = Some (Inr l2)"
      using recv_events_feed [OF assms(1) evs] by blast
    have "traced w w1 (((Sys_epoll_wait (m_epfd s), a) # tr2) @ tr3)"
      using traced_trans [OF traced_trans [OF tr1 tr2(1)] tr3(1)] by simp
    moreover have "feed can_alloc add (receives (((Sys_epoll_wait (m_epfd s), a) # tr2) @ tr3)) l = Some (Inr l1)"
      using tr2(2) tr3(2) by (simp add: feed_append)
    ultimately show ?thesis by blast
  qed
qed

text \<open>C9: The receive thread, from the kernel to the pool: when it returns (because \<open>epoll_wait\<close> fails), it
  has done to the controller what its successful \<open>recv\<close>s, in the order of its system calls, amount to;
  if each of them ended outside a length field, the tasks in the pool are exactly the complete messages
  of the clients, in order, and \<open>m_recvList\<close> holds the rest.\<close>

theorem receive_thread_messages:
  assumes "grants can_alloc M" and "M + 2 ^ 15 < 2 ^ 32" and "queued_data p = []" and "m_listener s"
    and "threadRecvFun (onRecv can_alloc (server_add this)) s (new_controller p) w = Some (Inr (t, w'))"
  shows "\<exists>tr. traced w w' tr \<and>
    feed can_alloc (server_add this) (receives tr) (new_controller p) = Some (Inr t) \<and>
    (streams_ok M (receives tr) \<longrightarrow>
      (\<forall>c. sent_by c (queued_data (m_pool t)) = map (msg_view c) (frames_of (stream_of c (receives tr))) \<and>
           holds t c (rest_of (stream_of c (receives tr)))))"
proof -
  obtain tr where tr: "traced w w' tr"
    "feed can_alloc (server_add this) (receives tr) (new_controller p) = Some (Inr t)"
    using threadRecvFun_feeds [OF assms(4,5)] by blast
  with server_sink.feed_tracks [OF assms(1-3), of "receives tr" this] show ?thesis
    by (intro exI [of _ tr]) (auto simp: server_sink.tracks_def)
qed

theorem receive_thread_messages_witness:
  "\<exists>t w' tr. threadRecvFun (onRecv small_alloc (server_add 0)) (server_socket 3 4) (new_controller (boot 8 2)) five_bytes =
      Some (Inr (t, w')) \<and> traced five_bytes w' tr \<and>
    feed small_alloc (server_add 0) (receives tr) (new_controller (boot 8 2)) = Some (Inr t)"
proof -
  have q: "queued_data (boot 8 2) = []"
    by (simp add: queued_data_def boot_def init_fields_def new_pool_def)
  have l: "m_listener (server_socket 3 4)" by (simp add: server_socket_def)
  obtain t w' where "threadRecvFun (onRecv small_alloc (server_add 0)) (server_socket 3 4)
      (new_controller (boot 8 2)) five_bytes = Some (Inr (t, w'))"
    using five_bytes_received by blast
  with receive_thread_messages [OF small_alloc_facts(2,3) q l this] show ?thesis by blast
qed

end
