(* ===== verification/Protocol.thy ===== *)
theory Protocol
  imports Prelude
begin

section \<open>The message format: \<open>protocol/protocol.h\<close>, \<open>protocol/protocol.cpp\<close>\<close>

text \<open>
  The class \<open>wg_protocol::protocol\<close>: its static members (the instance, the message counter), the
  singleton accessors, and the five routines that build and take apart requests and responses. A
  pointer argument is \<open>None\<close> for \<open>NULL\<close> and otherwise the cells it points to; a \<open>std::string&\<close>
  argument is passed in and returned; the other reference arguments of the parse routines are the
  fields of \<open>request_out\<close> and \<open>response_out\<close>, returned unchanged where the code returns before it
  writes them. The lemmas give the exact bytes every builder writes and what every parser reads.
\<close>

subsection \<open>Commands and error codes\<close>

datatype ENUM_API_COMMAND = EAC_API1 | EAC_API2

datatype ENUM_PROTOCOL_ERROR = EPE_Parse_ERROR | EPE_Make_ERROR

primrec api_code :: "ENUM_API_COMMAND \<Rightarrow> u32" where
  "api_code EAC_API1 = 0"
| "api_code EAC_API2 = 1"

primrec error_code :: "ENUM_PROTOCOL_ERROR \<Rightarrow> u32" where
  "error_code EPE_Parse_ERROR = 500"
| "error_code EPE_Make_ERROR = 501"

text \<open>The enumerations compare as the integers they are.\<close>

instantiation ENUM_API_COMMAND :: linorder
begin

definition less_eq_ENUM_API_COMMAND :: "ENUM_API_COMMAND \<Rightarrow> ENUM_API_COMMAND \<Rightarrow> bool" where
  "less_eq_ENUM_API_COMMAND a b \<longleftrightarrow> api_code a \<le> api_code b"

definition less_ENUM_API_COMMAND :: "ENUM_API_COMMAND \<Rightarrow> ENUM_API_COMMAND \<Rightarrow> bool" where
  "less_ENUM_API_COMMAND a b \<longleftrightarrow> api_code a < api_code b"

instance
proof
  fix a b :: ENUM_API_COMMAND
  show "a \<le> b \<Longrightarrow> b \<le> a \<Longrightarrow> a = b"
    by (cases a; cases b) (simp_all add: less_eq_ENUM_API_COMMAND_def)
qed (auto simp: less_eq_ENUM_API_COMMAND_def less_ENUM_API_COMMAND_def)

end

lemma api_code_inject [simp]: "api_code a = api_code b \<longleftrightarrow> a = b"
  by (cases a; cases b) simp_all

lemma error_code_nonzero [simp]: "error_code e \<noteq> 0"
  by (cases e) simp_all

subsection \<open>The singleton\<close>

text \<open>
  \<open>m_instance\<close> is the identity of the object, \<open>next_obj\<close> what the next \<open>new protocol()\<close> yields.
  Here a call of an accessor is one step; the theory ProtocolThreads lets the accesses of several threads
  interleave.
\<close>

record protocol =
  m_instance :: "nat option"
  m_msgId :: u32
  next_obj :: nat

definition initial_protocol :: protocol where
  "initial_protocol = \<lparr>m_instance = None, m_msgId = 0, next_obj = 0\<rparr>"

definition getInstance :: "protocol \<Rightarrow> nat option \<times> protocol" where
  "getInstance s =
     (let s' = (if m_instance s = None
                then s\<lparr>m_instance := Some (next_obj s), next_obj := Suc (next_obj s)\<rparr> else s)
      in (m_instance s', s'))"

definition delInstance :: "protocol \<Rightarrow> protocol" where
  "delInstance s = (if m_instance s \<noteq> None then s\<lparr>m_instance := None\<rparr> else s)"

subsection \<open>Requests\<close>

text \<open>
  \<open>[totalLen:4][msgId:4][command:4][DataLen:4][Data:X]\<close>. The argument \<open>size\<close> is
  called \<open>dsize\<close> here. The sum \<open>sizeof(unsigned int) * 4 + size\<close> is cut to 32 bits when it is
  stored in \<open>totoleSize\<close>.
\<close>

definition makeAPIRequest ::
  "ENUM_API_COMMAND \<Rightarrow> cell list option \<Rightarrow> u32 \<Rightarrow> byte list \<Rightarrow> protocol
   \<Rightarrow> (int \<times> byte list \<times> protocol) res" where
  "makeAPIRequest cmd buf dsize request s =
     (case buf of
        None \<Rightarrow> Inr (- 1, request, s)
      | Some src \<Rightarrow>
          if dsize = 0 then Inr (- 1, request, s)
          else
            let totoleSize = 4 * 4 + dsize;
                r0 = string_resize request (unat totoleSize)
            in
            bind_res (write_at r0 0 (le32 totoleSize)) (\<lambda>r1.
            let s' = s\<lparr>m_msgId := m_msgId s + 1\<rparr> in
            bind_res (write_at r1 4 (le32 (m_msgId s'))) (\<lambda>r2.
            bind_res (write_at r2 (4 * 2) (le32 (api_code cmd))) (\<lambda>r3.
            bind_res (write_at r3 (4 * 3) (le32 dsize)) (\<lambda>r4.
            bind_res (read_at src 0 (unat dsize)) (\<lambda>cs.
            bind_res (init_cells cs) (\<lambda>bs.
            bind_res (write_at r4 (4 * 4) bs) (\<lambda>r5.
            Inr (0, r5, s')))))))))"

record request_out =
  rq_msgId :: u32
  rq_cmd :: u32
  rq_cmdData :: "cell list option"
  rq_cmdDataLen :: u32

definition parseRequest ::
  "cell list option \<Rightarrow> u32 \<Rightarrow> request_out \<Rightarrow> (int \<times> request_out) res" where
  "parseRequest reqbuf bufLen out =
     (case reqbuf of
        None \<Rightarrow> Inr (- 1, out)
      | Some p \<Rightarrow>
          if bufLen < 4 * 4 then Inr (- 1, out)
          else
            bind_res (load32 p 4) (\<lambda>msgId.
            bind_res (load32 p (4 * 2)) (\<lambda>cmd.
            bind_res (load32 p (4 * 3)) (\<lambda>cmdDataLen.
            Inr (0, \<lparr>rq_msgId = msgId, rq_cmd = cmd, rq_cmdData = Some (drop (4 * 4) p),
                     rq_cmdDataLen = cmdDataLen\<rparr>)))))"

subsection \<open>Responses\<close>

text \<open>
  \<open>[totalLen:4][msgId:4][command:4][result:4][dataLen:4][Data:x]\<close>; a response that carries an error
  ends after the result.
\<close>

definition makeAPIResponse ::
  "u32 \<Rightarrow> ENUM_API_COMMAND \<Rightarrow> cell list option \<Rightarrow> u32 \<Rightarrow> byte list \<Rightarrow> (int \<times> byte list) res" where
  "makeAPIResponse msgId cmd data dataLen resp =
     (let totoleSize = 4 * 5 + dataLen;
          r0 = string_resize resp (unat totoleSize)
      in
      bind_res (write_at r0 0 (le32 totoleSize)) (\<lambda>r1.
      bind_res (write_at r1 4 (le32 msgId)) (\<lambda>r2.
      bind_res (write_at r2 (4 * 2) (le32 (api_code cmd))) (\<lambda>r3.
      bind_res (write_at r3 (4 * 3) (replicate 4 0)) (\<lambda>r4.
      bind_res (write_at r4 (4 * 4) (le32 dataLen)) (\<lambda>r5.
      bind_res (case data of None \<Rightarrow> Inl Null_Deref | Some p \<Rightarrow> read_at p 0 (unat dataLen)) (\<lambda>cs.
      bind_res (init_cells cs) (\<lambda>bs.
      bind_res (write_at r5 (4 * 5) bs) (\<lambda>r6.
      Inr (0, r6))))))))))"

record response_out =
  rs_msgId :: u32
  rs_cmd :: u32
  rs_result :: u32
  rs_cmdData :: "cell list option"
  rs_cmdDataLen :: u32

definition parseResponse ::
  "cell list option \<Rightarrow> u32 \<Rightarrow> response_out \<Rightarrow> (int \<times> response_out) res" where
  "parseResponse respbuf bufLen out =
     (case respbuf of
        None \<Rightarrow> Inr (- 1, out)
      | Some p \<Rightarrow>
          if bufLen < 4 * 4 then Inr (- 1, out)
          else
            bind_res (load32 p 4) (\<lambda>msgId.
            bind_res (load32 p (4 * 2)) (\<lambda>cmd.
            bind_res (load32 p (4 * 3)) (\<lambda>result.
            if result = 0 then
              bind_res (load32 p (4 * 4)) (\<lambda>cmdDataLen.
              Inr (0, \<lparr>rs_msgId = msgId, rs_cmd = cmd, rs_result = result,
                       rs_cmdData = Some (drop (4 * 5) p), rs_cmdDataLen = cmdDataLen\<rparr>))
            else
              Inr (0, \<lparr>rs_msgId = msgId, rs_cmd = cmd, rs_result = result,
                       rs_cmdData = None, rs_cmdDataLen = 0\<rparr>)))))"

definition makeErrResponse ::
  "u32 \<Rightarrow> ENUM_API_COMMAND \<Rightarrow> ENUM_PROTOCOL_ERROR \<Rightarrow> byte list \<Rightarrow> (int \<times> byte list) res" where
  "makeErrResponse msgId cmd errCode resp =
     (let totoleSize = 4 * 4;
          r0 = string_resize resp (unat totoleSize)
      in
      bind_res (write_at r0 0 (le32 totoleSize)) (\<lambda>r1.
      bind_res (write_at r1 4 (le32 msgId)) (\<lambda>r2.
      bind_res (write_at r2 (4 * 2) (le32 (api_code cmd))) (\<lambda>r3.
      bind_res (write_at r3 (4 * 3) (le32 (error_code errCode))) (\<lambda>r4.
      Inr (0, r4))))))"


subsection \<open>What the builders write\<close>

definition request_bytes :: "u32 \<Rightarrow> ENUM_API_COMMAND \<Rightarrow> byte list \<Rightarrow> byte list" where
  "request_bytes msgId cmd d =
     le32 (word_of_nat (16 + length d)) @ le32 msgId @ le32 (api_code cmd)
     @ le32 (word_of_nat (length d)) @ d"

definition response_bytes :: "u32 \<Rightarrow> ENUM_API_COMMAND \<Rightarrow> byte list \<Rightarrow> byte list" where
  "response_bytes msgId cmd d =
     le32 (word_of_nat (20 + length d)) @ le32 msgId @ le32 (api_code cmd) @ le32 0
     @ le32 (word_of_nat (length d)) @ d"

definition error_bytes :: "u32 \<Rightarrow> ENUM_API_COMMAND \<Rightarrow> ENUM_PROTOCOL_ERROR \<Rightarrow> byte list" where
  "error_bytes msgId cmd e = le32 16 @ le32 msgId @ le32 (api_code cmd) @ le32 (error_code e)"

lemma length_request_bytes [simp]: "length (request_bytes m c d) = 16 + length d"
  by (simp add: request_bytes_def)

lemma length_response_bytes [simp]: "length (response_bytes m c d) = 20 + length d"
  by (simp add: response_bytes_def)

lemma length_error_bytes [simp]: "length (error_bytes m c e) = 16"
  by (simp add: error_bytes_def)

lemma le32_zero: "le32 0 = replicate 4 0"
  by (simp add: le32_def numeral_eq_Suc)

lemma unat_add_const:
  "k + unat (n :: u32) < 2 ^ 32 \<Longrightarrow> unat (word_of_nat k + n) = k + unat n"
  by (simp add: unat_word_ariths take_bit_nat_eq_self unsigned_of_nat)

lemma makeAPIRequest_result:
  assumes "dsize \<noteq> 0" and "length d = unat dsize" and "16 + unat dsize < 2 ^ 32"
  shows "makeAPIRequest cmd (Some (map Some d @ rest)) dsize request s =
         Inr (0, request_bytes (m_msgId s + 1) cmd d, s\<lparr>m_msgId := m_msgId s + 1\<rparr>)"
proof -
  have tot: "unat (16 + dsize) = 16 + unat dsize"
    using unat_add_const [of 16 dsize] assms(3) by simp
  have "read_at (map Some d @ rest) 0 (unat dsize) = Inr (map Some d)"
    by (simp add: read_at_def assms(2))
  then show ?thesis
    using assms(1)
    by (simp add: makeAPIRequest_def Let_def tot write_first write_next assms(2)
        del: append_assoc) (simp add: request_bytes_def assms(2))
qed

lemma makeAPIResponse_result:
  assumes "length d = unat dataLen" and "20 + unat dataLen < 2 ^ 32"
  shows "makeAPIResponse msgId cmd (Some (map Some d @ rest)) dataLen resp =
         Inr (0, response_bytes msgId cmd d)"
proof -
  have tot: "unat (20 + dataLen) = 20 + unat dataLen"
    using unat_add_const [of 20 dataLen] assms(2) by simp
  have "read_at (map Some d @ rest) 0 (unat dataLen) = Inr (map Some d)"
    by (simp add: read_at_def assms(1))
  then show ?thesis
    by (simp add: makeAPIResponse_def Let_def tot write_first write_next assms(1)
        del: append_assoc) (simp add: response_bytes_def assms(1) le32_zero)
qed

lemma makeErrResponse_result:
  "makeErrResponse msgId cmd e resp = Inr (0, error_bytes msgId cmd e)"
  by (simp add: makeErrResponse_def Let_def write_first write_next del: append_assoc)
    (simp add: error_bytes_def)


subsection \<open>What the parsers read\<close>

definition field_at :: "byte list \<Rightarrow> nat \<Rightarrow> u32" where
  "field_at bs i = of_le32 (take 4 (drop (4 * i) bs))"

lemma load32_field:
  "off = 4 * i \<Longrightarrow> 4 * i + 4 \<le> length bs \<Longrightarrow> load32 (map Some bs @ q) off = Inr (field_at bs i)"
  by (simp add: load32_map_Some field_at_def)

lemma parseRequest_short: "bufLen < 16 \<Longrightarrow> parseRequest reqbuf bufLen out = Inr (- 1, out)"
  by (simp add: parseRequest_def split: option.split)

lemma parseRequest_ok:
  assumes "16 \<le> bufLen" and "16 \<le> length bs"
  shows "parseRequest (Some (map Some bs @ q)) bufLen out =
         Inr (0, \<lparr>rq_msgId = field_at bs 1, rq_cmd = field_at bs 2,
                  rq_cmdData = Some (map Some (drop 16 bs) @ q), rq_cmdDataLen = field_at bs 3\<rparr>)"
  using assms load32_field [of 4 1 bs q] load32_field [of 8 2 bs q] load32_field [of 12 3 bs q]
  by (simp add: parseRequest_def not_less [symmetric] drop_map)

lemma parseResponse_short: "bufLen < 16 \<Longrightarrow> parseResponse respbuf bufLen out = Inr (- 1, out)"
  by (simp add: parseResponse_def split: option.split)

lemma parseResponse_error:
  assumes "16 \<le> bufLen" and "16 \<le> length bs" and "field_at bs 3 \<noteq> 0"
  shows "parseResponse (Some (map Some bs @ q)) bufLen out =
         Inr (0, \<lparr>rs_msgId = field_at bs 1, rs_cmd = field_at bs 2, rs_result = field_at bs 3,
                  rs_cmdData = None, rs_cmdDataLen = 0\<rparr>)"
  using assms load32_field [of 4 1 bs q] load32_field [of 8 2 bs q] load32_field [of 12 3 bs q]
  by (simp add: parseResponse_def not_less [symmetric])

lemma parseResponse_ok:
  assumes "16 \<le> bufLen" and "20 \<le> length bs" and "field_at bs 3 = 0"
  shows "parseResponse (Some (map Some bs @ q)) bufLen out =
         Inr (0, \<lparr>rs_msgId = field_at bs 1, rs_cmd = field_at bs 2, rs_result = 0,
                  rs_cmdData = Some (map Some (drop 20 bs) @ q), rs_cmdDataLen = field_at bs 4\<rparr>)"
  using assms load32_field [of 4 1 bs q] load32_field [of 8 2 bs q] load32_field [of 12 3 bs q]
    load32_field [of 16 4 bs q]
  by (simp add: parseResponse_def not_less [symmetric] drop_map)

lemma parseResponse_oob:
  assumes "16 \<le> bufLen" and "16 \<le> length bs" and "length bs + length q < 20" and "field_at bs 3 = 0"
  shows "parseResponse (Some (map Some bs @ q)) bufLen out = Inl OOB_Read"
  using assms load32_field [of 4 1 bs q] load32_field [of 8 2 bs q] load32_field [of 12 3 bs q]
    load32_oob [of "map Some bs @ q" 16]
  by (simp add: parseResponse_def not_less [symmetric])

text \<open>The fields of the messages the builders write.\<close>

lemma field_at_append:
  assumes "length p = 4 * i"
  shows "field_at (p @ le32 w @ q) i = w"
  using u32_field.read_field [of "4 * i" p w q] assms by (simp add: field_at_def)

lemma request_fields [simp]:
  "field_at (request_bytes m c d) 0 = word_of_nat (16 + length d)"
  "field_at (request_bytes m c d) (Suc 0) = m"
  "field_at (request_bytes m c d) 2 = api_code c"
  "field_at (request_bytes m c d) 3 = word_of_nat (length d)"
  "drop 16 (request_bytes m c d) = d"
  using field_at_append [of "[]" 0] field_at_append [of "le32 (word_of_nat (16 + length d))" 1]
    field_at_append [of "le32 (word_of_nat (16 + length d)) @ le32 m" 2]
    field_at_append [of "le32 (word_of_nat (16 + length d)) @ le32 m @ le32 (api_code c)" 3]
  by (simp_all add: request_bytes_def)

lemma response_fields [simp]:
  "field_at (response_bytes m c d) 0 = word_of_nat (20 + length d)"
  "field_at (response_bytes m c d) (Suc 0) = m"
  "field_at (response_bytes m c d) 2 = api_code c"
  "field_at (response_bytes m c d) 3 = 0"
  "field_at (response_bytes m c d) 4 = word_of_nat (length d)"
  "drop 20 (response_bytes m c d) = d"
  using field_at_append [of "[]" 0] field_at_append [of "le32 (word_of_nat (20 + length d))" 1]
    field_at_append [of "le32 (word_of_nat (20 + length d)) @ le32 m" 2]
    field_at_append [of "le32 (word_of_nat (20 + length d)) @ le32 m @ le32 (api_code c)" 3]
    field_at_append [of "le32 (word_of_nat (20 + length d)) @ le32 m @ le32 (api_code c) @ le32 0" 4]
  by (simp_all add: response_bytes_def)

lemma error_fields [simp]:
  "field_at (error_bytes m c e) 0 = 16"
  "field_at (error_bytes m c e) (Suc 0) = m"
  "field_at (error_bytes m c e) 2 = api_code c"
  "field_at (error_bytes m c e) 3 = error_code e"
  using field_at_append [of "[]" 0 16] field_at_append [of "le32 16" 1]
    field_at_append [of "le32 16 @ le32 m" 2]
    field_at_append [of "le32 16 @ le32 m @ le32 (api_code c)" 3 "error_code e" "[]"]
  by (simp_all add: error_bytes_def)

lemma parse_request_bytes:
  assumes "16 + length d < 2 ^ 32"
  shows "parseRequest (Some (map Some (request_bytes m c d) @ q)) (word_of_nat (16 + length d)) out =
         Inr (0, \<lparr>rq_msgId = m, rq_cmd = api_code c, rq_cmdData = Some (map Some d @ q),
                  rq_cmdDataLen = word_of_nat (length d)\<rparr>)"
proof -
  have "16 \<le> (word_of_nat (16 + length d) :: u32)"
    using unat32_of_nat [of "16 + length d"] assms by (simp add: word_le_nat_alt del: of_nat_add)
  then show ?thesis by (simp add: parseRequest_ok)
qed

lemma parse_response_bytes:
  assumes "20 + length d < 2 ^ 32"
  shows "parseResponse (Some (map Some (response_bytes m c d) @ q)) (word_of_nat (20 + length d)) out =
         Inr (0, \<lparr>rs_msgId = m, rs_cmd = api_code c, rs_result = 0,
                  rs_cmdData = Some (map Some d @ q), rs_cmdDataLen = word_of_nat (length d)\<rparr>)"
proof -
  have "16 \<le> (word_of_nat (20 + length d) :: u32)"
    using unat32_of_nat [of "20 + length d"] assms by (simp add: word_le_nat_alt del: of_nat_add)
  then show ?thesis by (simp add: parseResponse_ok)
qed

lemma parse_error_bytes:
  "parseResponse (Some (map Some (error_bytes m c e) @ q)) 16 out =
   Inr (0, \<lparr>rs_msgId = m, rs_cmd = api_code c, rs_result = error_code e,
            rs_cmdData = None, rs_cmdDataLen = 0\<rparr>)"
  by (simp add: parseResponse_error)

subsection \<open>A request longer than an \<open>unsigned int\<close> can count\<close>

lemma makeAPIRequest_wrap:
  assumes "2 ^ 32 - 16 \<le> unat dsize"
  shows "makeAPIRequest cmd (Some src) dsize request s = Inl OOB_Write"
proof -
  have lt: "unat dsize < 2 ^ 32" by (rule unat32_bound)
  have "unat (16 + dsize) = (16 + unat dsize) mod 2 ^ 32"
    by (simp add: unat_word_ariths)
  also have "\<dots> = 16 + unat dsize - 2 ^ 32"
    using assms lt by (subst mod_if) (simp add: mod_if)
  finally have t: "unat (16 + dsize) < 16" using lt by simp
  have "dsize \<noteq> 0" using assms by auto
  with t show ?thesis
    by (auto simp: makeAPIRequest_def Let_def write_at_def not_le)
qed


subsection \<open>Requests in a row\<close>

text \<open>The message numbers of \<open>n\<close> requests that one thread makes, read back from the requests.\<close>

fun request_ids :: "nat \<Rightarrow> ENUM_API_COMMAND \<Rightarrow> byte list \<Rightarrow> protocol \<Rightarrow> u32 list" where
  "request_ids 0 cmd d s = []"
| "request_ids (Suc n) cmd d s =
     (case makeAPIRequest cmd (Some (map Some d)) (word_of_nat (length d)) [] s of
        Inl e \<Rightarrow> []
      | Inr (r, request, s') \<Rightarrow> field_at request 1 # request_ids n cmd d s')"

lemma request_ids_result:
  assumes "d \<noteq> []" and "16 + length d < 2 ^ 32"
  shows "request_ids n cmd d s = map (\<lambda>i. m_msgId s + word_of_nat (Suc i)) [0..<n]"
proof (induction n arbitrary: s)
  case (Suc n)
  have u: "unat (word_of_nat (length d) :: u32) = length d" using assms(2) by (intro unat32_of_nat) simp
  then have "(word_of_nat (length d) :: u32) \<noteq> 0" using assms(1) by (metis length_0_conv unsigned_0)
  then have "makeAPIRequest cmd (Some (map Some d)) (word_of_nat (length d)) [] s =
      Inr (0, request_bytes (m_msgId s + 1) cmd d, s\<lparr>m_msgId := m_msgId s + 1\<rparr>)"
    using makeAPIRequest_result [of "word_of_nat (length d)" d cmd "[]" "[]" s] u assms(2) by simp
  then show ?case
    using Suc.IH [of "s\<lparr>m_msgId := m_msgId s + 1\<rparr>"]
    by (simp add: upt_conv_Cons map_Suc_upt [symmetric] comp_def add.assoc del: upt_Suc)
qed simp


subsection \<open>Properties\<close>

text \<open>C26: A request that \<open>makeAPIRequest\<close> builds is read back by \<open>parseRequest\<close>: the new message
  number, the command and the data; its first field is its length.\<close>

theorem request_roundtrip:
  assumes "dsize \<noteq> 0" and "length d = unat dsize" and "16 + unat dsize < 2 ^ 32"
  shows "\<exists>bytes s'. makeAPIRequest cmd (Some (map Some d @ rest)) dsize request s = Inr (0, bytes, s') \<and>
    m_msgId s' = m_msgId s + 1 \<and> unat (field_at bytes 0) = length bytes \<and>
    parseRequest (Some (map Some bytes @ q)) (word_of_nat (length bytes)) out =
      Inr (0, \<lparr>rq_msgId = m_msgId s', rq_cmd = api_code cmd, rq_cmdData = Some (map Some d @ q),
               rq_cmdDataLen = dsize\<rparr>)"
proof -
  let ?bytes = "request_bytes (m_msgId s + 1) cmd d"
  have "unat (field_at ?bytes 0) = length ?bytes"
    using unat32_of_nat [of "16 + length d"] assms(2,3) by simp
  moreover have "parseRequest (Some (map Some ?bytes @ q)) (word_of_nat (length ?bytes)) out =
      Inr (0, \<lparr>rq_msgId = m_msgId s + 1, rq_cmd = api_code cmd, rq_cmdData = Some (map Some d @ q),
               rq_cmdDataLen = dsize\<rparr>)"
    using parse_request_bytes [of d "m_msgId s + 1" cmd q out] assms(2,3) by simp
  ultimately show ?thesis using makeAPIRequest_result [OF assms, of cmd rest request s] by auto
qed

theorem request_roundtrip_witness:
  "\<exists>bytes s'. makeAPIRequest EAC_API2 (Some [Some 7, Some 8]) 2 [] initial_protocol = Inr (0, bytes, s') \<and>
    m_msgId s' = m_msgId initial_protocol + 1 \<and> unat (field_at bytes 0) = length bytes \<and>
    parseRequest (Some (map Some bytes)) (word_of_nat (length bytes)) \<lparr>rq_msgId = 0, rq_cmd = 7, rq_cmdData = None, rq_cmdDataLen = 0\<rparr> =
      Inr (0, \<lparr>rq_msgId = m_msgId s', rq_cmd = 1, rq_cmdData = Some [Some 7, Some 8], rq_cmdDataLen = 2\<rparr>)"
  using request_roundtrip [of 2 "[7, 8]" EAC_API2 "[]" "[]" initial_protocol "[]"
    "\<lparr>rq_msgId = 0, rq_cmd = 7, rq_cmdData = None, rq_cmdDataLen = 0\<rparr>"] by simp

text \<open>C27: A response that \<open>makeAPIResponse\<close> builds is read back by \<open>parseResponse\<close> with result 0; its
  first field is its length.\<close>

theorem response_roundtrip:
  assumes "length d = unat dataLen" and "20 + unat dataLen < 2 ^ 32"
  shows "\<exists>bytes. makeAPIResponse msgId cmd (Some (map Some d @ rest)) dataLen resp = Inr (0, bytes) \<and>
    unat (field_at bytes 0) = length bytes \<and>
    parseResponse (Some (map Some bytes @ q)) (word_of_nat (length bytes)) out =
      Inr (0, \<lparr>rs_msgId = msgId, rs_cmd = api_code cmd, rs_result = 0,
               rs_cmdData = Some (map Some d @ q), rs_cmdDataLen = dataLen\<rparr>)"
proof -
  let ?bytes = "response_bytes msgId cmd d"
  have "unat (field_at ?bytes 0) = length ?bytes"
    using unat32_of_nat [of "20 + length d"] assms by simp
  moreover have "parseResponse (Some (map Some ?bytes @ q)) (word_of_nat (length ?bytes)) out =
      Inr (0, \<lparr>rs_msgId = msgId, rs_cmd = api_code cmd, rs_result = 0,
               rs_cmdData = Some (map Some d @ q), rs_cmdDataLen = dataLen\<rparr>)"
    using parse_response_bytes [of d msgId cmd q out] assms by simp
  ultimately show ?thesis using makeAPIResponse_result [OF assms, of msgId cmd rest resp] by auto
qed

theorem response_roundtrip_witness:
  "\<exists>bytes. makeAPIResponse 9 EAC_API1 (Some [Some 65]) 1 [] = Inr (0, bytes) \<and>
    unat (field_at bytes 0) = length bytes \<and>
    parseResponse (Some (map Some bytes)) (word_of_nat (length bytes)) \<lparr>rs_msgId = 0, rs_cmd = 0,
        rs_result = 0, rs_cmdData = None, rs_cmdDataLen = 0\<rparr> =
      Inr (0, \<lparr>rs_msgId = 9, rs_cmd = 0, rs_result = 0, rs_cmdData = Some [Some 65], rs_cmdDataLen = 1\<rparr>)"
  using response_roundtrip [of "[65]" 1 9 EAC_API1 "[]" "[]" "[]" "\<lparr>rs_msgId = 0, rs_cmd = 0,
        rs_result = 0, rs_cmdData = None, rs_cmdDataLen = 0\<rparr>"] by simp

text \<open>An error response is read back with its error code, no data, and never as a success.\<close>

theorem error_roundtrip:
  "\<exists>bytes. makeErrResponse msgId cmd e resp = Inr (0, bytes) \<and> length bytes = 16 \<and> field_at bytes 0 = 16 \<and>
    parseResponse (Some (map Some bytes @ q)) 16 out =
      Inr (0, \<lparr>rs_msgId = msgId, rs_cmd = api_code cmd, rs_result = error_code e,
               rs_cmdData = None, rs_cmdDataLen = 0\<rparr>) \<and> error_code e \<noteq> 0"
  by (intro exI [of _ "error_bytes msgId cmd e"]) (simp add: makeErrResponse_result parse_error_bytes)

text \<open>C28: On an initialised buffer of the stated length \<open>parseRequest\<close> is defined for all contents: it
  refuses exactly the buffers below 16 bytes, leaving the outputs alone, and otherwise returns the
  three fields and the pointer behind them. The announced data length is not compared with the buffer.\<close>

theorem parseRequest_total:
  assumes "length bs = unat bufLen"
  shows "parseRequest (Some (map Some bs)) bufLen out =
    (if length bs < 16 then Inr (- 1, out)
     else Inr (0, \<lparr>rq_msgId = field_at bs 1, rq_cmd = field_at bs 2,
                   rq_cmdData = Some (map Some (drop 16 bs)), rq_cmdDataLen = field_at bs 3\<rparr>))"
  using parseRequest_short [of bufLen "Some (map Some bs)" out] parseRequest_ok [of bufLen bs "[]" out] assms
  by (simp add: word_less_nat_alt word_le_nat_alt)

theorem parseRequest_total_witness:
  "parseRequest (Some (map Some [1, 2, 3])) 3 \<lparr>rq_msgId = 0, rq_cmd = 7, rq_cmdData = None, rq_cmdDataLen = 0\<rparr> =
   Inr (- 1, \<lparr>rq_msgId = 0, rq_cmd = 7, rq_cmdData = None, rq_cmdDataLen = 0\<rparr>)"
  using parseRequest_total [of "[1, 2, 3]" 3 "\<lparr>rq_msgId = 0, rq_cmd = 7, rq_cmdData = None, rq_cmdDataLen = 0\<rparr>"] by simp

text \<open>C29: \<open>parseResponse\<close> checks for 16 bytes but reads 20 of a success: on an initialised buffer of the
  stated length it reads out of bounds exactly for 16 to 19 bytes with result 0.\<close>

theorem parseResponse_overread:
  assumes "length bs = unat bufLen"
  shows "parseResponse (Some (map Some bs)) bufLen out = Inl OOB_Read \<longleftrightarrow>
    16 \<le> length bs \<and> length bs < 20 \<and> field_at bs 3 = 0"
proof (cases "length bs < 16")
  case True
  then show ?thesis
    using parseResponse_short [of bufLen "Some (map Some bs)" out] assms by (simp add: word_less_nat_alt)
next
  case False
  then have "16 \<le> bufLen" using assms by (simp add: word_le_nat_alt)
  from parseResponse_ok [OF this, of bs "[]" out] parseResponse_error [OF this, of bs "[]" out]
    parseResponse_oob [OF this, of bs "[]" out] False
  show ?thesis by (cases "field_at bs 3 = 0"; cases "length bs < 20") simp_all
qed

theorem parseResponse_overread_witness:
  "parseResponse (Some (map Some (replicate 17 0))) 17 \<lparr>rs_msgId = 0, rs_cmd = 0, rs_result = 0, rs_cmdData = None, rs_cmdDataLen = 0\<rparr> = Inl OOB_Read"
proof -
  have "field_at (replicate 17 0) 3 = 0" by code_simp
  then show ?thesis using parseResponse_overread [of "replicate 17 0" 17
      "\<lparr>rs_msgId = 0, rs_cmd = 0, rs_result = 0, rs_cmdData = None, rs_cmdDataLen = 0\<rparr>"] by simp
qed

text \<open>A size whose sum with the header does not fit in 32 bits makes \<open>makeAPIRequest\<close> write past
  the end of the request it has just resized.\<close>

theorem makeAPIRequest_overflow:
  assumes "2 ^ 32 - 16 \<le> unat dsize"
  shows "makeAPIRequest cmd (Some src) dsize request s = Inl OOB_Write"
  using assms by (rule makeAPIRequest_wrap)

theorem makeAPIRequest_overflow_witness:
  "makeAPIRequest EAC_API1 (Some []) (- 16) [] initial_protocol = Inl OOB_Write"
  using makeAPIRequest_overflow [of "- 16" EAC_API1 "[]" "[]" initial_protocol] by simp

text \<open>The requests one thread makes in a row carry different message numbers, up to \<open>2^32\<close> of
  them.\<close>

theorem request_ids_distinct:
  assumes "d \<noteq> []" and "16 + length d < 2 ^ 32" and "n \<le> 2 ^ 32"
  shows "length (request_ids n cmd d s) = n \<and> distinct (request_ids n cmd d s)"
proof -
  have "inj_on (\<lambda>i. m_msgId s + word_of_nat (Suc i) :: u32) {0..<n}"
  proof (rule inj_onI)
    fix i j
    assume ij: "i \<in> {0..<n}" "j \<in> {0..<n}"
      and eq: "m_msgId s + word_of_nat (Suc i) = m_msgId s + (word_of_nat (Suc j) :: u32)"
    then have "(word_of_nat i :: u32) = word_of_nat j" by simp
    then have "unat (word_of_nat i :: u32) = unat (word_of_nat j :: u32)" by simp
    moreover have "i < 2 ^ 32" and "j < 2 ^ 32" using ij assms(3) by simp_all
    ultimately show "i = j" by (simp only: unat32_of_nat)
  qed
  then show ?thesis using request_ids_result [OF assms(1,2)] by (simp add: distinct_map)
qed

theorem request_ids_distinct_witness:
  "length (request_ids 3 EAC_API1 [1] initial_protocol) = 3 \<and> distinct (request_ids 3 EAC_API1 [1] initial_protocol)"
  using request_ids_distinct [of "[1]" 3 EAC_API1 initial_protocol] by simp

end
