(* ===== verification/HexChar.thy ===== *)
theory HexChar
  imports Prelude
begin

unbundle bit_operations_syntax

section \<open>Hexadecimal dumps: \<open>utility/hexChar.c\<close>\<close>

text \<open>
  The two case-conversion helpers, the encoder \<open>CharToHex\<close> that the log lines of the server and
  of the client use, and the decoder \<open>HexToChar\<close>. Loops keep the variables of the C code:
  \<open>CharToHex_loop\<close> has the output cursor and \<open>i\<close>, \<open>HexToChar_loop\<close> has \<open>q\<close>, \<open>st\<close>, \<open>kk\<close>, \<open>an\<close> and
  \<open>num\<close>. Every access is checked against the array it is made in. The input pointer of
  \<open>HexToChar\<close> is an array together with the position \<open>base\<close> it points to, because the loop reads
  \<open>pchIn[-1]\<close>. The lemmas show what the encoder writes, when the decoder is defined, and which
  strings it decodes.
\<close>

subsection \<open>Letter case\<close>

definition SupperToLower :: "byte \<Rightarrow> byte" where
  "SupperToLower c = (if 65 \<le> sint c \<and> sint c \<le> 90 then c + 32 else c)"

definition LowerToSupper :: "byte \<Rightarrow> byte" where
  "LowerToSupper c = (if 97 \<le> sint c \<and> sint c \<le> 122 then c - 32 else c)"

subsection \<open>Encoding\<close>

definition tohex :: "byte list" where
  "tohex = [48, 49, 50, 51, 52, 53, 54, 55, 56, 57, 65, 66, 67, 68, 69, 70]"

function CharToHex_loop :: "byte list \<Rightarrow> nat \<Rightarrow> byte list \<Rightarrow> int \<Rightarrow> int \<Rightarrow> byte list res" where
  "CharToHex_loop pchOut pos pchIn i nLen =
     (if i < nLen then
        bind_res (index_at pchIn i) (\<lambda>b.
        bind_res (write_at pchOut pos [tohex ! unat (drop_bit 4 b)]) (\<lambda>out1.
        bind_res (write_at out1 (pos + 1) [tohex ! unat (b AND 15)]) (\<lambda>out2.
        CharToHex_loop out2 (pos + 2) pchIn (i + 1) nLen)))
      else Inr pchOut)"
  by pat_completeness auto
termination
  by (relation "measure (\<lambda>(out, pos, pchIn, i, nLen). nat (nLen - i))") auto

declare CharToHex_loop.simps [simp del]

definition CharToHex :: "byte list \<Rightarrow> byte list \<Rightarrow> int \<Rightarrow> byte list res" where
  "CharToHex pchOut pchIn nLen = CharToHex_loop pchOut 0 pchIn 0 nLen"

subsection \<open>Decoding\<close>

text \<open>The value the loop gives one input character; \<open>pchIn[q]\<close> itself is not made upper case.\<close>

definition hex_tmp :: "byte \<Rightarrow> int" where
  "hex_tmp c =
     (if 65 \<le> sint (LowerToSupper c) \<and> sint (LowerToSupper c) \<le> 70
      then uint c - 65 + 10 else uint c - 48)"

definition store_at :: "byte list \<Rightarrow> int \<Rightarrow> byte \<Rightarrow> byte list res" where
  "store_at buf i b =
     (if 0 \<le> i \<and> i < int (length buf) then Inr (buf[nat i := b]) else Inl OOB_Write)"

text \<open>
  \<open>pos\<close> is \<open>q\<close> counted from the start of the array that \<open>pchIn\<close> points into. The condition
  \<open>q >= 0,st >= 0\<close> of the C loop is a comma expression: only \<open>st >= 0\<close> counts.
\<close>

function HexToChar_loop ::
  "byte list \<Rightarrow> byte list \<Rightarrow> int \<Rightarrow> int \<Rightarrow> int \<Rightarrow> int \<Rightarrow> int \<Rightarrow> byte list res" where
  "HexToChar_loop pchOut mem pos st kk an num =
     (if 0 \<le> st then
        bind_res (if kk = 2
                  then bind_res (store_at pchOut st (word_of_int num))
                         (\<lambda>out'. Inr (out', st - 1, 0, 1, 0))
                  else Inr (pchOut, st, num, an, kk))
          (\<lambda>(out', st', num', an', kk').
             bind_res (index_at mem pos) (\<lambda>c.
               HexToChar_loop out' mem (pos - 1) st' (kk' + 1) (an' * 16)
                 (num' + an' * hex_tmp c)))
      else Inr pchOut)"
  by pat_completeness auto
termination
  by (relation "measure (\<lambda>(out, mem, pos, st, kk, an, num). nat (pos + 1))")
    (auto simp: index_at_def split: if_splits)

declare HexToChar_loop.simps [simp del]

definition HexToChar :: "byte list \<Rightarrow> byte list \<Rightarrow> nat \<Rightarrow> int \<Rightarrow> byte list res" where
  "HexToChar pchOut mem base nInLen =
     HexToChar_loop pchOut mem (int base + (nInLen - 1)) (nInLen div 2 - 1) 0 1 0"

text \<open>
  C divides towards zero and \<open>div\<close> towards minus infinity; for a negative length both give a
  start value of \<open>st\<close> below zero, for other lengths they agree.
\<close>


subsection \<open>A byte and its two digits\<close>

definition hex_pair :: "byte \<Rightarrow> byte list" where
  "hex_pair b = [tohex ! unat (drop_bit 4 b), tohex ! unat (b AND 15)]"

definition unhex_pair :: "byte list \<Rightarrow> byte" where
  "unhex_pair cs = word_of_int (16 * hex_tmp (cs ! 0) + hex_tmp (cs ! 1))"

lemma length_hex_pair [simp]: "length (hex_pair b) = 2"
  by (simp add: hex_pair_def)

lemma hex_tmp_tohex_all: "list_all (\<lambda>n. hex_tmp (tohex ! n) = int n) [0..<16]"
  by code_simp

lemma hex_tmp_tohex: "n < 16 \<Longrightarrow> hex_tmp (tohex ! n) = int n"
  using hex_tmp_tohex_all by (auto simp: list_all_iff)

lemma hi_nibble_eq: "unat (drop_bit 4 (b :: byte)) = unat b div 16"
  by (simp add: drop_bit_eq_div unat_div)

lemma lo_nibble_eq: "unat ((b :: byte) AND 15) = unat b mod 16"
proof -
  have "(15 :: byte) = mask 4" by (simp add: mask_eq_exp_minus_1)
  then have "b AND 15 = take_bit 4 b" by (simp only: take_bit_eq_mask)
  then show ?thesis by (simp add: take_bit_eq_mod unat_mod)
qed

lemma hi_nibble_less: "unat (drop_bit 4 (b :: byte)) < 16"
  using byte_bound [of b] by (simp add: hi_nibble_eq)

lemma unhex_hex_pair: "unhex_pair (hex_pair b) = b"
proof -
  have "16 * int (unat b div 16) + int (unat b mod 16) = int (unat b)"
    by presburger
  then show ?thesis
    using hi_nibble_less [of b]
    by (simp add: unhex_pair_def hex_pair_def hi_nibble_eq lo_nibble_eq hex_tmp_tohex)
qed

interpretation hex_field: field_codec hex_pair unhex_pair 2
  by unfold_locales (simp_all add: unhex_hex_pair)

subsection \<open>What the encoder writes\<close>

lemma CharToHex_step:
  assumes "k < n" and "n \<le> length pchIn" and "pos + 2 \<le> length pchOut"
  shows "CharToHex_loop pchOut pos pchIn (int k) (int n) =
         CharToHex_loop (take pos pchOut @ hex_pair (pchIn ! k) @ drop (pos + 2) pchOut)
           (pos + 2) pchIn (int (Suc k)) (int n)"
proof -
  have "index_at pchIn (int k) = Inr (pchIn ! k)"
    using assms by (simp add: index_at_def)
  then show ?thesis
    using assms(1) write_two [OF assms(3)]
    by (simp add: CharToHex_loop.simps [of pchOut pos pchIn "int k" "int n"] hex_pair_def
        add.commute del: One_nat_def add_2_eq_Suc')
qed

lemma CharToHex_loop_result:
  assumes "k \<le> n" and "n \<le> length pchIn" and "pos + 2 * (n - k) \<le> length pchOut"
  shows "CharToHex_loop pchOut pos pchIn (int k) (int n) =
         Inr (take pos pchOut @ concat (map hex_pair (take (n - k) (drop k pchIn)))
              @ drop (pos + 2 * (n - k)) pchOut)"
  using assms
proof (induction "n - k" arbitrary: k pos pchOut)
  case 0
  then show ?case by (simp add: CharToHex_loop.simps)
next
  case (Suc d)
  then have k: "k < n" and d: "d = n - Suc k" by auto
  then have split: "take (n - k) (drop k pchIn) = pchIn ! k # take (n - Suc k) (drop (Suc k) pchIn)"
    using Suc.prems(2) by (simp add: take_Suc_conv_app_nth Cons_nth_drop_Suc [symmetric]
        Suc_diff_Suc [symmetric])
  let ?out = "take pos pchOut @ hex_pair (pchIn ! k) @ drop (pos + 2) pchOut"
  have "CharToHex_loop ?out (pos + 2) pchIn (int (Suc k)) (int n) =
        Inr (take (pos + 2) ?out @ concat (map hex_pair (take (n - Suc k) (drop (Suc k) pchIn)))
             @ drop (pos + 2 + 2 * (n - Suc k)) ?out)"
    using Suc.prems k by (intro Suc.hyps(1) d) auto
  moreover have "pos + 2 * (n - k) = pos + 2 + 2 * (n - Suc k)" using k by simp
  ultimately show ?case
    using Suc.prems k by (simp add: CharToHex_step split add.commute)
qed

lemma CharToHex_result:
  assumes "n \<le> length pchIn" and "2 * n \<le> length pchOut"
  shows "CharToHex pchOut pchIn (int n) =
         Inr (concat (map hex_pair (take n pchIn)) @ drop (2 * n) pchOut)"
  using CharToHex_loop_result [of 0 n pchIn 0 pchOut] assms by (simp add: CharToHex_def)

lemma CharToHex_loop_overflow:
  assumes "k \<le> n" and "n \<le> length pchIn" and "pos \<le> length pchOut"
    and "length pchOut < pos + 2 * (n - k)"
  shows "CharToHex_loop pchOut pos pchIn (int k) (int n) = Inl OOB_Write"
  using assms
proof (induction "n - k" arbitrary: k pos pchOut)
  case (Suc d)
  then have k: "k < n" and d: "d = n - Suc k" by auto
  show ?case
  proof (cases "pos + 2 \<le> length pchOut")
    case True
    let ?out = "take pos pchOut @ hex_pair (pchIn ! k) @ drop (pos + 2) pchOut"
    have "CharToHex_loop ?out (pos + 2) pchIn (int (Suc k)) (int n) = Inl OOB_Write"
      using Suc.prems k True by (intro Suc.hyps(1) d) auto
    with True k Suc.prems(2) show ?thesis by (simp add: CharToHex_step)
  next
    case False
    with k Suc.prems(2,3) show ?thesis
      by (auto simp: CharToHex_loop.simps [of pchOut pos pchIn "int k" "int n"]
          index_at_def write_at_def)
  qed
qed simp

subsection \<open>What the decoder computes\<close>

text \<open>
  Two iterations read a pair of digits from the end; the next one stores the byte before it reads
  on. After the last byte has been stored, the same iteration still reads one more character, the
  one in front of the first pair.
\<close>

lemma HexToChar_digits:
  assumes "0 \<le> st" and "a + 1 < length mem"
  shows "HexToChar_loop out mem (int a + 1) st 0 1 0 =
         HexToChar_loop out mem (int a - 1) st 2 256 (16 * hex_tmp (mem ! a) + hex_tmp (mem ! (a + 1)))"
proof -
  have "index_at mem (int a + 1) = Inr (mem ! (a + 1))" and "index_at mem (int a) = Inr (mem ! a)"
    using assms(2) by (simp_all add: index_at_def nat_add_distrib)
  with assms(1) show ?thesis
    by (simp add: HexToChar_loop.simps [of out mem "1 + int a" st 0 1 0]
        HexToChar_loop.simps [of out mem "int a" st 1 16] add.commute)
qed

lemma HexToChar_store:
  assumes "0 < m" and "m < length out"
  shows "HexToChar_loop out mem pos (int m) 2 an num =
         HexToChar_loop (out[m := word_of_int num]) mem pos (int m - 1) 0 1 0"
  using assms
  by (simp add: HexToChar_loop.simps [of out mem pos "int m"]
      HexToChar_loop.simps [of "out[m := word_of_int num]" mem pos "int m - 1"] store_at_def)

lemma HexToChar_store_first:
  assumes "0 < length out"
  shows "HexToChar_loop out mem pos 0 2 an num =
         bind_res (index_at mem pos) (\<lambda>c. Inr (out[0 := word_of_int num]))"
  using assms
  by (simp add: HexToChar_loop.simps [of out mem pos 0]
      HexToChar_loop.simps [of _ mem "pos - 1" "- 1"] store_at_def)

definition pair_at :: "byte list \<Rightarrow> nat \<Rightarrow> byte" where
  "pair_at mem a = unhex_pair [mem ! a, mem ! (a + 1)]"

lemma HexToChar_tail:
  assumes "m < length out" and "base + 2 * m \<le> length mem" and "0 < length mem"
  shows "HexToChar_loop out mem (int (base + 2 * m) - 1) (int m) 2 an num =
         (if base = 0 then Inl OOB_Read
          else Inr (map (\<lambda>j. pair_at mem (base + 2 * j)) [0..<m] @ [word_of_int num]
                    @ drop (Suc m) out))"
  using assms
proof (induction m arbitrary: out an num)
  case 0
  then show ?case
    by (cases out) (auto simp: HexToChar_store_first index_at_def)
next
  case (Suc m)
  let ?a = "base + 2 * m" and ?out = "out[Suc m := word_of_int num]"
  have "HexToChar_loop out mem (int (base + 2 * Suc m) - 1) (int (Suc m)) 2 an num =
        HexToChar_loop ?out mem (int ?a + 1) (int m) 0 1 0"
    using HexToChar_store [of "Suc m" out mem "int ?a + 1" an num] Suc.prems
    by (simp add: algebra_simps)
  also have "\<dots> = HexToChar_loop ?out mem (int ?a - 1) (int m) 2 256
      (16 * hex_tmp (mem ! ?a) + hex_tmp (mem ! (?a + 1)))"
    using Suc.prems by (intro HexToChar_digits) auto
  also have "\<dots> = (if base = 0 then Inl OOB_Read
      else Inr (map (\<lambda>j. pair_at mem (base + 2 * j)) [0..<m] @ [pair_at mem ?a] @ drop (Suc m) ?out))"
    using Suc.IH [of ?out 256 "16 * hex_tmp (mem ! ?a) + hex_tmp (mem ! (?a + 1))"] Suc.prems
    by (simp add: pair_at_def unhex_pair_def)
  also have "drop (Suc m) ?out = word_of_int num # drop (Suc (Suc m)) out"
    using Suc.prems by (simp add: drop_update_swap Cons_nth_drop_Suc [symmetric])
  finally show ?case by simp
qed

lemma HexToChar_even:
  assumes "0 < k" and "k \<le> length out" and "base + 2 * k \<le> length mem"
  shows "HexToChar out mem base (2 * int k) =
         (if base = 0 then Inl OOB_Read
          else Inr (map (\<lambda>j. pair_at mem (base + 2 * j)) [0..<k] @ drop k out))"
proof -
  obtain m where m: "k = Suc m" using assms(1) by (cases k) auto
  have mem: "mem \<noteq> []" using assms(1,3) by auto
  let ?a = "base + 2 * m"
  have "HexToChar out mem base (2 * int k) = HexToChar_loop out mem (int ?a + 1) (int m) 0 1 0"
    by (simp add: HexToChar_def m algebra_simps)
  also have "\<dots> = HexToChar_loop out mem (int ?a - 1) (int m) 2 256
      (16 * hex_tmp (mem ! ?a) + hex_tmp (mem ! (?a + 1)))"
    using assms m by (intro HexToChar_digits) auto
  also have "\<dots> = (if base = 0 then Inl OOB_Read
      else Inr (map (\<lambda>j. pair_at mem (base + 2 * j)) [0..<m] @ [pair_at mem ?a] @ drop (Suc m) out))"
    using HexToChar_tail [of m out base mem 256 "16 * hex_tmp (mem ! ?a) + hex_tmp (mem ! (?a + 1))"]
      assms m mem by (simp add: pair_at_def unhex_pair_def)
  finally show ?thesis by (simp add: m)
qed

text \<open>An odd length drops the first character, which then serves as the extra character read.\<close>

lemma HexToChar_odd:
  "HexToChar out mem base (2 * int k + 1) = HexToChar out mem (Suc base) (2 * int k)"
  by (simp add: HexToChar_def algebra_simps)

lemma nth_concat_pairs:
  assumes "\<And>b. length (f b) = (2 :: nat)"
  shows "j < length bs \<Longrightarrow> i < 2 \<Longrightarrow> (concat (map f bs) @ q) ! (2 * j + i) = f (bs ! j) ! i"
proof (induction bs arbitrary: j)
  case (Cons b bs)
  then show ?case using assms by (cases j) (auto simp: nth_append)
qed simp

lemma pair_at_concat:
  assumes "\<And>b. length (f b) = (2 :: nat)" and "length p = base" and "j < length bs"
  shows "pair_at (p @ concat (map f bs) @ q) (base + 2 * j) = unhex_pair (f (bs ! j))"
  using nth_concat_pairs [of f j bs 0 q] nth_concat_pairs [of f j bs 1 q] assms
  by (simp add: pair_at_def unhex_pair_def nth_append_right add.assoc)

lemma map_pair_at_concat:
  assumes "\<And>b. length (f b) = (2 :: nat)" and "length p = base"
  shows "map (\<lambda>j. pair_at (p @ concat (map f bs) @ q) (base + 2 * j)) [0..<length bs] =
         map (unhex_pair \<circ> f) bs"
  by (rule nth_equalityI) (simp_all add: pair_at_concat [OF assms])

lemma HexToChar_pairs:
  assumes "\<And>b. length (f b) = (2 :: nat)" and "length p = base" and "0 < base" and "bs \<noteq> []"
    and "length bs \<le> length out"
  shows "HexToChar out (p @ concat (map f bs) @ q) base (int (length (concat (map f bs)))) =
         Inr (map (unhex_pair \<circ> f) bs @ drop (length bs) out)"
proof -
  have len: "length (concat (map f bs)) = 2 * length bs"
    using assms(1) by (induction bs) auto
  show ?thesis
    using HexToChar_even [of "length bs" out base "p @ concat (map f bs) @ q"] assms
    by (simp add: len map_pair_at_concat)
qed

subsection \<open>Lower-case digits\<close>

definition hex_pair_lower :: "byte \<Rightarrow> byte list" where
  "hex_pair_lower b = map SupperToLower (hex_pair b)"

lemma hex_tmp_lower_all:
  "list_all (\<lambda>n. hex_tmp (SupperToLower (tohex ! n)) = int n + (if n < 10 then 0 else 32)) [0..<16]"
  by code_simp

lemma hex_tmp_lower:
  "n < 16 \<Longrightarrow> hex_tmp (SupperToLower (tohex ! n)) = int n + (if n < 10 then 0 else 32)"
  using hex_tmp_lower_all by (auto simp: list_all_iff)

lemma unhex_hex_pair_lower:
  "unhex_pair (hex_pair_lower b) = (if unat b mod 16 < 10 then b else b + 32)"
proof -
  have eq: "16 * int (unat b div 16) + int (unat b mod 16) = int (unat b)"
    by presburger
  have hi: "hex_tmp (SupperToLower (tohex ! unat (drop_bit 4 b))) =
      int (unat b div 16) + (if unat b div 16 < 10 then 0 else 32)"
    using hex_tmp_lower [OF hi_nibble_less, of b] by (simp add: hi_nibble_eq)
  have lo: "hex_tmp (SupperToLower (tohex ! unat (b AND 15))) =
      int (unat b mod 16) + (if unat b mod 16 < 10 then 0 else 32)"
    using hex_tmp_lower [of "unat (b AND 15)"] by (simp add: lo_nibble_eq)
  have "unhex_pair (hex_pair_lower b) =
      word_of_int (16 * int (unat b div 16) + int (unat b mod 16))
      + word_of_int (if unat b div 16 < 10 then 0 else 512)
      + word_of_int (if unat b mod 16 < 10 then 0 else 32)"
    by (simp add: unhex_pair_def hex_pair_lower_def hex_pair_def hi lo ac_simps flip: of_int_add)
  also have "\<dots> = b + 0 + word_of_int (if unat b mod 16 < 10 then 0 else 32)"
    unfolding eq by simp
  finally show ?thesis by simp
qed

lemma length_hex_pair_lower [simp]: "length (hex_pair_lower b) = 2"
  by (simp add: hex_pair_lower_def)

lemma upper_letters_all:
  "list_all (\<lambda>n. LowerToSupper (SupperToLower (word_of_nat n)) = word_of_nat n) [65..<91]"
  by code_simp

lemma lower_letters_all:
  "list_all (\<lambda>n. SupperToLower (LowerToSupper (word_of_nat n)) = word_of_nat n) [97..<123]"
  by code_simp

lemma letter_case_inverse:
  "unat c \<in> {65..<91} \<Longrightarrow> LowerToSupper (SupperToLower c) = c"
  "unat c \<in> {97..<123} \<Longrightarrow> SupperToLower (LowerToSupper c) = c"
  using bspec [OF upper_letters_all [unfolded list_all_iff set_upt], of "unat c"]
    bspec [OF lower_letters_all [unfolded list_all_iff set_upt], of "unat c"]
  by simp_all


subsection \<open>Properties\<close>

text \<open>C37: What \<open>CharToHex\<close> writes for a byte string is decoded by \<open>HexToChar\<close> to the same bytes,
  provided that one more byte can be read before the digits.\<close>

theorem hex_roundtrip:
  assumes "bs \<noteq> []" and "2 * length bs \<le> length out0" and "length bs \<le> length out1"
  shows "\<exists>hex. length hex = 2 * length bs \<and>
    CharToHex out0 bs (int (length bs)) = Inr (hex @ drop (2 * length bs) out0) \<and>
    HexToChar out1 (x # hex) 1 (int (length hex)) = Inr (bs @ drop (length bs) out1)"
proof (intro exI conjI)
  let ?hex = "concat (map hex_pair bs)"
  show "length ?hex = 2 * length bs" by (rule hex_field.length_concat_enc)
  show "CharToHex out0 bs (int (length bs)) = Inr (?hex @ drop (2 * length bs) out0)"
    using CharToHex_result [of "length bs" bs out0] assms(2) by simp
  show "HexToChar out1 (x # ?hex) 1 (int (length ?hex)) = Inr (bs @ drop (length bs) out1)"
    using HexToChar_pairs [of hex_pair "[x]" 1 bs out1 "[]"] assms(1,3)
    by (simp add: comp_def unhex_hex_pair)
qed

theorem hex_roundtrip_witness:
  "\<exists>hex. length hex = 4 \<and> CharToHex [0, 0, 0, 0, 7] [171, 9] 2 = Inr (hex @ [7]) \<and>
    HexToChar [5, 5] (0 # hex) 1 (int (length hex)) = Inr [171, 9]"
  using hex_roundtrip [of "[171, 9]" "[0, 0, 0, 0, 7]" "[5, 5]" 0] by simp

text \<open>\<open>CharToHex\<close> stays inside its buffers exactly when the output has room for two digits per
  byte; otherwise it writes past the end.\<close>

theorem CharToHex_bounds:
  assumes "n \<le> length pchIn"
  shows "CharToHex pchOut pchIn (int n) =
    (if 2 * n \<le> length pchOut then Inr (concat (map hex_pair (take n pchIn)) @ drop (2 * n) pchOut)
     else Inl OOB_Write)"
  using CharToHex_result [OF assms] CharToHex_loop_overflow [of 0 n pchIn 0 pchOut] assms
  by (simp add: CharToHex_def)

theorem CharToHex_bounds_witness:
  "CharToHex [0, 0, 0] [171, 9] (int 2) = Inl OOB_Write"
  using CharToHex_bounds [of 2 "[171, 9]" "[0, 0, 0]"] by simp

text \<open>For an even number of digits \<open>HexToChar\<close> reads \<open>pchIn[-1]\<close>: where the digits start at the
  beginning of their array, every such call is an out-of-bounds read.\<close>

theorem HexToChar_reads_before:
  assumes "0 < k" and "k \<le> length out" and "2 * k \<le> length digits"
  shows "HexToChar out digits 0 (2 * int k) = Inl OOB_Read"
  using HexToChar_even [of k out 0 digits] assms by simp

theorem HexToChar_reads_before_witness: "HexToChar [0] [52, 49] 0 2 = Inl OOB_Read"
  using HexToChar_reads_before [of 1 "[0]" "[52, 49]"] by simp

text \<open>Lower-case digits are taken for digits but decoded wrongly: a byte whose low digit is a
  letter comes out 32 too large, the others come out right (the error of the high digit is a multiple
  of 256).\<close>

theorem HexToChar_lower_case:
  assumes "bs \<noteq> []" and "length bs \<le> length out"
  shows "HexToChar out (x # concat (map hex_pair_lower bs)) 1 (2 * int (length bs)) =
    Inr (map (\<lambda>b. if unat b mod 16 < 10 then b else b + 32) bs @ drop (length bs) out)"
proof -
  have "length (concat (map hex_pair_lower bs)) = 2 * length bs" by (induction bs) auto
  then show ?thesis
    using HexToChar_pairs [of hex_pair_lower "[x]" 1 bs out "[]"] assms
    by (simp add: comp_def unhex_hex_pair_lower)
qed

theorem HexToChar_lower_case_witness:
  "HexToChar [0, 0] (0 # concat (map hex_pair_lower [171, 161])) 1 4 = Inr [203, 161]"
  using HexToChar_lower_case [of "[171, 161]" "[0, 0]" 0] by simp

end
