(* ===== verification/SendQueue.thy ===== *)
theory SendQueue
  imports SocketBase "HOL-Library.Sublist"
begin

section \<open>The queues of outgoing data\<close>

text \<open>
  The interface other parts use of the socket: \<open>outbox\<close>, data put in for a client waits behind
  what waits already and disturbs no other client; \<open>fifo\<close> adds the send thread, which takes the
  first. Then the threads together: the workers put data in, the send thread takes and transmits,
  the listen thread drops the queue of a client that has gone, in any order.
\<close>

subsection \<open>The interface\<close>

locale outbox =
  fixes put :: "int \<Rightarrow> 'd \<Rightarrow> 's \<Rightarrow> 's"
    and waiting :: "'s \<Rightarrow> int \<Rightarrow> 'd list"
  assumes waiting_put: "waiting (put c d s) b = (if b = c then waiting s c @ [d] else waiting s b)"
begin

lemma waiting_puts:
  "waiting (fold (\<lambda>(c, d). put c d) xs s) b = waiting s b @ map snd (filter (\<lambda>x. fst x = b) xs)"
  by (induction xs arbitrary: s) (auto simp: waiting_put)

end

locale fifo = outbox put waiting
  for put :: "int \<Rightarrow> 'd \<Rightarrow> 's \<Rightarrow> 's" and waiting :: "'s \<Rightarrow> int \<Rightarrow> 'd list" +
  fixes get :: "int \<Rightarrow> 's \<Rightarrow> 'd option \<times> 's"
  assumes get_result: "fst (get c s) = (case waiting s c of [] \<Rightarrow> None | d # ds \<Rightarrow> Some d)"
    and waiting_get: "waiting (snd (get c s)) b = (if b = c then tl (waiting s c) else waiting s b)"
begin

fun gets :: "int \<Rightarrow> nat \<Rightarrow> 's \<Rightarrow> 'd list" where
  "gets c 0 s = []"
| "gets c (Suc n) s =
     (case get c s of (None, s') \<Rightarrow> gets c n s' | (Some d, s') \<Rightarrow> d # gets c n s')"

lemma gets_take: "gets c n s = take n (waiting s c)"
proof (induction n arbitrary: s)
  case (Suc n)
  obtain r s' where g: "get c s = (r, s')" by fastforce
  have "r = (case waiting s c of [] \<Rightarrow> None | d # ds \<Rightarrow> Some d)" and "waiting s' c = tl (waiting s c)"
    using get_result [of c s] waiting_get [of c s c] g by simp_all
  with Suc.IH [of s'] g show ?case by (cases "waiting s c") simp_all
qed simp

text \<open>What was put in comes out, in order, behind what waited before.\<close>

lemma gets_after_puts:
  "gets b n (fold (\<lambda>(c, d). put c d) xs s) =
   take n (waiting s b @ map snd (filter (\<lambda>x. fst x = b) xs))"
  by (simp only: gets_take waiting_puts)

end

subsection \<open>The socket provides it\<close>

lemma list_of_push [simp]:
  "list_of (push_back c d s) b = (if b = c then list_of s c @ [d] else list_of s b)"
  by (simp add: list_of_def push_back_def update_conv')

lemma list_of_erase [simp]: "list_of (erase_list c s) b = (if b = c then [] else list_of s b)"
  by (simp add: list_of_def erase_list_def delete_conv')

lemma take_front_result:
  "fst (take_front c s) = (case list_of s c of [] \<Rightarrow> None | d # ds \<Rightarrow> Some d)"
  by (auto simp: take_front_def list_of_def split: list.splits)

lemma list_of_take:
  "list_of (snd (take_front c s)) b = (if b = c then tl (list_of s c) else list_of s b)"
  by (auto simp: take_front_def list_of_def update_conv' split: list.split option.split)

interpretation client_queues: fifo push_back list_of take_front
  by unfold_locales (simp_all add: take_front_result list_of_take)

text \<open>The map has one entry per client.\<close>

definition one_entry :: "socketBase \<Rightarrow> bool" where
  "one_entry s \<longleftrightarrow> distinct (map fst (m_sendDataList s))"

lemma one_entry_keeps:
  assumes "one_entry s"
  shows "one_entry (push_back c d s)" and "one_entry (snd (take_front c s))"
    and "one_entry (erase_list c s)"
  using assms
  by (simp_all add: one_entry_def push_back_def take_front_def erase_list_def distinct_update distinct_delete
      split: list.split)

lemma send_queues:
  assumes "0 < fd" and "can_alloc len" and "length bs = unat len"
  shows "send can_alloc fd (map Some bs @ q) len s =
    Inr (- 1, push_back fd \<lparr>sd_clientId = fd, sd_databuf = bs, sd_len = len\<rparr> s)"
  using assms by (simp add: send_def read_at_def)


subsection \<open>All threads together\<close>

text \<open>
  \<open>hand\<close> is the data the send thread has taken and not passed to \<open>::send\<close> yet; \<open>pushed\<close> (the data
  put in), \<open>handed\<close> (the data passed to \<open>::send\<close>) and \<open>wire\<close> (the bytes the kernel took) are history.
  The label of a transmission says how many bytes the kernel took, \<open>None\<close> for all of them.
\<close>

record net =
  sock :: socketBase
  hand :: "(int \<times> sendData) option"
  pushed :: "int \<Rightarrow> sendData list"
  handed :: "int \<Rightarrow> sendData list"
  wire :: "int \<Rightarrow> byte list"

datatype net_label =
    N_Send int sendData
  | N_Take int
  | N_Transmit "nat option"
  | N_Hup int

definition do_send :: "int \<Rightarrow> sendData \<Rightarrow> net \<Rightarrow> net" where
  "do_send fd d s = s\<lparr>sock := push_back fd d (sock s), pushed := (pushed s)(fd := pushed s fd @ [d])\<rparr>"

definition do_take :: "int \<Rightarrow> net \<Rightarrow> net" where
  "do_take fd s =
     (let (r, k) = take_front fd (sock s) in s\<lparr>sock := k, hand := map_option (Pair fd) r\<rparr>)"

definition do_transmit :: "int \<Rightarrow> sendData \<Rightarrow> nat option \<Rightarrow> net \<Rightarrow> net" where
  "do_transmit fd d n s =
     s\<lparr>hand := None, handed := (handed s)(fd := handed s fd @ [d]),
       wire := (wire s)(fd := wire s fd @
         (case n of None \<Rightarrow> sd_databuf d | Some k \<Rightarrow> take k (sd_databuf d)))\<rparr>"

inductive net_step :: "net \<Rightarrow> net_label \<Rightarrow> net \<Rightarrow> bool" where
  send: "net_step s (N_Send fd d) (do_send fd d s)"
| take: "hand s = None \<Longrightarrow> fd \<noteq> m_socket (sock s) \<Longrightarrow> net_step s (N_Take fd) (do_take fd s)"
| transmit: "hand s = Some (fd, d) \<Longrightarrow> net_step s (N_Transmit n) (do_transmit fd d n s)"
| hup: "fd \<noteq> m_socket (sock s) \<Longrightarrow> net_step s (N_Hup fd) (s\<lparr>sock := erase_list fd (sock s)\<rparr>)"

inductive_cases net_stepE: "net_step s l s'"

definition net_start :: "socketBase \<Rightarrow> net" where
  "net_start k =
     \<lparr>sock = k\<lparr>m_sendDataList := []\<rparr>, hand = None, pushed = (\<lambda>_. []), handed = (\<lambda>_. []), wire = (\<lambda>_. [])\<rparr>"

definition in_flight :: "net \<Rightarrow> int \<Rightarrow> sendData list" where
  "in_flight s fd =
     (case hand s of None \<Rightarrow> [] | Some (c, d) \<Rightarrow> if c = fd then [d] else []) @ list_of (sock s) fd"

lemma in_flight_send: "in_flight (do_send c d s) b = (if b = c then in_flight s c @ [d] else in_flight s b)"
  by (cases "b = c") (simp_all add: in_flight_def do_send_def)

lemma in_flight_take: "hand s = None \<Longrightarrow> in_flight (do_take c s) b = in_flight s b"
proof -
  assume none: "hand s = None"
  obtain r k where g: "take_front c (sock s) = (r, k)" by fastforce
  then have "r = (case list_of (sock s) c of [] \<Rightarrow> None | d # ds \<Rightarrow> Some d)"
    and "list_of k b = (if b = c then tl (list_of (sock s) c) else list_of (sock s) b)"
    using take_front_result [of c "sock s"] list_of_take [of c "sock s" b] by simp_all
  with none g show ?thesis
    by (cases "list_of (sock s) c") (auto simp: in_flight_def do_take_def)
qed

lemma in_flight_transmit:
  "hand s = Some (c, d) \<Longrightarrow> in_flight s b = (if b = c then [d] else []) @ list_of (sock s) b"
  "in_flight (do_transmit c d n s) b = list_of (sock s) b"
  by (auto simp: in_flight_def do_transmit_def)

text \<open>Nothing is sent twice, out of order or to another client; without a hang-up nothing is lost.\<close>

definition order_inv :: "net \<Rightarrow> bool" where
  "order_inv s \<longleftrightarrow> (\<forall>fd. subseq (handed s fd @ in_flight s fd) (pushed s fd))"

definition stream_inv :: "int \<Rightarrow> net \<Rightarrow> bool" where
  "stream_inv fd s \<longleftrightarrow> handed s fd @ in_flight s fd = pushed s fd"

definition bytes_inv :: "int \<Rightarrow> net \<Rightarrow> bool" where
  "bytes_inv fd s \<longleftrightarrow>
     wire s fd @ concat (map sd_databuf (in_flight s fd)) = concat (map sd_databuf (pushed s fd))"

lemma do_send_fields [simp]:
  "handed (do_send c d s) = handed s" "wire (do_send c d s) = wire s"
  "pushed (do_send c d s) = (pushed s)(c := pushed s c @ [d])"
  by (simp_all add: do_send_def)

lemma do_take_fields [simp]:
  "handed (do_take c s) = handed s" "wire (do_take c s) = wire s" "pushed (do_take c s) = pushed s"
  by (simp_all add: do_take_def split: prod.split)

lemma do_transmit_fields [simp]:
  "handed (do_transmit c d n s) = (handed s)(c := handed s c @ [d])"
  "pushed (do_transmit c d n s) = pushed s"
  "wire (do_transmit c d n s) = (wire s)(c := wire s c @
     (case n of None \<Rightarrow> sd_databuf d | Some k \<Rightarrow> take k (sd_databuf d)))"
  by (simp_all add: do_transmit_def)

lemma in_flight_hup:
  "subseq (in_flight (s\<lparr>sock := erase_list c (sock s)\<rparr>) b) (in_flight s b)"
  "b \<noteq> c \<Longrightarrow> in_flight (s\<lparr>sock := erase_list c (sock s)\<rparr>) b = in_flight s b"
  by (auto simp: in_flight_def split: option.split)

lemma transmit_moves:
  "hand s = Some (c, d) \<Longrightarrow>
   (if b = c then handed s c @ [d] else handed s b) @ in_flight (do_transmit c d n s) b =
   handed s b @ in_flight s b"
  by (simp add: in_flight_transmit)

lemma order_step: "order_inv s \<Longrightarrow> net_step s l s' \<Longrightarrow> True \<Longrightarrow> order_inv s'"
proof (erule net_stepE)
  fix fd d
  assume "order_inv s" and s': "s' = do_send fd d s"
  then have "subseq (handed s b @ in_flight s b) (pushed s b)" for b by (simp add: order_inv_def)
  then show "order_inv s'"
    using list_emb_append_mono [of "(=)" "handed s fd @ in_flight s fd" "pushed s fd" "[d]" "[d]"]
    by (simp add: order_inv_def s' in_flight_send)
next
  fix fd
  assume "order_inv s" and s': "s' = s\<lparr>sock := erase_list fd (sock s)\<rparr>"
  then have old: "subseq (handed s b @ in_flight s b) (pushed s b)" for b by (simp add: order_inv_def)
  have "subseq (handed s b @ in_flight s' b) (handed s b @ in_flight s b)" for b
    unfolding s' by (intro list_emb_append_mono in_flight_hup(1)) simp
  then have "subseq (handed s b @ in_flight s' b) (pushed s b)" for b
    using old subseq_order.trans by blast
  then show "order_inv s'" by (simp add: order_inv_def s')
next
  fix fd d n
  assume "order_inv s" and s': "s' = do_transmit fd d n s" and "hand s = Some (fd, d)"
  then show "order_inv s'" by (simp add: order_inv_def s' transmit_moves)
qed (simp add: order_inv_def in_flight_take)

fun stays :: "int \<Rightarrow> net_label \<Rightarrow> bool" where
  "stays fd (N_Hup c) \<longleftrightarrow> c \<noteq> fd"
| "stays fd _ \<longleftrightarrow> True"

fun whole :: "int \<Rightarrow> net_label \<Rightarrow> bool" where
  "whole fd (N_Hup c) \<longleftrightarrow> c \<noteq> fd"
| "whole fd (N_Transmit n) \<longleftrightarrow> n = None"
| "whole fd _ \<longleftrightarrow> True"

lemma stream_step: "stream_inv fd s \<Longrightarrow> net_step s l s' \<Longrightarrow> stays fd l \<Longrightarrow> stream_inv fd s'"
  by (erule net_stepE)
    (auto simp: stream_inv_def in_flight_take in_flight_send in_flight_hup(2) in_flight_transmit)

lemma bytes_step: "bytes_inv fd s \<Longrightarrow> net_step s l s' \<Longrightarrow> whole fd l \<Longrightarrow> bytes_inv fd s'"
  by (erule net_stepE)
    (auto simp: bytes_inv_def in_flight_take in_flight_send in_flight_hup(2) in_flight_transmit
      simp flip: append_assoc)

interpretation order: step_invariant net_step "\<lambda>_. True" order_inv
  by unfold_locales (rule order_step)

interpretation stream: step_invariant net_step "stays fd" "stream_inv fd" for fd
  by unfold_locales (rule stream_step)

interpretation bytes: step_invariant net_step "whole fd" "bytes_inv fd" for fd
  by unfold_locales (rule bytes_step)

lemma in_flight_start [simp]: "in_flight (net_start k) fd = []"
  by (simp add: in_flight_def net_start_def list_of_def)

lemma inv_start: "order_inv (net_start k)" "stream_inv fd (net_start k)" "bytes_inv fd (net_start k)"
  by (simp_all add: order_inv_def stream_inv_def bytes_inv_def) (simp_all add: net_start_def)


subsection \<open>The send thread on its own\<close>

text \<open>Every queued datum has the length it says, and every client one queue.\<close>

definition datum_ok :: "sendData \<Rightarrow> bool" where
  "datum_ok d \<longleftrightarrow> unat (sd_len d) = length (sd_databuf d)"

definition queues_ok :: "socketBase \<Rightarrow> bool" where
  "queues_ok s \<longleftrightarrow> one_entry s \<and> (\<forall>c. list_all datum_ok (list_of s c))"

lemma take_front_some:
  assumes "take_front c s = (Some d, k)"
  shows "list_of s c = d # list_of k c"
  using take_front_result [of c s] list_of_take [of c s c] assms
  by (cases "list_of s c") simp_all

lemma in_set_tl: "x \<in> set (tl xs) \<Longrightarrow> x \<in> set xs"
  by (cases xs) simp_all

lemma queues_ok_keeps:
  assumes "queues_ok s"
  shows "datum_ok d \<Longrightarrow> queues_ok (push_back c d s)" and "queues_ok (snd (take_front c s))"
    and "queues_ok (erase_list c s)"
  using assms one_entry_keeps [of s]
  by (auto simp: queues_ok_def list_of_take list_all_iff dest: in_set_tl)

lemma send_event_ok:
  assumes "queues_ok s"
  shows "case send_event ev s w of Inl e \<Rightarrow> e = Blocked | Inr (s1, w1) \<Rightarrow> queues_ok s1"
proof (cases "take_front (fst ev) s")
  case (Pair r k)
  then have k: "queues_ok k" using queues_ok_keeps(2) [OF assms, of "fst ev"] by simp
  show ?thesis
  proof (cases r)
    case None
    with Pair k assms show ?thesis by (auto simp: send_event_def Let_def split: prod.split)
  next
    case (Some d)
    then have "datum_ok d"
    proof -
      have "list_of s (fst ev) = d # list_of k (fst ev)" using take_front_some Pair Some by blast
      moreover have "list_all datum_ok (list_of s (fst ev))" using assms by (simp add: queues_ok_def)
      ultimately show ?thesis by simp
    qed
    then have "read_at (sd_databuf d) 0 (unat (sd_len d)) = Inr (sd_databuf d)"
      by (simp add: read_at_def datum_ok_def)
    with Pair Some k assms show ?thesis
      by (auto simp: send_event_def Let_def sys_int_def sys_do_def split: prod.split list.split)
  qed
qed

lemma each_send_event_ok:
  "queues_ok s \<Longrightarrow> case each_event send_event evs s w of Inl e \<Rightarrow> e = Blocked | Inr (s1, w1) \<Rightarrow> queues_ok s1"
proof (induction evs arbitrary: s w)
  case (Cons ev evs)
  from send_event_ok [OF Cons.prems, of ev w] Cons.IH show ?case
    by (cases "send_event ev s w") auto
qed simp

lemma listen_event_ok:
  assumes "queues_ok s"
  shows "case listen_event ev s w of Inl e \<Rightarrow> e = Blocked | Inr (s1, w1) \<Rightarrow> queues_ok s1"
  using assms queues_ok_keeps(3) [OF assms]
  by (auto simp: listen_event_def Let_def accept_def sys_int_def sys_do_def split: prod.split list.split)

lemma each_listen_event_ok:
  "queues_ok s \<Longrightarrow> case each_event listen_event evs s w of Inl e \<Rightarrow> e = Blocked | Inr (s1, w1) \<Rightarrow> queues_ok s1"
proof (induction evs arbitrary: s w)
  case (Cons ev evs)
  from listen_event_ok [OF Cons.prems, of ev w] Cons.IH show ?case
    by (cases "listen_event ev s w") auto
qed simp

lemma send_thread_ok:
  "queues_ok s \<Longrightarrow> case threadSendFun s w of Inl e \<Rightarrow> e = Blocked | Inr (s', w') \<Rightarrow> queues_ok s'"
proof (induction "length (answers w)" arbitrary: s w rule: less_induct)
  case less
  show ?case
  proof (cases "sys_do (Sys_epoll_wait (m_epfd s)) w")
    case (Inl e)
    then show ?thesis by (auto simp: threadSendFun.simps sys_do_def split: list.splits)
  next
    case (Inr x)
    obtain a w1 where a: "sys_do (Sys_epoll_wait (m_epfd s)) w = Inr (a, w1)" using Inr by (cases x) simp
    note evs = each_send_event_ok [OF less.prems, of "events_of a" w1]
    show ?thesis
    proof (cases "each_event send_event (events_of a) s w1")
      case (Inl e)
      with a evs less.prems show ?thesis by (auto simp: threadSendFun.simps [of s w])
    next
      case (Inr y)
      obtain s2 w2 where y: "y = (s2, w2)" by fastforce
      have "length (answers w2) < length (answers w)"
        using each_event_shortens [OF send_event_shortens Inr [unfolded y]] sys_do_shorter [OF a] by simp
      with less.hyps [of w2 s2] a evs less.prems Inr y show ?thesis
        by (simp add: threadSendFun.simps [of s w])
    qed
  qed
qed

lemma listen_thread_ok:
  "queues_ok s \<Longrightarrow> case threadListenFun s w of Inl e \<Rightarrow> e = Blocked | Inr (s', w') \<Rightarrow> queues_ok s'"
proof (induction "length (answers w)" arbitrary: s w rule: less_induct)
  case less
  show ?case
  proof (cases "sys_do (Sys_epoll_wait (m_epfd s)) w")
    case (Inl e)
    then show ?thesis by (auto simp: threadListenFun.simps sys_do_def split: list.splits)
  next
    case (Inr x)
    obtain a w1 where a: "sys_do (Sys_epoll_wait (m_epfd s)) w = Inr (a, w1)" using Inr by (cases x) simp
    note evs = each_listen_event_ok [OF less.prems, of "events_of a" w1]
    show ?thesis
    proof (cases "each_event listen_event (events_of a) s w1")
      case (Inl e)
      with a evs less.prems show ?thesis by (auto simp: threadListenFun.simps [of s w])
    next
      case (Inr y)
      obtain s2 w2 where y: "y = (s2, w2)" by fastforce
      have "length (answers w2) < length (answers w)"
        using each_event_shortens [OF listen_event_shortens Inr [unfolded y]] sys_do_shorter [OF a] by simp
      with less.hyps [of w2 s2] a evs less.prems Inr y show ?thesis
        by (simp add: threadListenFun.simps [of s w])
    qed
  qed
qed

text \<open>The treatment of one \<open>EPOLLOUT\<close> event is a \<open>N_Take\<close>, followed by a \<open>N_Transmit\<close> if there is a datum.\<close>

lemma send_event_steps:
  assumes "hand s = None" and "fd \<noteq> m_socket (sock s)" and "has_flag events EPOLLOUT"
    and "queues_ok (sock s)" and "send_event (fd, events) (sock s) w = Inr (k, w')"
  obtains s' where "reachable net_step (stays b) s s'" and "sock s' = k" and "hand s' = None"
proof -
  have start: "reachable net_step (stays b) s s" by (rule reachable.start)
  have t: "net_step s (N_Take fd) (do_take fd s)" using assms(1,2) by (rule net_step.take)
  have r1: "reachable net_step (stays b) s (do_take fd s)"
    using start t by (rule reachable.step) simp
  obtain r k1 where g: "take_front fd (sock s) = (r, k1)" by fastforce
  show thesis
  proof (cases r)
    case None
    with g assms have "sock (do_take fd s) = k" "hand (do_take fd s) = None"
      by (simp_all add: send_event_def do_take_def)
    with r1 show thesis by (rule that)
  next
    case (Some d)
    with g have h: "hand (do_take fd s) = Some (fd, d)" by (simp add: do_take_def)
    have "net_step (do_take fd s) (N_Transmit None) (do_transmit fd d None (do_take fd s))"
      using h by (rule net_step.transmit)
    with r1 have r2: "reachable net_step (stays b) s (do_transmit fd d None (do_take fd s))"
      by (rule reachable.step) simp
    have "k1 = k"
      using g Some assms by (auto simp: send_event_def bind_res_Inr_iff)
    with g have "sock (do_transmit fd d None (do_take fd s)) = k" by (simp add: do_transmit_def do_take_def)
    with r2 show thesis by (rule that) (simp add: do_transmit_def)
  qed
qed


subsection \<open>Properties\<close>

text \<open>C21: With any interleaving of workers, send thread and listen thread, what has been passed to the
  kernel for a client, what the send thread holds and what waits, one after the other, is a
  subsequence of what was put in for that client: nothing is sent twice, reordered or misdirected.\<close>

theorem sends_in_order:
  assumes "reachable net_step (\<lambda>_. True) (net_start k) s"
  shows "subseq (handed s fd @ in_flight s fd) (pushed s fd)"
  using order.reachable_inv [OF assms] inv_start by (simp add: order_inv_def)

definition a_datum :: sendData where
  "a_datum = \<lparr>sd_clientId = 5, sd_databuf = [1, 2, 3], sd_len = 3\<rparr>"

definition sent_one :: net where
  "sent_one = do_transmit 5 a_datum None (do_take 5 (do_send 5 a_datum (net_start (new_socketBase True 0))))"

lemma sent_one_reachable:
  "reachable net_step (whole 5) (net_start (new_socketBase True 0)) sent_one"
proof -
  let ?s0 = "net_start (new_socketBase True 0)"
  let ?s1 = "do_send 5 a_datum ?s0"
  have 1: "net_step ?s0 (N_Send 5 a_datum) ?s1" by (rule net_step.send)
  have 2: "net_step ?s1 (N_Take 5) (do_take 5 ?s1)"
    by (rule net_step.take) (simp_all add: do_send_def net_start_def new_socketBase_def push_back_def)
  have h: "hand (do_take 5 ?s1) = Some (5, a_datum)" by code_simp
  have 3: "net_step (do_take 5 ?s1) (N_Transmit None) sent_one"
    unfolding sent_one_def using h by (rule net_step.transmit)
  have "reachable net_step (whole 5) ?s0 (do_take 5 ?s1)"
  proof -
    have "reachable net_step (whole 5) ?s0 ?s1" using reachable.start 1 by (rule reachable.step) simp
    then show ?thesis using 2 by (rule reachable.step) simp
  qed
  then show ?thesis using 3 by (rule reachable.step) simp
qed

theorem sends_in_order_witness: "subseq (handed sent_one 5 @ in_flight sent_one 5) (pushed sent_one 5)"
  by (rule sends_in_order, rule reachable_mono [OF sent_one_reachable]) simp

text \<open>C20: For a client whose connection has not hung up, nothing is lost: what was put in is exactly what
  has been passed to the kernel, then what the send thread holds, then what waits.\<close>

theorem sends_complete:
  assumes "reachable net_step (stays fd) (net_start k) s"
  shows "handed s fd @ in_flight s fd = pushed s fd"
  using stream.reachable_inv [OF assms] inv_start by (simp add: stream_inv_def)

theorem sends_complete_witness: "handed sent_one 5 @ in_flight sent_one 5 = pushed sent_one 5"
proof (rule sends_complete, rule reachable_mono [OF sent_one_reachable])
  show "whole 5 l \<Longrightarrow> stays 5 l" for l by (cases l) simp_all
qed



text \<open>When the kernel takes only part of a datum, the rest is gone: neither on the wire nor in flight,
  the pipe is short by it for good.\<close>

theorem short_send_loses:
  assumes "bytes_inv fd s" and "hand s = Some (fd, d)" and "k < length (sd_databuf d)"
    and "net_step s (N_Transmit (Some k)) s'"
  shows "length (wire s' fd @ concat (map sd_databuf (in_flight s' fd))) + (length (sd_databuf d) - k) =
    length (concat (map sd_databuf (pushed s' fd)))"
proof -
  from assms(2,4) have s': "s' = do_transmit fd d (Some k) s" by (auto elim: net_stepE)
  have "length (wire s fd @ concat (map sd_databuf (in_flight s fd))) = length (concat (map sd_databuf (pushed s fd)))"
    using assms(1) by (simp only: bytes_inv_def)
  with assms(3) show ?thesis by (simp add: s' in_flight_transmit(1) [OF assms(2)] in_flight_transmit(2))
qed

definition taken_one :: net where
  "taken_one = do_take 5 (do_send 5 a_datum (net_start (new_socketBase True 0)))"

theorem short_send_loses_witness:
  "length (wire (do_transmit 5 a_datum (Some 1) taken_one) 5 @
     concat (map sd_databuf (in_flight (do_transmit 5 a_datum (Some 1) taken_one) 5))) + 2 = 3"
proof -
  have "bytes_inv 5 taken_one" and h: "hand taken_one = Some (5, a_datum)"
    and l: "length (sd_databuf a_datum) = 3"
    and p: "length (concat (map sd_databuf (pushed (do_transmit 5 a_datum (Some 1) taken_one) 5))) = 3"
    by code_simp+
  moreover have "net_step taken_one (N_Transmit (Some 1)) (do_transmit 5 a_datum (Some 1) taken_one)"
    using h by (rule net_step.transmit)
  ultimately show ?thesis
    using short_send_loses [of 5 taken_one a_datum 1 "do_transmit 5 a_datum (Some 1) taken_one"] by simp
qed

text \<open>C23: The listen and send threads never read outside a datum, whatever the kernel answers: from
  consistent queues they only ever wait for the kernel, and leave the queues consistent.\<close>

theorem queue_threads_safe:
  assumes "queues_ok s"
  shows "(case threadSendFun s w of Inl e \<Rightarrow> e = Blocked | Inr (s', w') \<Rightarrow> queues_ok s') \<and>
    (case threadListenFun s w of Inl e \<Rightarrow> e = Blocked | Inr (s', w') \<Rightarrow> queues_ok s')"
  using send_thread_ok [OF assms] listen_thread_ok [OF assms] by simp

theorem queue_threads_safe_witness:
  "case threadSendFun (push_back 5 a_datum (new_socketBase True 4)) (os_of [Events [(5, EPOLLOUT)], Ret 3, Ret (- 1)]) of
     Inl e \<Rightarrow> e = Blocked | Inr (s', w') \<Rightarrow> queues_ok s'"
proof -
  have "queues_ok (push_back 5 a_datum (new_socketBase True 4))"
    by (intro queues_ok_keeps(1)) (simp_all add: queues_ok_def one_entry_def new_socketBase_def list_of_def
        datum_ok_def a_datum_def)
  from queue_threads_safe [OF this] show ?thesis by simp
qed

text \<open>\<open>send\<close> queues a copy of the data for the client and always returns -1, the value its other
  operations return for a failure.\<close>

theorem send_reports_failure:
  assumes "0 < fd" and "can_alloc len" and "length bs = unat len"
  shows "\<exists>k. send can_alloc fd (map Some bs @ q) len s = Inr (- 1, k) \<and>
    (\<forall>c. list_of k c = list_of s c @ (if c = fd then [\<lparr>sd_clientId = fd, sd_databuf = bs, sd_len = len\<rparr>] else [])) \<and>
    (queues_ok s \<longrightarrow> queues_ok k)"
  using send_queues [of fd can_alloc len bs q s, OF assms] assms(3) queues_ok_keeps(1) by (simp add: datum_ok_def)

theorem send_reports_failure_witness:
  "\<exists>k. send (\<lambda>n. True) 5 [Some 1, Some 2] 2 (new_socketBase True 0) = Inr (- 1, k) \<and>
    list_of k 5 = [\<lparr>sd_clientId = 5, sd_databuf = [1, 2], sd_len = 2\<rparr>]"
  using send_reports_failure [of 5 "\<lambda>n. True" 2 "[1, 2]" "[]" "new_socketBase True 0"]
  by (auto simp: list_of_def new_socketBase_def)



end
