(* ===== verification/TaskProcessor.thy ===== *)
theory TaskProcessor
  imports Reassembly Protocol HexChar SendQueue
begin

section \<open>Answering requests: \<open>taskController::onTaskProcessor\<close>\<close>

text \<open>
  A worker calls \<open>onTaskProcessor\<close> with the \<open>taskData\<close> of a complete message: it parses the request,
  builds the response of the command, dumps it for the log and queues it for the client. \<open>send_op\<close>
  is \<open>m_socket->send\<close>; for the real socket it is \<open>send\<close> of the theory SocketBase. The sleeps that
  stand for the work of the commands are left out, and so is the destructor's shutdown of the
  logging library. \<open>cmd0\<close> is what the uninitialised local \<open>cmd\<close> holds before it is written.
\<close>

definition api_data :: "byte \<Rightarrow> byte list" where
  "api_data fill = replicate 1024 fill"

text \<open>One case of the switch; the second builder is for a first builder that fails.\<close>

definition api_case :: "u32 \<Rightarrow> ENUM_API_COMMAND \<Rightarrow> byte \<Rightarrow> byte list \<Rightarrow> byte list res" where
  "api_case msgId cmd fill resp =
     bind_res (makeAPIResponse msgId cmd (Some (map Some (api_data fill))) 1024 resp) (\<lambda>(r, resp1).
       if r \<noteq> 0
       then bind_res (makeErrResponse msgId cmd EPE_Make_ERROR resp1) (\<lambda>(_, resp2). Inr resp2)
       else Inr resp1)"

definition respond :: "u32 \<Rightarrow> u32 \<Rightarrow> byte list res" where
  "respond msgId cmd =
     (if cmd = api_code EAC_API1 then api_case msgId EAC_API1 65 []
      else if cmd = api_code EAC_API2 then api_case msgId EAC_API2 66 []
      else Inr [])"

definition hex_log :: "byte list \<Rightarrow> byte list res" where
  "hex_log resp = CharToHex (replicate (2 * length resp + 1) 0) resp (int (length resp))"

text \<open>\<open>threadTaskWorker::onTaskProcessor\<close>, on a worker that changes a state of type \<open>'s\<close>.\<close>

type_synonym ('d, 's) threadTaskWorker = "'d option \<Rightarrow> 's \<Rightarrow> 's res"

definition onTaskProcessor ::
  "(int \<Rightarrow> cell list \<Rightarrow> u32 \<Rightarrow> 's \<Rightarrow> (int \<times> 's) res) \<Rightarrow> bool \<Rightarrow> u32 \<Rightarrow> (taskData, 's) threadTaskWorker" where
  "onTaskProcessor send_op has_socket cmd0 param s =
     (case param of
        None \<Rightarrow> Inr s
      | Some data \<Rightarrow>
          bind_res (parseRequest (Some (m_databuf data)) (m_len data)
                     \<lparr>rq_msgId = 0, rq_cmd = cmd0, rq_cmdData = None, rq_cmdDataLen = 0\<rparr>) (\<lambda>(r, out).
          if r = - 1 then Inr s
          else
            bind_res (respond (rq_msgId out) (rq_cmd out)) (\<lambda>resp.
            if has_socket then
              bind_res (hex_log resp) (\<lambda>logData.
              bind_res (send_op (m_clientId data) (data_ptr resp) (word_of_nat (length resp)) s) (\<lambda>(_, s').
              Inr s'))
            else Inr s)))"


subsection \<open>What is sent for a request\<close>

definition api_fill :: "ENUM_API_COMMAND \<Rightarrow> byte" where
  "api_fill c = (case c of EAC_API1 \<Rightarrow> 65 | EAC_API2 \<Rightarrow> 66)"

text \<open>The response as a function of the two fields the code looks at.\<close>

definition answer_bytes :: "u32 \<Rightarrow> u32 \<Rightarrow> byte list" where
  "answer_bytes msgId cmd =
     (if cmd = 0 then response_bytes msgId EAC_API1 (api_data 65)
      else if cmd = 1 then response_bytes msgId EAC_API2 (api_data 66) else [])"

lemma api_case_result: "api_case msgId c fill resp = Inr (response_bytes msgId c (api_data fill))"
  using makeAPIResponse_result [of "api_data fill" 1024 msgId c "[]" resp]
  by (simp add: api_case_def api_data_def)

lemma respond_result: "respond msgId cmd = Inr (answer_bytes msgId cmd)"
  by (simp add: respond_def api_case_result answer_bytes_def)

lemma answer_length: "length (answer_bytes msgId cmd) \<le> 1044"
  by (simp add: answer_bytes_def api_data_def)

lemma answer_api: "answer_bytes msgId (api_code c) = response_bytes msgId c (api_data (api_fill c))"
  by (cases c) (simp_all add: answer_bytes_def api_fill_def)

lemma hex_log_result: "hex_log resp = Inr (concat (map hex_pair resp) @ [0])"
proof -
  have "replicate (2 * length resp + 1) 0 = replicate (2 * length resp) (0 :: byte) @ [0]"
    by (simp add: replicate_append_same)
  then show ?thesis
    using CharToHex_result [of "length resp" resp "replicate (2 * length resp) 0 @ [0]"]
    by (simp add: hex_log_def del: replicate.simps)
qed

lemma full_map: "full cs \<Longrightarrow> \<exists>bs. cs = map Some bs"
  by (induction cs) (auto simp: full_def Cons_eq_map_conv)

text \<open>The three outcomes for a complete message.\<close>

definition task_bytes :: "taskData \<Rightarrow> byte list" where
  "task_bytes d = map the (m_databuf d)"

lemma task_ok_bytes: "task_ok d \<Longrightarrow> m_databuf d = map Some (task_bytes d) \<and> length (task_bytes d) = unat (m_len d)"
  using full_map [of "m_databuf d"] by (auto simp: task_ok_def task_bytes_def comp_def)

lemma short_task:
  "unat (m_len d) < 16 \<Longrightarrow> onTaskProcessor send_op has_socket cmd0 (Some d) s = Inr s"
  by (simp add: onTaskProcessor_def parseRequest_short word_less_nat_alt)

lemma answered_task:
  assumes "task_ok d" and "16 \<le> unat (m_len d)"
  shows "onTaskProcessor send_op True cmd0 (Some d) s =
    (let resp = answer_bytes (field_at (task_bytes d) 1) (field_at (task_bytes d) 2)
     in bind_res (send_op (m_clientId d) (data_ptr resp) (word_of_nat (length resp)) s)
          (\<lambda>(_, s'). Inr s'))"
proof -
  have "(16 :: u32) \<le> m_len d" using assms(2) by (simp add: word_le_nat_alt)
  then show ?thesis
    using assms task_ok_bytes [OF assms(1)]
      parseRequest_ok [of "m_len d" "task_bytes d" "[]" "\<lparr>rq_msgId = 0, rq_cmd = cmd0, rq_cmdData = None, rq_cmdDataLen = 0\<rparr>"]
    by (simp add: onTaskProcessor_def respond_result hex_log_result Let_def)
qed

subsection \<open>The controller as a client of the socket\<close>

text \<open>What a worker puts in for a task.\<close>

definition answer_to :: "taskData \<Rightarrow> sendData list" where
  "answer_to d =
     (if unat (m_len d) < 16 \<or> m_clientId d \<le> 0 then []
      else let resp = answer_bytes (field_at (task_bytes d) 1) (field_at (task_bytes d) 2)
           in [\<lparr>sd_clientId = m_clientId d, sd_databuf = resp, sd_len = word_of_nat (length resp)\<rparr>])"

lemma processed_task:
  assumes "task_ok d" and "grants can_alloc 1044"
  shows "onTaskProcessor (send can_alloc) True cmd0 (Some d) s =
    Inr (fold (push_back (m_clientId d)) (answer_to d) s)"
proof (cases "unat (m_len d) < 16")
  case True
  then show ?thesis by (simp add: short_task answer_to_def)
next
  case False
  let ?resp = "answer_bytes (field_at (task_bytes d) 1) (field_at (task_bytes d) 2)"
  have len: "unat (word_of_nat (length ?resp) :: u32) = length ?resp"
    by (rule unat32_of_nat, rule order.strict_trans1 [OF answer_length]) simp
  have "can_alloc (word_of_nat (length ?resp))"
    using assms(2) len answer_length by (simp add: grants_def)
  then have "0 < m_clientId d \<Longrightarrow> send can_alloc (m_clientId d) (data_ptr ?resp) (word_of_nat (length ?resp)) s =
      Inr (- 1, fold (push_back (m_clientId d)) (answer_to d) s)"
    using False len
    by (simp add: data_ptr_def send_queues answer_to_def Let_def)
  moreover have "m_clientId d \<le> 0 \<Longrightarrow> send can_alloc (m_clientId d) (data_ptr ?resp) (word_of_nat (length ?resp)) s =
      Inr (- 1, fold (push_back (m_clientId d)) (answer_to d) s)"
    by (simp add: send_def answer_to_def)
  ultimately show ?thesis
    using answered_task [OF assms(1), of "send can_alloc" cmd0 s] False
    by (cases "0 < m_clientId d") (simp_all add: Let_def)
qed

text \<open>The tasks the workers run, in the order they finish.\<close>

fun run_all :: "(u32 \<Rightarrow> bool) \<Rightarrow> taskData list \<Rightarrow> socketBase \<Rightarrow> socketBase res" where
  "run_all can_alloc [] s = Inr s"
| "run_all can_alloc (d # ds) s =
     bind_res (onTaskProcessor (send can_alloc) True 0 (Some d) s) (run_all can_alloc ds)"

definition answers_to :: "taskData list \<Rightarrow> (int \<times> sendData) list" where
  "answers_to ds = concat (map (\<lambda>d. map (Pair (m_clientId d)) (answer_to d)) ds)"

lemma fold_push: "fold (\<lambda>(c, x). push_back c x) (map (Pair c) xs) s = fold (push_back c) xs s"
  by (induction xs arbitrary: s) simp_all

lemma list_of_fold_push:
  "list_of (fold (push_back b) xs s) c = list_of s c @ (if c = b then xs else [])"
  using client_queues.waiting_puts [of "map (Pair b) xs" s c]
  by (simp only: fold_push) (simp add: filter_map comp_def)

lemma run_all_result:
  assumes "grants can_alloc 1044"
  shows "list_all task_ok ds \<Longrightarrow>
    run_all can_alloc ds s = Inr (fold (\<lambda>(c, x). push_back c x) (answers_to ds) s)"
  by (induction ds arbitrary: s) (simp_all add: processed_task [OF _ assms] answers_to_def fold_push)

lemma answers_of_client:
  "map snd (filter (\<lambda>x. fst x = c) (answers_to ds)) =
   concat (map answer_to (filter (\<lambda>d. m_clientId d = c) ds))"
  by (induction ds) (auto simp: answers_to_def filter_map comp_def)

lemma run_all_queue:
  assumes "grants can_alloc 1044" and "list_all task_ok ds"
  obtains s' where "run_all can_alloc ds s = Inr s'"
    and "\<And>c. list_of s' c = list_of s c @ concat (map answer_to (filter (\<lambda>d. m_clientId d = c) ds))"
  using run_all_result [OF assms, of s] client_queues.waiting_puts
  by (simp add: answers_of_client)


lemma answer_of_request:
  assumes "m_databuf d = map Some (request_bytes m api bs)" and "m_len d = word_of_nat (16 + length bs)"
    and "16 + length bs < 2 ^ 32" and "0 < m_clientId d"
  shows "answer_to d = [\<lparr>sd_clientId = m_clientId d,
    sd_databuf = response_bytes m api (api_data (api_fill api)), sd_len = 1044\<rparr>]"
proof -
  have len: "unat (m_len d) = 16 + length bs" using unat32_of_nat [OF assms(3)] by (simp only: assms(2))
  have tb: "task_bytes d = request_bytes m api bs" by (simp add: task_bytes_def assms(1) comp_def)
  show ?thesis using assms(4) len by (simp add: answer_to_def tb answer_api Let_def api_data_def)
qed

subsection \<open>Properties\<close>

text \<open>A worker that processes a complete message has no fault, and changes nothing but the queue of
  the client that sent it: there the answer to the message is appended, which is empty for a message
  below 16 bytes.\<close>

theorem task_answered:
  assumes "task_ok d" and "grants can_alloc 1044"
  shows "\<exists>k. onTaskProcessor (send can_alloc) True cmd0 (Some d) s = Inr k \<and>
    (\<forall>c. list_of k c = list_of s c @ (if c = m_clientId d then answer_to d else []))"
  using processed_task [OF assms] by (simp add: list_of_fold_push)

definition api2_task :: taskData where
  "api2_task = \<lparr>m_clientId = 5, m_databuf = map Some (request_bytes 9 EAC_API2 [1, 2]), m_len = 18, m_curLen = 0\<rparr>"

theorem task_answered_witness:
  "\<exists>k. onTaskProcessor (send (\<lambda>n. True)) True 0 (Some api2_task) (new_socketBase True 0) = Inr k \<and>
    list_of k 5 = answer_to api2_task"
proof -
  have "task_ok api2_task" by (simp add: task_ok_def api2_task_def)
  moreover have "grants (\<lambda>n. True) 1044" by (simp add: grants_def)
  moreover have "m_clientId api2_task = 5" by (simp add: api2_task_def)
  moreover have "list_of (new_socketBase True 0) 5 = []" by (simp add: list_of_def new_socketBase_def)
  ultimately show ?thesis
    using task_answered [of api2_task "\<lambda>n. True" 0 "new_socketBase True 0"] by auto
qed

text \<open>C19: What \<open>onTaskProcessor\<close> does with any complete message of at least 16 bytes from a descriptor above
  0, if allocations up to 1044 bytes are granted: whatever its length fields \<open>n\<close> and \<open>k\<close> say, it adds one
  datum to the queue of the sender and changes nothing else. For command 0 (\<open>EAC_API1\<close>) and 1 (\<open>EAC_API2\<close>)
  the datum has 1044 bytes: this number, the message number and the command of the request, result 0, the
  number 1024 and as many letters, A for 0 and B for 1. For any other command it is empty, so that the
  client gets nothing. The error response is never built.\<close>

theorem request_answer:
  assumes "m_databuf d = map Some (le32 n @ le32 m @ le32 cmd @ le32 k @ bs)"
    and "m_len d = word_of_nat (16 + length bs)" and "16 + length bs < 2 ^ 32" and "0 < m_clientId d"
    and "grants can_alloc 1044"
  shows "onTaskProcessor (send can_alloc) True cmd0 (Some d) s = Inr (push_back (m_clientId d)
    (if cmd = 0 \<or> cmd = 1 then
       \<lparr>sd_clientId = m_clientId d,
        sd_databuf = le32 1044 @ le32 m @ le32 cmd @ le32 0 @ le32 1024 @ replicate 1024 (if cmd = 0 then 65 else 66),
        sd_len = 1044\<rparr>
     else \<lparr>sd_clientId = m_clientId d, sd_databuf = [], sd_len = 0\<rparr>) s)"
proof -
  let ?bs = "le32 n @ le32 m @ le32 cmd @ le32 k @ bs"
  have len: "unat (m_len d) = 16 + length bs" using unat32_of_nat [OF assms(3)] by (simp only: assms(2))
  have tb: "task_bytes d = ?bs" by (simp add: task_bytes_def assms(1) comp_def del: map_append)
  have f: "field_at ?bs (Suc 0) = m" "field_at ?bs 2 = cmd" by (simp_all add: field_at_def)
  have "task_ok d" using len by (simp add: task_ok_def assms(1) del: map_append)
  from processed_task [OF this assms(5)] show ?thesis
    using assms(4) len
    by (simp add: answer_to_def tb f Let_def answer_bytes_def response_bytes_def api_data_def del: replicate.simps)
qed

theorem request_answer_witness:
  "onTaskProcessor (send (\<lambda>n. True)) True 0 (Some api2_task) (new_socketBase True 0) = Inr (push_back 5
    \<lparr>sd_clientId = 5, sd_databuf = le32 1044 @ le32 9 @ le32 1 @ le32 0 @ le32 1024 @ replicate 1024 66,
     sd_len = 1044\<rparr> (new_socketBase True 0))"
  using request_answer [of api2_task 18 9 1 2 "[1, 2]" "\<lambda>n. True" 0 "new_socketBase True 0"]
  by (simp add: api2_task_def request_bytes_def grants_def del: replicate.simps)

text \<open>A request with an unknown command is answered with an empty datum: the send thread passes zero
  bytes to the kernel for it, and its client gets nothing.\<close>

theorem unknown_command_unanswered:
  assumes "16 \<le> unat (m_len d)" and "0 < m_clientId d" and "1 < field_at (task_bytes d) 2"
  shows "answer_to d = [\<lparr>sd_clientId = m_clientId d, sd_databuf = [], sd_len = 0\<rparr>]"
proof -
  have "field_at (task_bytes d) 2 \<noteq> 0" "field_at (task_bytes d) 2 \<noteq> 1"
    using assms(3) by (auto simp: word_less_nat_alt)
  with assms(1,2) show ?thesis by (simp add: answer_to_def answer_bytes_def)
qed

definition odd_task :: taskData where
  "odd_task = \<lparr>m_clientId = 5, m_databuf = map Some (le32 16 @ le32 1 @ le32 2 @ le32 0), m_len = 16, m_curLen = 0\<rparr>"

theorem unknown_command_unanswered_witness:
  "answer_to odd_task = [\<lparr>sd_clientId = 5, sd_databuf = [], sd_len = 0\<rparr>]"
proof -
  have "field_at (task_bytes odd_task) 2 = 2" by code_simp
  then show ?thesis using unknown_command_unanswered [of odd_task] by (simp add: odd_task_def)
qed

end
