(* ===== verification/ThreadPoolDrain.thy ===== *)
theory ThreadPoolDrain
  imports ThreadPoolRuns
begin

section \<open>A thread that is in its loop empties the queue\<close>

text \<open>
  While nobody holds the mutex and the pool has not been released, a thread that is not about to leave
  can process all queued tasks with steps of its own alone; \<open>work\<close> bounds their number. What it will
  have run is fixed from the start: the task it has in hand and then the queue, in order.
\<close>

definition serves :: "'d wgThread \<Rightarrow> bool" where
  "serves t \<longleftrightarrow> t_ok t \<and>
     (t_pc t \<in> {W_Start, W_Register, W_Loop, W_Fetch, W_Wait} \<or>
      t_pc t \<in> {W_Dispatch, W_Run, W_Idle, W_Check} \<and> ifreeTime t = 0)"

fun pc_work :: "wpc \<Rightarrow> nat" where
  "pc_work W_Dispatch = 6"
| "pc_work W_Run = 5"
| "pc_work W_Idle = 4"
| "pc_work W_Check = 3"
| "pc_work W_Wait = 3"
| "pc_work W_Start = 4"
| "pc_work W_Register = 3"
| "pc_work W_Loop = 2"
| "pc_work W_Fetch = 1"
| "pc_work _ = 0"

definition work :: "nat \<Rightarrow> 'd sys \<Rightarrow> nat" where
  "work i s = 6 * length (m_tasks (pool s)) + pc_work (t_pc (thr s ! i))"

definition left_to :: "nat \<Rightarrow> 'd sys \<Rightarrow> 'd list" where
  "left_to i s = in_hand (thr s ! i) @ concat (map runnable (m_tasks (pool s)))"

definition draining :: "nat \<Rightarrow> 'd sys \<Rightarrow> bool" where
  "draining i s \<longleftrightarrow> i < length (thr s) \<and> mtx s = None \<and> m_tpState (pool s) \<and> serves (thr s ! i)"

definition drained :: "nat \<Rightarrow> 'd sys \<Rightarrow> bool" where
  "drained i s \<longleftrightarrow> m_tasks (pool s) = [] \<and> in_hand (thr s ! i) = []"

lemma step_serves:
  assumes "serves t" and "m_tpState p" and "m_tasks p \<noteq> [] \<or> in_hand t \<noteq> []"
  shows "serves (snd (worker_step p t))"
    and "6 * length (m_tasks (fst (worker_step p t))) + pc_work (t_pc (snd (worker_step p t))) <
      6 * length (m_tasks p) + pc_work (t_pc t)"
    and "t_pc t \<noteq> W_Done"
  using assms
  by (cases "t_pc t"; auto simp: serves_def worker_step_def t_ok_def in_hand_def runnable_def
      split: list.split option.split)+

lemma drain_step:
  assumes "draining i s" and "\<not> drained i s"
  shows "\<exists>s'. fire (Worker i) s = Some s' \<and> draining i s' \<and> work i s' < work i s \<and>
    runs s' @ map (Pair i) (left_to i s') = runs s @ map (Pair i) (left_to i s)"
proof -
  let ?t = "thr s ! i" and ?p = "pool s"
  have i: "i < length (thr s)" and s: "serves ?t" "m_tpState ?p" "mtx s = None"
    using assms(1) by (simp_all add: draining_def)
  have todo: "m_tasks ?p \<noteq> [] \<or> in_hand ?t \<noteq> []" using assms(2) by (simp add: drained_def)
  note step = step_serves [OF s(1,2) todo]
  have hand: "in_hand ?t @ concat (map runnable (step_taken ?p ?t)) =
      step_run ?t @ in_hand (snd (worker_step ?p ?t))"
    using s(1) by (intro hand_step) (simp add: serves_def)
  have "concat (map runnable (m_tasks ?p)) =
      concat (map runnable (step_taken ?p ?t)) @ concat (map runnable (m_tasks (fst (worker_step ?p ?t))))"
    using arg_cong [OF taken_tasks [of ?p ?t], of "\<lambda>xs. concat (map runnable xs)"] by simp
  then have "left_to i s = step_run ?t @ left_to i (do_worker i s)"
    using hand i by (simp add: left_to_def flip: append_assoc)
  then have "runs (do_worker i s) @ map (Pair i) (left_to i (do_worker i s)) = runs s @ map (Pair i) (left_to i s)"
    by (simp add: do_worker_history)
  moreover have "fire (Worker i) s = Some (do_worker i s)"
    using i s(3) step(3) by (simp add: worker_enabled_def)
  moreover have "draining i (do_worker i s)" "work i (do_worker i s) < work i s"
    using i s step by (simp_all add: draining_def work_def worker_keeps)
  ultimately show ?thesis by blast
qed

lemma drain:
  assumes "draining i s"
  shows "\<exists>ls s'. set ls \<subseteq> {Worker i} \<and> length ls \<le> work i s \<and> fire_all ls s = Some s' \<and>
    drained i s' \<and> draining i s' \<and> runs s' = runs s @ map (Pair i) (left_to i s)"
  using assms
proof (induction "work i s" arbitrary: s rule: less_induct)
  case less
  show ?case
  proof (cases "drained i s")
    case True
    then have "left_to i s = []" by (simp add: drained_def left_to_def)
    with True less.prems show ?thesis by (intro exI [of _ "[]"] exI [of _ s]) simp
  next
    case False
    obtain s1 where s1: "fire (Worker i) s = Some s1" "draining i s1" "work i s1 < work i s"
      "runs s1 @ map (Pair i) (left_to i s1) = runs s @ map (Pair i) (left_to i s)"
      using drain_step [OF less.prems False] by blast
    obtain ls s' where "set ls \<subseteq> {Worker i}" "length ls \<le> work i s1" "fire_all ls s1 = Some s'"
      "drained i s'" "draining i s'" "runs s' = runs s1 @ map (Pair i) (left_to i s1)"
      using less.hyps [OF s1(3,2)] by blast
    with s1 show ?thesis by (intro exI [of _ "Worker i # ls"] exI [of _ s']) simp
  qed
qed

end
