(* ===== verification/ThreadPoolExit.thy ===== *)
theory ThreadPoolExit
  imports ThreadPoolDrain
begin

section \<open>The error exits of the server\<close>

text \<open>
  When \<open>main\<close> of the server fails after it has constructed the controller, the destructor
  \<open>~taskController\<close> calls \<open>delInstance\<close>. No task has been added by then, and no other thread has called
  the pool: the two threads the constructor created are the only ones, and since two is also \<open>minNum\<close>
  they never leave their loops. \<open>delInstance\<close> waits for them with the mutex locked.
\<close>

definition destroy_taskController :: "nat \<Rightarrow> 'd sys \<Rightarrow> 'd sys" where
  "destroy_taskController c s = goto c (entry Op_Del) s"

definition no_calls :: "'d label \<Rightarrow> bool" where
  "no_calls l \<longleftrightarrow> (\<forall>c op. l \<noteq> Call c op)"

definition staying :: "'d wgThread \<Rightarrow> bool" where
  "staying t \<longleftrightarrow> t_pc t \<noteq> W_Leave \<and> t_pc t \<noteq> W_Unregister \<and> t_pc t \<noteq> W_Done"

text \<open>The threads the main thread has still to create, and to enter in the list.\<close>

fun to_create :: "'d cpc \<Rightarrow> nat" where
  "to_create (C_Create n b) = n"
| "to_create (C_Poll tid k n b) = n"
| "to_create (C_Push tid n b) = n"
| "to_create _ = 0"

fun to_list :: "'d cpc \<Rightarrow> nat" where
  "to_list (C_Poll tid k n b) = 1"
| "to_list (C_Push tid n b) = 1"
| "to_list _ = 0"

text \<open>Where the main thread is while it constructs the controller, and while it destroys it.\<close>

fun constructing :: "'d cpc \<Rightarrow> bool" where
  "constructing (C_Create n b) = (\<not> b)"
| "constructing (C_Poll tid k n b) = (\<not> b)"
| "constructing (C_Push tid n b) = (\<not> b)"
| "constructing (C_Unlock b) = (\<not> b)"
| "constructing (C_Ret r) = True"
| "constructing C_Idle = True"
| "constructing _ = False"

fun destroying :: "'d cpc \<Rightarrow> bool" where
  "destroying C_Del = True"
| "destroying (C_Join d ths) = (d \<and> ths \<noteq> [])"
| "destroying _ = False"

definition alone_inv :: "bool \<Rightarrow> 'd sys \<Rightarrow> bool" where
  "alone_inv exiting s \<longleftrightarrow>
     threads_inv s \<and> count_inv s \<and> m_instance s \<and> m_tpState (pool s) \<and> m_minNum (pool s) = 2 \<and>
     list_all staying (thr s) \<and> (\<forall>c. c \<noteq> 0 \<longrightarrow> callers s c = C_Idle) \<and>
     length (thr s) + to_create (callers s 0) = 2 \<and>
     length (m_threads (pool s)) + to_create (callers s 0) + to_list (callers s 0) = 2 \<and>
     (if exiting then destroying (callers s 0) else constructing (callers s 0))"

lemma two_stay:
  assumes "count_inv s" and "m_minNum (pool s) = 2" and "length (thr s) \<le> 2"
  shows "\<not> needReleaseTaskThread (pool s)"
proof -
  let ?k = "count_if registered (thr s)"
  have k: "?k \<le> 2" using assms(3) length_filter_le [of registered "thr s"] by linarith
  then show ?thesis using assms(1,2)
    by (simp add: needReleaseTaskThread_def count_inv_def word_less_nat_alt unsigned_ucast_eq unsigned_of_nat
        take_bit_nat_eq_self)
qed

lemma staying_step:
  assumes "staying t" and "t_ok t" and "m_tpState p" and "\<not> needReleaseTaskThread p"
  shows "staying (snd (worker_step p t))"
  using assms
  by (cases "t_pc t") (auto simp: staying_def worker_step_def t_ok_def split: list.split option.split)

lemma alone_worker:
  assumes "alone_inv e s" and "worker_enabled s i"
  shows "alone_inv e (do_worker i s)"
proof -
  have i: "i < length (thr s)" using assms(2) by (simp add: worker_enabled_def)
  have s: "threads_inv s" "count_inv s" "m_minNum (pool s) = 2" "length (thr s) \<le> 2" "m_tpState (pool s)"
    "list_all staying (thr s)"
    using assms(1) by (auto simp: alone_inv_def)
  have "staying (snd (worker_step (pool s) (thr s ! i)))"
    using s i two_stay [OF s(2-4)] by (intro staying_step) (auto simp: list_all_length intro: threads_invD)
  then have "list_all staying ((thr s)[i := snd (worker_step (pool s) (thr s ! i))])"
    using s(6) i by (auto simp: list_all_length nth_list_update)
  moreover have "threads_inv (do_worker i s)"
    using threads_step [OF s(1) by_worker [OF assms(2)]] .
  moreover have "count_inv (do_worker i s)" using count_worker [OF s(1,2) assms(2)] .
  ultimately show ?thesis using assms(1) by (simp add: alone_inv_def worker_keeps)
qed

lemma alone_caller:
  assumes inv: "alone_inv e s" and step: "caller_step c s = Some s'"
  shows "alone_inv e s'"
proof -
  have c: "c = 0"
    using inv step by (cases "c = 0") (auto simp: alone_inv_def caller_step_def)
  have t: "threads_inv s'" using inv threads_caller [OF step] by (simp add: alone_inv_def)
  have stay: "t_pc (thr s ! th) \<noteq> W_Done" if "th \<in> set (cpc_tids (callers s 0))" for th
    using inv that threads_invD(3) [of s th 0] by (auto simp: alone_inv_def staying_def list_all_length)
  from step inv t stay show ?thesis
    unfolding c
    by (cases rule: caller_step_cases)
      (auto simp: alone_inv_def count_inv_def staying_def split: if_splits)
qed

lemma alone_step:
  assumes "alone_inv e s" and "pool_step s l s'" and "no_calls l"
  shows "alone_inv e s'"
  using assms(2)
proof cases
  case (by_timeout c)
  have "threads_inv s'" using assms(1,2) by (auto simp: alone_inv_def intro: threads_step)
  with by_timeout assms(1) show ?thesis
    by (cases "c = 0") (auto simp: alone_inv_def count_inv_def elim!: poll_timeout_cases)
next
  case (by_call c op)
  with assms(3) show ?thesis by (simp add: no_calls_def)
qed (use assms(1) in \<open>auto intro: alone_worker alone_caller\<close>)

interpretation alone: step_invariant pool_step no_calls "alone_inv e" for e
  by unfold_locales (rule alone_step)

lemma alone_boot: "alone_inv False (boot maxNum 2)"
  by (simp add: alone_inv_def threads_boot count_boot)
    (simp add: boot_def init_tsize_def init_fields_def new_pool_def)

lemma alone_destroy:
  "alone_inv False s \<Longrightarrow> callers s 0 = C_Idle \<Longrightarrow> alone_inv True (destroy_taskController 0 s)"
  by (auto simp: alone_inv_def destroy_taskController_def threads_inv_def count_inv_def)

end
