(* ===== verification/PoolProperties.thy ===== *)
theory PoolProperties
  imports AddTask ThreadPoolDrain ThreadPoolExit "HOL-Library.Multiset"
begin

section \<open>Properties of the thread pool\<close>

text \<open>
  What the invariants of the theories ThreadPoolInv, ThreadPoolBound and ThreadPoolRuns say of the
  runs of the pool, and four runs that show what the pool does not promise. A run is a list of
  labels that \<open>fire_all\<close> carries out from \<open>boot 8 2\<close>, the pool as the server starts it.
\<close>

subsection \<open>Runs of the server's pool\<close>

text \<open>\<open>initTaskPool\<close> creates its two threads, which reach their loops.\<close>

definition create_ok :: "nat \<Rightarrow> unit label list" where
  "create_ok i = [Caller 0, Worker i, Caller 0, Caller 0]"

definition start2 :: "unit label list" where
  "start2 = create_ok 0 @ create_ok 1 @ replicate 3 (Caller 0) @ [Worker 0, Worker 1]"

definition a_task :: "unit threadTask option" where
  "a_task = Some \<lparr>m_worker = Some 0, m_param = ()\<rparr>"

definition run_from_start :: "unit label list \<Rightarrow> unit sys" where
  "run_from_start ls = the (fire_all ls (boot 8 2))"

definition possible :: "unit label list \<Rightarrow> bool" where
  "possible ls \<longleftrightarrow> fire_all ls (boot 8 2 :: unit sys) \<noteq> None"

lemma possible_reachable:
  "possible ls \<Longrightarrow> list_all I ls \<Longrightarrow> reachable pool_step I (boot 8 2) (run_from_start ls)"
  using fire_all_reachable [of ls "boot 8 2" "run_from_start ls" I "boot 8 2"]
  by (auto simp: possible_def run_from_start_def intro: reachable.start)

lemma possible_append:
  "possible (ls @ ms) \<Longrightarrow> fire_all ms (run_from_start ls) = Some (run_from_start (ls @ ms))"
  by (cases "fire_all ls (boot 8 2 :: unit sys)")
    (auto simp: possible_def run_from_start_def fire_all_append)

text \<open>A task is added, and one idle worker takes and runs it.\<close>

definition one_task :: "unit label list" where
  "one_task = start2 @ [Call 1 (Op_Add a_task)] @ replicate 5 (Caller 1) @ replicate 5 (Worker 0)"

lemma one_task_possible: "possible one_task" "list_all (\<lambda>l. normal l \<and> in_time l) one_task"
  by code_simp+

lemma one_task_normal: "list_all normal one_task" "list_all (\<lambda>_. True) one_task"
  by code_simp+


subsection \<open>Mutual exclusion, counting, the bound\<close>

text \<open>C14: At most one caller is inside a section that \<open>mtx\<close> protects, and it is the recorded holder of
  the mutex.\<close>

theorem callers_exclude_each_other:
  assumes "reachable pool_step (\<lambda>_. True) (boot maxNum minNum) s"
    and "critical (callers s c)" and "critical (callers s d)"
  shows "c = d \<and> mtx s = Some c"
proof -
  from assms(1) have "mutex_inv s" by (rule mutex.reachable_inv) (rule mutex_boot)
  with assms(2,3) show ?thesis by (auto simp: mutex_inv_def)
qed

theorem callers_exclude_each_other_witness:
  "mtx (run_from_start [Caller 0]) = Some 0"
proof -
  have "possible [Caller 0]" and "list_all (\<lambda>_. True) [Caller 0 :: unit label]"
    and c: "critical (callers (run_from_start [Caller 0]) 0)" by code_simp+
  then have "reachable pool_step (\<lambda>_. True) (boot 8 2) (run_from_start [Caller 0])"
    by (intro possible_reachable)
  from callers_exclude_each_other [OF this c c] show ?thesis by simp
qed

text \<open>C13: \<open>m_validThreadNums\<close> is the number of threads that have registered themselves and not yet
  signed off, in 16 bits, whatever the workers and callers do and however often the creation of a
  thread times out.\<close>

theorem valid_threads_counted:
  assumes "reachable pool_step normal (boot maxNum minNum) s"
  shows "m_validThreadNums (pool s) = word_of_nat (count_if registered (thr s))"
proof -
  have "count_inv s"
    using counted.reachable_inv [OF assms] by (simp add: threads_boot quiet_boot count_boot)
  then show ?thesis by (simp add: count_inv_def)
qed

theorem valid_threads_counted_witness:
  "m_validThreadNums (pool (run_from_start one_task)) =
   word_of_nat (count_if registered (thr (run_from_start one_task)))"
  by (rule valid_threads_counted, rule possible_reachable) (rule one_task_possible one_task_normal)+

text \<open>C11: If every new thread starts before \<open>createNewThread\<close> has given up waiting for it, the pool never
  has more threads that have not returned than \<open>maxNum\<close>, and the 16-bit count is exact.\<close>

theorem live_threads_bounded:
  assumes "reachable pool_step (\<lambda>l. normal l \<and> in_time l) (boot maxNum minNum) s"
    and "0 \<le> minNum" and "minNum \<le> maxNum" and "maxNum \<le> 65535"
  shows "count_if live (thr s) \<le> nat maxNum \<and>
    unat (m_validThreadNums (pool s)) = count_if registered (thr s)"
proof -
  from bound_reachable [OF assms] have "phase (nat maxNum) (thr s) (holder s)" and c: "count_inv s"
    by (simp_all add: bound_inv_def)
  then have le: "count_if live (thr s) \<le> nat maxNum" by (intro phase_live_bound)
  then have "count_if registered (thr s) < 2 ^ 16"
    using registered_le_live [of "thr s"] assms(4) by simp
  with c le show ?thesis by (simp add: count_inv_def unsigned_of_nat take_bit_nat_eq_self)
qed

theorem live_threads_bounded_witness: "count_if live (thr (run_from_start one_task)) \<le> nat 8"
  by (rule live_threads_bounded [THEN conjunct1], rule possible_reachable)
    (rule one_task_possible | simp)+

subsection \<open>What becomes of a task\<close>

text \<open>C12: Tasks leave the queue in the order they were added, and every thread calls
  \<open>onTaskProcessor\<close> for exactly the tasks with a worker that it took, in that order; at most the task it
  has in hand is missing.\<close>

theorem tasks_in_order:
  assumes "reachable pool_step normal (boot maxNum minNum) s"
  shows "added s = map snd (taken s) @ m_tasks (pool s) \<and>
    (\<forall>i < length (thr s). taken_by i s = run_by i s @ in_hand (thr s ! i))"
proof -
  have "hist_inv s"
    using history.reachable_inv [OF assms] by (simp add: threads_boot quiet_boot hist_boot)
  then show ?thesis by (simp add: hist_inv_def)
qed

theorem tasks_in_order_witness:
  "added (run_from_start one_task) =
   map snd (taken (run_from_start one_task)) @ m_tasks (pool (run_from_start one_task))"
  by (rule tasks_in_order [THEN conjunct1], rule possible_reachable)
    (rule one_task_possible one_task_normal)+

text \<open>The multiset of what all threads together took, thread by thread.\<close>

lemma mset_by_key:
  "\<forall>x \<in> set xs. fst x < (n :: nat) \<Longrightarrow>
   mset (map snd xs) = (\<Sum>i < n. mset (map snd (filter (\<lambda>x. fst x = i) xs)))"
proof (induction xs)
  case (Cons x xs)
  have "(\<Sum>i < n. mset (map snd (filter (\<lambda>y. fst y = i) (x # xs)))) =
      (\<Sum>i < n. (if fst x = i then {#snd x#} else {#}) + mset (map snd (filter (\<lambda>y. fst y = i) xs)))"
    by (rule sum.cong) simp_all
  also have "\<dots> = (\<Sum>i < n. if i = fst x then {#snd x#} else {#}) + mset (map snd xs)"
    using Cons by (simp add: sum.distrib eq_commute)
  also have "\<dots> = {#snd x#} + mset (map snd xs)"
    using Cons.prems by (subst sum.delta) simp_all
  finally show ?case by simp
qed simp

lemma concat_runnable:
  "map snd (concat (map (\<lambda>x. map (Pair (fst x)) (runnable (snd x))) xs)) = concat (map runnable (map snd xs))"
  by (induction xs) (simp_all add: comp_def)

lemma filter_by_key:
  "map snd (filter (\<lambda>x. fst x = i) (concat (map (\<lambda>x. map (Pair (fst x)) (runnable (snd x))) xs))) =
   concat (map (\<lambda>x. runnable (snd x)) (filter (\<lambda>x. fst x = i) xs))"
  by (induction xs) (simp_all add: filter_map comp_def)

lemma took_parts:
  assumes "hist_inv s"
  shows "mset (concat (map runnable (map snd (taken s)))) =
    mset (map snd (runs s)) + (\<Sum>i < length (thr s). mset (in_hand (thr s ! i)))"
proof -
  let ?n = "length (thr s)"
  let ?took = "concat (map (\<lambda>x. map (Pair (fst x)) (runnable (snd x))) (taken s))"
  have "mset (concat (map runnable (map snd (taken s)))) = mset (map snd ?took)"
    by (simp only: concat_runnable)
  also have "\<dots> = (\<Sum>i < ?n. mset (map snd (filter (\<lambda>x. fst x = i) ?took)))"
    using assms by (intro mset_by_key) (auto simp: hist_inv_def)
  also have "\<dots> = (\<Sum>i < ?n. mset (run_by i s) + mset (in_hand (thr s ! i)))"
    using assms by (intro sum.cong refl) (simp add: filter_by_key hist_inv_def flip: taken_by_def)
  also have "\<dots> = (\<Sum>i < ?n. mset (run_by i s)) + (\<Sum>i < ?n. mset (in_hand (thr s ! i)))"
    by (rule sum.distrib)
  also have "(\<Sum>i < ?n. mset (run_by i s)) = mset (map snd (runs s))"
    unfolding run_by_def using assms by (intro mset_by_key [symmetric]) (simp add: hist_inv_def)
  finally show ?thesis .
qed

lemma run_balance:
  assumes "hist_inv s"
  shows "mset (concat (map runnable (added s))) =
    mset (map snd (runs s)) + (\<Sum>i < length (thr s). mset (in_hand (thr s ! i))) +
    mset (concat (map runnable (m_tasks (pool s))))"
  using took_parts [OF assms] assms by (simp add: hist_inv_def)

lemma run_all_done:
  assumes "hist_inv s" and "m_tasks (pool s) = []" and "list_all (\<lambda>t. in_hand t = []) (thr s)"
  shows "mset (map snd (runs s)) = mset (concat (map runnable (added s)))"
  using run_balance [OF assms(1)] assms(2,3) by (simp add: list_all_length)

lemma run_once:
  assumes "reachable pool_step normal (boot maxNum minNum) s"
    and "m_tasks (pool s) = []" and "list_all (\<lambda>t. in_hand t = []) (thr s)"
  shows "mset (map snd (runs s)) = mset (concat (map runnable (added s)))"
proof -
  have "hist_inv s"
    using history.reachable_inv [OF assms(1)] by (simp add: threads_boot quiet_boot hist_boot)
  then show ?thesis using assms(2,3) by (rule run_all_done)
qed

text \<open>C10: Nothing is lost and nothing runs twice: once the queue is empty and no thread has a task in
  hand, \<open>onTaskProcessor\<close> has been called exactly once for every task with a worker that was added.\<close>

theorem tasks_run_once:
  assumes "reachable pool_step normal (boot maxNum minNum) s"
    and "m_tasks (pool s) = []" and "list_all (\<lambda>t. in_hand t = []) (thr s)"
  shows "mset (map snd (runs s)) = mset (concat (map runnable (added s)))"
  using assms by (rule run_once)

theorem tasks_run_once_witness:
  "mset (map snd (runs (run_from_start one_task))) =
   mset (concat (map runnable (added (run_from_start one_task))))"
proof (rule tasks_run_once)
  show "reachable pool_step normal (boot 8 2) (run_from_start one_task)"
    by (rule possible_reachable) (rule one_task_possible one_task_normal)+
  show "m_tasks (pool (run_from_start one_task)) = []"
    and "list_all (\<lambda>t. in_hand t = []) (thr (run_from_start one_task))" by code_simp+
qed


subsection \<open>The mutex\<close>

text \<open>C36: A caller that is inside a protected section and is not joining threads can leave it: at most
  \<open>rank\<close> steps of its own, none of any other thread, give the mutex back.\<close>

theorem mutex_given_back:
  assumes "critical (callers s c)" and "\<not> joining (callers s c)"
  shows "\<exists>ls s'. length ls \<le> rank (callers s c) \<and> list_all (own_label c) ls \<and>
    fire_all ls s = Some s' \<and> mtx s' = None"
  using assms by (rule mutex_returned)

theorem mutex_given_back_witness:
  "\<exists>ls s'. length ls \<le> 28 \<and> list_all (own_label 0) ls \<and>
    fire_all ls (boot 8 2 :: unit sys) = Some s' \<and> mtx s' = None"
proof -
  have "critical (callers (boot 8 2 :: unit sys) 0)" "\<not> joining (callers (boot 8 2 :: unit sys) 0)"
    "rank (callers (boot 8 2 :: unit sys) 0) = 28"
    by code_simp+
  with mutex_given_back [of "boot 8 2 :: unit sys" 0] show ?thesis by simp
qed

text \<open>C17: While the pool has not been released and nobody holds the mutex, any thread that is in its loop
  and not about to leave can empty the queue alone: within six steps for each task, and six more, it has
  called \<open>onTaskProcessor\<close> for the task it had in hand and for every task of the queue, in order.\<close>

theorem queue_can_drain:
  assumes "mtx s = None" and "m_tpState (pool s)" and "i < length (thr s)" and "serves (thr s ! i)"
  shows "\<exists>ls s'. set ls \<subseteq> {Worker i} \<and> length ls \<le> 6 * length (m_tasks (pool s)) + 6 \<and>
    fire_all ls s = Some s' \<and> m_tasks (pool s') = [] \<and> in_hand (thr s' ! i) = [] \<and>
    runs s' = runs s @ map (Pair i) (in_hand (thr s ! i) @ concat (map runnable (m_tasks (pool s))))"
proof -
  have "draining i s" using assms by (simp add: draining_def)
  from drain [OF this] obtain ls s' where
    "set ls \<subseteq> {Worker i}" "length ls \<le> work i s" "fire_all ls s = Some s'" "drained i s'"
    "runs s' = runs s @ map (Pair i) (left_to i s)" by blast
  moreover have "work i s \<le> 6 * length (m_tasks (pool s)) + 6"
    by (cases "t_pc (thr s ! i)") (simp_all add: work_def)
  ultimately show ?thesis by (intro exI [of _ ls] exI [of _ s']) (simp add: drained_def left_to_def)
qed

definition task_added :: "unit sys" where
  "task_added = run_from_start (start2 @ [Call 1 (Op_Add a_task)] @ replicate 5 (Caller 1))"

theorem queue_can_drain_witness:
  "\<exists>ls s'. set ls \<subseteq> {Worker 1} \<and> fire_all ls task_added = Some s' \<and> m_tasks (pool s') = [] \<and>
    runs s' = [(1, ())]"
proof -
  have "mtx task_added = None" "m_tpState (pool task_added)" "1 < length (thr task_added)"
    "serves (thr task_added ! 1)"
    "in_hand (thr task_added ! 1) @ concat (map runnable (m_tasks (pool task_added))) = [()]"
    "runs task_added = []"
    by code_simp+
  with queue_can_drain [of task_added 1] show ?thesis by fastforce
qed

text \<open>C15: \<open>delInstance\<close> and \<open>releaseTaskPool\<close> join the threads while they hold the mutex the threads need:
  once one of the joined threads has not returned yet, the caller never gets past the join and never
  gives the mutex back.\<close>

theorem join_never_returns:
  assumes "reachable pool_step (\<lambda>_. True) (boot maxNum minNum) s0"
    and "callers s0 c = C_Join d ths" and "th \<in> set ths" and "live (thr s0 ! th)"
    and "reachable pool_step (\<lambda>_. True) s0 s"
  shows "mtx s = Some c \<and> live (thr s ! th) \<and> (\<exists>d ths. callers s c = C_Join d ths \<and> th \<in> set ths)"
proof -
  have m: "mutex_inv s0" using assms(1) by (rule mutex.reachable_inv) (rule mutex_boot)
  have t: "threads_inv s0" using assms(1) by (rule threads.reachable_inv) (rule threads_boot)
  have "critical (callers s0 c)" using assms(2) by simp
  then have "mtx s0 = Some c" using m unfolding mutex_inv_def by blast
  moreover have "th < length (thr s0)" using threads_invD(3) [OF t, of th c] assms(2,3) by simp
  ultimately have "join_stuck c th s0" using m t assms(2-4) by (auto simp: join_stuck_def live_def)
  with stuck.reachable_inv [OF assms(5)] have "join_stuck c th s" by blast
  then show ?thesis by (auto simp: join_stuck_def live_def)
qed

text \<open>The error exits of the server's \<open>main\<close> end in this state, both threads being in their loops.\<close>

definition error_exit :: "unit label list" where
  "error_exit = start2 @ [Call 0 Op_Del, Caller 0]"

theorem join_never_returns_witness:
  "mtx (run_from_start (error_exit @ [Worker 0, Worker 1])) = Some 0"
proof -
  let ?ex = "run_from_start error_exit" and ?now = "run_from_start (error_exit @ [Worker 0, Worker 1])"
  have "possible error_exit" "list_all (\<lambda>_. True) error_exit" by code_simp+
  then have "reachable pool_step (\<lambda>_. True) (boot 8 2) ?ex" by (rule possible_reachable)
  moreover have "callers ?ex 0 = C_Join True [0, 1]" and "live (thr ?ex ! 0)" by code_simp+
  moreover have "reachable pool_step (\<lambda>_. True) ?ex ?now"
  proof -
    have "possible (error_exit @ [Worker 0, Worker 1])" by code_simp
    then have "fire_all [Worker 0, Worker 1] ?ex = Some ?now" by (rule possible_append)
    then show ?thesis by (rule fire_all_reachable) (simp_all add: reachable.start)
  qed
  ultimately show ?thesis using join_never_returns [of 8 2 ?ex 0 True "[0, 1]" 0 ?now] by simp
qed


text \<open>C16: An error exit of the server never ends: once the main thread has constructed the controller and
  calls the destructor of it, and while no other thread calls the pool, \<open>delInstance\<close> never returns,
  whatever the two threads of the pool do. They stay in their loops, and the pool is never deleted.\<close>

theorem server_exit_hangs:
  assumes "reachable pool_step no_calls (boot maxNum 2) s0" and "callers s0 0 = C_Idle"
    and "reachable pool_step no_calls (destroy_taskController 0 s0) s"
  shows "(callers s 0 = C_Del \<or> (\<exists>th ths. callers s 0 = C_Join True (th # ths))) \<and>
    m_instance s \<and> list_all live (thr s)"
proof -
  have "alone_inv False s0" using assms(1) alone_boot by (rule alone.reachable_inv)
  then have "alone_inv True (destroy_taskController 0 s0)" using assms(2) by (rule alone_destroy)
  with assms(3) have inv: "alone_inv True s" by (rule alone.reachable_inv)
  then have "list_all live (thr s)"
    by (auto simp: alone_inv_def list_all_iff live_def staying_def)
  with inv show ?thesis
    by (cases "callers s 0") (auto simp: alone_inv_def neq_Nil_conv)
qed

definition exit_labels :: "unit label list" where
  "exit_labels = [Caller 0, Worker 0, Worker 1]"

theorem server_exit_hangs_witness:
  "list_all live (thr (the (fire_all exit_labels (destroy_taskController 0 (run_from_start start2)))))"
proof -
  let ?start = "run_from_start start2"
  let ?exit = "destroy_taskController 0 ?start"
  let ?now = "the (fire_all exit_labels ?exit)"
  have "possible start2" by code_simp
  moreover have "list_all no_calls start2"
    by (simp add: start2_def create_ok_def no_calls_def list_all_iff)
  ultimately have "reachable pool_step no_calls (boot 8 2) ?start" by (rule possible_reachable)
  moreover have "callers ?start 0 = C_Idle" by code_simp
  moreover have "reachable pool_step no_calls ?exit ?now"
  proof (rule fire_all_reachable)
    have "fire_all exit_labels ?exit \<noteq> None" by code_simp
    then show "fire_all exit_labels ?exit = Some ?now" by simp
  qed (simp_all add: exit_labels_def no_calls_def reachable.start)
  ultimately show ?thesis using server_exit_hangs by blast
qed


subsection \<open>What the pool does not promise\<close>

text \<open>
  Three threads take a task each; after a quiet time all three see more valid threads than
  \<open>minNum\<close> and decide to leave, one after the other; the task added before they set their state
  to 3 finds three idle threads and no new one is made.
\<close>

definition busy3 :: "unit label list" where
  "busy3 = [Call 1 (Op_Add a_task)] @ replicate 5 (Caller 1) @ replicate 3 (Worker 0)
     @ [Call 1 (Op_Add a_task)] @ replicate 6 (Caller 1) @ replicate 3 (Worker 1)
     @ [Call 1 (Op_Add a_task)] @ replicate 5 (Caller 1) @ [Worker 2] @ replicate 6 (Caller 1)
     @ replicate 4 (Worker 2)"

definition idle4 :: "nat \<Rightarrow> unit label list" where
  "idle4 i = replicate 27 (Worker i)"

definition leave :: "nat \<Rightarrow> unit label list" where
  "leave i = replicate 2 (Worker i)"

definition stranded_run :: "unit label list" where
  "stranded_run = start2 @ busy3 @ idle4 0 @ idle4 1 @ idle4 2
     @ [Call 1 (Op_Add a_task)] @ replicate 5 (Caller 1) @ leave 0 @ leave 1 @ leave 2"

text \<open>C32: A task can be left in the queue with no thread to run it: the server's pool has a run, with
  every thread created in time, after which all its threads have returned (although \<open>minNum\<close> is two),
  every call has returned, the pool has not been released, and the last task is still queued.\<close>

theorem task_can_be_stranded:
  "\<exists>s. reachable pool_step (\<lambda>l. normal l \<and> in_time l) (boot 8 2 :: unit sys) s \<and>
    m_tpState (pool s) \<and> m_minNum (pool s) = 2 \<and> m_tasks (pool s) = [a_task] \<and>
    count_if live (thr s) = 0 \<and> callers s 0 = C_Idle \<and> callers s 1 = C_Idle \<and> mtx s = None"
proof (intro exI conjI)
  show "reachable pool_step (\<lambda>l. normal l \<and> in_time l) (boot 8 2) (run_from_start stranded_run)"
    by (rule possible_reachable) code_simp+
qed code_simp+

text \<open>A thread that has not started when \<open>createNewThread\<close> gives up, and a task added then.\<close>

definition late_init :: "unit label list" where
  "late_init = replicate 11 (Caller 0) @ [PollTimeout 0, Caller 0]"

definition late_add :: "nat \<Rightarrow> unit label list" where
  "late_add k = [Call 1 (Op_Add a_task)] @ replicate (k + 13) (Caller 1) @ [PollTimeout 1] @ replicate 5 (Caller 1)"

definition overshoot_run :: "unit label list" where
  "overshoot_run = late_init @ late_init @ replicate 3 (Caller 0) @ concat (map late_add [2..<9])"

text \<open>If new threads start late, the pool exceeds its maximum: threads that have not registered are
  neither counted nor idle, so every further task creates another one; nine threads for a maximum of
  eight.\<close>

theorem late_threads_exceed_max:
  "\<exists>s. reachable pool_step normal (boot 8 2 :: unit sys) s \<and> m_maxNum (pool s) = 8 \<and>
    count_if live (thr s) = 9 \<and> length (m_threads (pool s)) = 9"
proof (intro exI conjI)
  show "reachable pool_step normal (boot 8 2) (run_from_start overshoot_run)"
    by (rule possible_reachable) code_simp+
qed code_simp+

text \<open>\<open>initTaskPool\<close> on a pool that already has more threads than \<open>minNum\<close>, by up to 65535, does not
  create none but \<open>65536\<close> minus the difference: the subtraction is stored in an \<open>unsigned short\<close>.\<close>

theorem reinit_creates_many:
  assumes "callers s c = C_Init maxNum minNum" and "mtx s = None"
    and "int (length (m_threads (pool s))) = minNum + int k" and "0 < k" and "k < 65536"
  shows "\<exists>s'. pool_step s (Caller c) s' \<and> callers s' c = C_Create (65536 - k) False"
proof -
  have "unat (init_tsize minNum (pool s)) = 65536 - k"
  proof -
    have "(word_of_nat (65536 - k) :: u16) + word_of_nat k = word_of_nat 65536"
      using assms(5) by (simp only: of_nat_add [symmetric]) simp
    moreover have "(word_of_nat 65536 :: u16) = 0" by (simp add: word_of_nat_eq_0_iff)
    ultimately have "(word_of_nat (65536 - k) :: u16) = - word_of_nat k"
      by (simp only: eq_neg_iff_add_eq_0)
    moreover have "minNum - int (length (m_threads (pool s))) = - int k" using assms(3) by linarith
    then have "init_tsize minNum (pool s) = - word_of_nat k" by (simp only: init_tsize_def) simp
    ultimately have "init_tsize minNum (pool s) = word_of_nat (65536 - k)" by (simp only:)
    then show ?thesis using assms(4) by (simp add: unsigned_of_nat take_bit_nat_eq_self)
  qed
  with assms(1,2) show ?thesis by (simp add: caller_step_iff caller_step_def)
qed

theorem reinit_creates_many_witness:
  "\<exists>s'. pool_step (run_from_start (start2 @ [Call 0 (Op_Init 8 1)])) (Caller 0) s' \<and>
    callers s' 0 = C_Create 65535 False"
proof -
  let ?s = "run_from_start (start2 @ [Call 0 (Op_Init 8 1)])"
  have "callers ?s 0 = C_Init 8 1" and "mtx ?s = None" and l: "length (m_threads (pool ?s)) = 2"
    by code_simp+
  with reinit_creates_many [of ?s 0 8 1 1] show ?thesis by simp
qed

subsection \<open>\<open>addTask\<close> as one operation\<close>

text \<open>C18: A call of \<open>addTask\<close> during which only the caller and the thread it creates make steps does exactly
  what the function \<open>addTask\<close> says. From any state in which the caller is idle and the mutex free, some
  sequence of their steps leads to the state the function gives. And whatever sequence of their steps leads
  to the point where the caller unlocks the mutex (it then only notifies and returns): the state after the unlock
  is the one the function gives, or, if the loop of \<open>createNewThread\<close> gave up before the new thread had
  started, the one \<open>addTask_late\<close> gives, in which that thread is in \<open>m_threads\<close> but has not begun.\<close>

theorem addTask_refines:
  assumes "callers s c = C_Idle" and "mtx s = None"
  shows "(\<exists>ls. set ls \<subseteq> {Caller c, Worker (length (thr s))} \<and>
      fire_all (Call c (Op_Add task) # ls) s = Some (addTask task s) \<and>
      callers (addTask task s) c = C_Idle \<and> mtx (addTask task s) = None) \<and>
    (\<forall>ls t. set ls \<subseteq> {Caller c, PollTimeout c, Worker (length (thr s))} \<and>
      fire_all (Call c (Op_Add task) # ls) s = Some t \<and> callers t c = C_Unlock True \<longrightarrow>
      goto c C_Idle (unlock t) = addTask task s \<or>
      PollTimeout c \<in> set ls \<and> goto c C_Idle (unlock t) = addTask_late task s)"
proof (intro conjI allI impI; (elim conjE)?)
  obtain ls where "list_all (of_pair c (length (thr s))) ls"
    "fire_all (Call c (Op_Add task) # Caller c # ls) s = Some (addTask task s)"
    using addTask_alone [OF assms] by blast
  then show "\<exists>ls. set ls \<subseteq> {Caller c, Worker (length (thr s))} \<and>
      fire_all (Call c (Op_Add task) # ls) s = Some (addTask task s) \<and>
      callers (addTask task s) c = C_Idle \<and> mtx (addTask task s) = None"
    using assms by (intro exI [of _ "Caller c # ls"]) (auto simp: addTask_home list_all_iff of_pair_def)
next
  fix ls t
  assume ls: "set ls \<subseteq> {Caller c, PollTimeout c, Worker (length (thr s))}"
    and run: "fire_all (Call c (Op_Add task) # ls) s = Some t" and t: "callers t c = C_Unlock True"
  have "fire_all ls (goto c (C_Add task) s) = Some t" using run assms(1) by simp
  moreover have "list_all (\<lambda>l. of_pair c (length (thr s)) l \<or> PollTimeout c \<in> set ls \<and> l = PollTimeout c) ls"
    using ls by (auto simp: list_all_iff of_pair_def)
  ultimately have "calling (PollTimeout c \<in> set ls) c task s t"
    using calling_run [OF assms(2) calling.add] by blast
  from calling_result [OF this t assms]
  show "goto c C_Idle (unlock t) = addTask task s \<or>
      PollTimeout c \<in> set ls \<and> goto c C_Idle (unlock t) = addTask_late task s" .
qed

theorem addTask_refines_witness:
  "\<exists>ls. fire_all (Call 1 (Op_Add a_task) # ls) (run_from_start start2) =
    Some (addTask a_task (run_from_start start2))"
proof -
  have "callers (run_from_start start2) 1 = C_Idle" "mtx (run_from_start start2) = None" by code_simp+
  from addTask_refines [OF this, of a_task] show ?thesis by blast
qed

end
