(* ===== verification/SockAddr.thy ===== *)
theory SockAddr
  imports SocketBase
begin

section \<open>The three socket families: \<open>socketUnix\<close>, \<open>socketIPv4\<close>, \<open>socketIPv6\<close>\<close>

text \<open>
  The overrides of \<open>socket\<close>, \<open>bind\<close> and \<open>connect\<close> (\<open>server/socket/socketUnix.cpp\<close>, \<open>socketIPv4.cpp\<close>,
  \<open>socketIPv6.cpp\<close> and their headers). An address is what the code lays out in memory: the
  \<open>sockaddr_un\<close> of 110 bytes, of which the length passed to the kernel selects a prefix, and the
  \<open>sockaddr_in\<close> of 16 bytes, whose last eight bytes (\<open>sin_zero\<close>) no statement writes. \<open>bind\<close> is
  overloaded: \<open>bind_addr\<close> takes the string, \<open>bind_port\<close> the port. Parameter: \<open>inet_addr\<close> of the C
  library, from a string to an address in network order.
\<close>

subsection \<open>C strings\<close>

text \<open>\<open>c_str()\<close> read as a C string ends at its first zero byte.\<close>

definition c_string :: "byte list \<Rightarrow> byte list" where
  "c_string s = takeWhile (\<lambda>b. b \<noteq> 0) s"

definition strcpy :: "byte list \<Rightarrow> byte list \<Rightarrow> byte list res" where
  "strcpy dst src = write_at dst 0 (c_string src @ [0])"

definition strlen :: "byte list \<Rightarrow> nat" where
  "strlen buf = length (c_string buf)"

lemma c_string_idem: "c_string (c_string s @ 0 # q) = c_string s"
  by (induction s) (simp_all add: c_string_def)

lemma strcpy_ok:
  assumes "length (c_string src) < length dst"
  shows "strcpy dst src = Inr (c_string src @ 0 # drop (Suc (length (c_string src))) dst)"
  using assms by (simp add: strcpy_def write_first)

lemma strcpy_overflow: "length dst \<le> length (c_string src) \<Longrightarrow> strcpy dst src = Inl OOB_Write"
  by (simp add: strcpy_def write_at_oob)

subsection \<open>Unix domain\<close>

definition le16 :: "int \<Rightarrow> byte list" where
  "le16 n = [word_of_int n, word_of_int (n div 256)]"

text \<open>The bytes of \<open>unaddr\<close> that the call passes on: \<open>offsetof(sun_path) + strlen(sun_path)\<close> of them.\<close>

definition fill_sockaddr_un :: "byte list \<Rightarrow> (byte list \<times> cell list) res" where
  "fill_sockaddr_un addr =
     bind_res (strcpy (replicate 108 0) addr) (\<lambda>sun_path.
       Inr (c_string sun_path, map Some (take (2 + strlen sun_path) (le16 AF_UNIX @ sun_path))))"

definition socketUnix_socket :: "socketBase \<Rightarrow> os \<Rightarrow> (int \<times> socketBase \<times> os) res" where
  "socketUnix_socket s w =
     bind_res (sys_int (Sys_socket AF_UNIX SOCK_STREAM 0) w) (\<lambda>(fd, w'). Inr (fd, s\<lparr>m_socket := fd\<rparr>, w'))"

definition socketUnix_bind_addr :: "byte list \<Rightarrow> socketBase \<Rightarrow> os \<Rightarrow> (int \<times> os) res" where
  "socketUnix_bind_addr addr s w =
     (if 0 < m_socket s then
        bind_res (fill_sockaddr_un addr) (\<lambda>(path, unaddr).
        bind_res (sys_int (Sys_unlink path) w) (\<lambda>(_, w1).
        sys_int (Sys_bind (m_socket s) unaddr) w1))
      else Inr (- 1, w))"

definition socketUnix_bind_port :: "u16 \<Rightarrow> int" where
  "socketUnix_bind_port port = - 1"

definition socketUnix_connect :: "int \<Rightarrow> byte list \<Rightarrow> u32 \<Rightarrow> os \<Rightarrow> (int \<times> os) res" where
  "socketUnix_connect fd addr port w =
     (if 0 < fd then
        bind_res (fill_sockaddr_un addr) (\<lambda>(_, serverAddr).
        sys_int (Sys_connect fd serverAddr) w)
      else Inr (- 1, w))"

text \<open>The address a path stands for: the family and the path without its final zero.\<close>

lemma fill_sockaddr_un_ok:
  assumes "length (c_string addr) < 108"
  shows "fill_sockaddr_un addr = Inr (c_string addr, map Some ([1, 0] @ c_string addr))"
proof -
  have "strcpy (replicate 108 0) addr =
      Inr (c_string addr @ 0 # drop (Suc (length (c_string addr))) (replicate 108 0))"
    using assms by (intro strcpy_ok) simp
  then show ?thesis
    by (simp add: fill_sockaddr_un_def strlen_def c_string_idem le16_def AF_UNIX_def)
qed

lemma fill_sockaddr_un_overflow:
  "108 \<le> length (c_string addr) \<Longrightarrow> fill_sockaddr_un addr = Inl OOB_Write"
  by (simp add: fill_sockaddr_un_def strcpy_overflow)

subsection \<open>Internet\<close>

definition htons :: "u16 \<Rightarrow> byte list" where
  "htons port = [ucast (drop_bit 8 port), ucast port]"

definition INADDR_ANY :: u32 where
  "INADDR_ANY = 0"

definition sockaddr_in :: "int \<Rightarrow> u16 \<Rightarrow> u32 \<Rightarrow> cell list" where
  "sockaddr_in family port addr = map Some (le16 family @ htons port @ le32 addr) @ replicate 8 None"

definition socketIPv4_socket :: "socketBase \<Rightarrow> os \<Rightarrow> (int \<times> socketBase \<times> os) res" where
  "socketIPv4_socket s w =
     bind_res (sys_int (Sys_socket AF_INET SOCK_STREAM 0) w) (\<lambda>(fd, w'). Inr (fd, s\<lparr>m_socket := fd\<rparr>, w'))"

definition socketIPv4_bind_addr :: "byte list \<Rightarrow> int" where
  "socketIPv4_bind_addr addr = - 1"

definition socketIPv4_bind_port :: "u16 \<Rightarrow> socketBase \<Rightarrow> os \<Rightarrow> (int \<times> os) res" where
  "socketIPv4_bind_port port s w =
     (if 0 < m_socket s
      then sys_int (Sys_bind (m_socket s) (sockaddr_in AF_INET port INADDR_ANY)) w
      else Inr (- 1, w))"

text \<open>The \<open>unsigned int\<close> port is cut to the 16 bits \<open>htons\<close> takes.\<close>

definition socketIPv4_connect ::
  "(byte list \<Rightarrow> u32) \<Rightarrow> int \<Rightarrow> byte list \<Rightarrow> u32 \<Rightarrow> os \<Rightarrow> (int \<times> os) res" where
  "socketIPv4_connect inet_addr fd addr port w =
     (if 0 < fd
      then sys_int (Sys_connect fd (sockaddr_in AF_INET (ucast port) (inet_addr (c_string addr)))) w
      else Inr (- 1, w))"

definition socketIPv6_socket :: "socketBase \<Rightarrow> os \<Rightarrow> (int \<times> socketBase \<times> os) res" where
  "socketIPv6_socket s w =
     bind_res (sys_int (Sys_socket AF_INET6 SOCK_STREAM 0) w) (\<lambda>(fd, w'). Inr (fd, s\<lparr>m_socket := fd\<rparr>, w'))"

definition socketIPv6_bind_addr :: "byte list \<Rightarrow> int" where
  "socketIPv6_bind_addr addr = - 1"

definition socketIPv6_bind_port :: "u16 \<Rightarrow> socketBase \<Rightarrow> os \<Rightarrow> (int \<times> os) res" where
  "socketIPv6_bind_port port s w =
     (if 0 < m_socket s
      then sys_int (Sys_bind (m_socket s) (sockaddr_in AF_INET6 port INADDR_ANY)) w
      else Inr (- 1, w))"

definition socketIPv6_connect ::
  "(byte list \<Rightarrow> u32) \<Rightarrow> int \<Rightarrow> byte list \<Rightarrow> u32 \<Rightarrow> os \<Rightarrow> (int \<times> os) res" where
  "socketIPv6_connect inet_addr fd addr port w =
     (if 0 < fd
      then sys_int (Sys_connect fd (sockaddr_in AF_INET6 (ucast port) (inet_addr (c_string addr)))) w
      else Inr (- 1, w))"

lemma length_sockaddr_in [simp]: "length (sockaddr_in family port addr) = 16"
  by (simp add: sockaddr_in_def le16_def htons_def)

text \<open>What a reader of an internet address gets back.\<close>

definition port_of :: "cell list \<Rightarrow> u16 res" where
  "port_of a = bind_res (read_at a 2 2) (\<lambda>cs. bind_res (init_cells cs) (\<lambda>bs.
     Inr (or (push_bit 8 (ucast (bs ! 0))) (ucast (bs ! 1)))))"

definition in_addr_of :: "cell list \<Rightarrow> u32 res" where
  "in_addr_of a = load32 a 4"

lemma htons_roundtrip: "or (push_bit 8 (ucast (ucast (drop_bit 8 p) :: byte) :: u16)) (ucast (ucast p :: byte)) = p"
proof (rule bit_word_eqI)
  fix n
  assume "n < LENGTH(16)"
  then show "bit (or (push_bit 8 (ucast (ucast (drop_bit 8 p) :: byte) :: u16)) (ucast (ucast p :: byte))) n = bit p n"
    by (cases "n < 8") (auto simp: bit_simps byte_bit_high)
qed

lemma port_of_sockaddr_in [simp]: "port_of (sockaddr_in family port addr) = Inr port"
  by (simp add: port_of_def sockaddr_in_def le16_def htons_def read_at_def init_cells_def htons_roundtrip)

lemma in_addr_of_sockaddr_in [simp]: "in_addr_of (sockaddr_in family port addr) = Inr addr"
  using load32_append [of 4 "map Some (le16 family @ htons port)" addr "replicate 8 None"]
  by (simp add: in_addr_of_def sockaddr_in_def le16_def htons_def)


subsection \<open>Properties\<close>

text \<open>C38: \<open>socketUnix::bind\<close> removes the path and binds the socket to the address of exactly that path,
  and returns what the kernel answers; for a path of 108 bytes or more it writes past the end of
  \<open>sun_path\<close> before any system call.\<close>

theorem unix_bind:
  assumes "0 < m_socket s"
  shows "socketUnix_bind_addr addr s (os_of (Ret u # Ret r # as)) =
    (if length (c_string addr) < 108
     then Inr (r, \<lparr>answers = as, calls = [Sys_unlink (c_string addr),
                                        Sys_bind (m_socket s) (map Some ([1, 0] @ c_string addr))]\<rparr>)
     else Inl OOB_Write)"
  using assms fill_sockaddr_un_ok [of addr] fill_sockaddr_un_overflow [of addr]
  by (simp add: socketUnix_bind_addr_def os_of_def not_less)

theorem unix_bind_witness:
  "socketUnix_bind_addr (replicate 200 65) ((new_socketBase True 0)\<lparr>m_socket := 3\<rparr>) (os_of [Ret 0, Ret 0]) =
   Inl OOB_Write"
proof -
  have "c_string (replicate 200 65) = replicate 200 65" by (simp add: c_string_def takeWhile_eq_all_conv)
  then show ?thesis
    using unix_bind [of "(new_socketBase True 0)\<lparr>m_socket := 3\<rparr>" "replicate 200 65" 0 0 "[]"] by simp
qed

text \<open>\<open>socketIPv4::connect\<close> passes an address of 16 bytes from which the kernel reads the port and the
  internet address; the port is the argument modulo 65536.\<close>

theorem ipv4_connect:
  assumes "0 < fd"
  shows "\<exists>a. socketIPv4_connect inet_addr fd addr port (os_of (Ret r # as)) =
      Inr (r, \<lparr>answers = as, calls = [Sys_connect fd a]\<rparr>) \<and>
    length a = 16 \<and> port_of a = Inr (word_of_nat (unat port mod 65536)) \<and>
    in_addr_of a = Inr (inet_addr (c_string addr))"
proof -
  have "(ucast port :: u16) = word_of_nat (unat port mod 65536)"
    by (rule word_unat_eq_iff [THEN iffD2]) (simp add: unsigned_of_nat unsigned_ucast_eq take_bit_eq_mod)
  with assms show ?thesis
    by (intro exI [of _ "sockaddr_in AF_INET (ucast port) (inet_addr (c_string addr))"])
      (simp add: socketIPv4_connect_def os_of_def)
qed

theorem ipv4_connect_witness:
  "\<exists>a. socketIPv4_connect (\<lambda>s. 16777343) 3 [49] 8080 (os_of [Ret 0]) = Inr (0, \<lparr>answers = [], calls = [Sys_connect 3 a]\<rparr>) \<and>
    port_of a = Inr 8080 \<and> in_addr_of a = Inr 16777343"
  using ipv4_connect [of 3 "\<lambda>s. 16777343" "[49]" 8080 0 "[]"] by auto

text \<open>\<open>socketIPv6::bind\<close> announces the family \<open>AF_INET6\<close> with the 16 bytes of an IPv4 address, the
  second half of which is never written: not the 28 bytes of a \<open>sockaddr_in6\<close>.\<close>

theorem ipv6_bind_short:
  assumes "0 < m_socket s"
  shows "\<exists>a. socketIPv6_bind_port port s (os_of (Ret r # as)) =
      Inr (r, \<lparr>answers = as, calls = [Sys_bind (m_socket s) a]\<rparr>) \<and>
    length a = 16 \<and> take 2 a = map Some [10, 0] \<and> port_of a = Inr port \<and> drop 8 a = replicate 8 None"
  using assms
  by (intro exI [of _ "sockaddr_in AF_INET6 port INADDR_ANY"])
    (simp add: socketIPv6_bind_port_def os_of_def, simp add: sockaddr_in_def le16_def AF_INET6_def htons_def)

theorem ipv6_bind_short_witness:
  "\<exists>a. socketIPv6_bind_port 8080 ((new_socketBase True 0)\<lparr>m_socket := 3\<rparr>) (os_of [Ret 0]) =
      Inr (0, \<lparr>answers = [], calls = [Sys_bind 3 a]\<rparr>) \<and> length a = 16"
  using ipv6_bind_short [of "(new_socketBase True 0)\<lparr>m_socket := 3\<rparr>" 8080 0 "[]"] by auto

end
