(* ===== verification/SocketClient.thy ===== *)
theory SocketClient
  imports SockAddr HexChar
begin

section \<open>The client: \<open>client/socketClient.h\<close>, \<open>socketClient.cpp\<close>\<close>

text \<open>
  \<open>doConnect\<close> opens a Unix socket, binds it to a path of its own, connects, sends the request and
  collects the response, whose length it takes from the first four bytes that arrive.
  \<open>m_addr\<close> and \<open>m_port\<close> are stored and never used. The numbers of \<open>recv_loop\<close> are those of the code:
  \<open>len\<close> is an \<open>int\<close>, \<open>resp.size() + len\<close> is computed modulo \<open>2^64\<close> (so an error, -1, wraps around)
  and \<open>ackLen - resp.size()\<close> is cut to an \<open>int\<close>. Argument: \<open>thread_id\<close>, the number \<open>sprintf\<close> reads for
  \<open>%u\<close> where the code passes \<open>std::this_thread::get_id()\<close>.
\<close>

subsection \<open>Data\<close>

record socketClient =
  m_addr :: "byte list"
  m_port :: int

definition new_socketClient :: "byte list \<Rightarrow> int \<Rightarrow> socketClient" where
  "new_socketClient addr port = \<lparr>m_addr = addr, m_port = port\<rparr>"

definition SOCKETBUFFER_SIZE :: nat where
  "SOCKETBUFFER_SIZE = 4096"

definition ascii :: "string \<Rightarrow> byte list" where
  "ascii s = map (\<lambda>c. of_nat (of_char c)) s"

definition SERVER_SOCKET :: "byte list" where
  "SERVER_SOCKET = ascii ''/tmp/socket_wg_tde_server''"

definition OWEN_SOCKET :: "byte list" where
  "OWEN_SOCKET = ascii ''/tmp/socket_wg_tde_client_''"

text \<open>\<open>%u\<close>\<close>

fun decimal :: "nat \<Rightarrow> byte list" where
  "decimal n = (if n < 10 then [of_nat (48 + n)] else decimal (n div 10) @ [of_nat (48 + n mod 10)])"

declare decimal.simps [simp del]

definition own_path :: "u32 \<Rightarrow> byte list" where
  "own_path thread_id = OWEN_SOCKET @ decimal (unat thread_id)"

subsection \<open>Collecting the response\<close>

text \<open>\<open>resp.append(buf, n)\<close>, where \<open>n\<close> was an \<open>int\<close> and is a \<open>size_t\<close> now.\<close>

definition append_n :: "byte list \<Rightarrow> byte list \<Rightarrow> int \<Rightarrow> byte list res" where
  "append_n resp buf n =
     (let k = n mod 2 ^ 64 in
      if 2 ^ 63 - 1 < k + int (length resp) then Inl Length_Error
      else bind_res (read_at buf 0 (nat k)) (\<lambda>bs. Inr (resp @ bs)))"

function recv_loop :: "int \<Rightarrow> byte list \<Rightarrow> u32 \<Rightarrow> os \<Rightarrow> (byte list \<times> os) res" where
  "recv_loop client resp ackLen w =
     bind_res (sys_recv client SOCKETBUFFER_SIZE w) (\<lambda>(len, bs, w1).
       if len = 0 then Inr (resp, w1)
       else
         (let buf = bs @ replicate (SOCKETBUFFER_SIZE - length bs) 0;
              (ackLen1, resp1) = (if ackLen = 0 then (of_le32 (take 4 buf), []) else (ackLen, resp))
          in
          if (int (length resp1) + len) mod 2 ^ 64 < uint ackLen1
          then bind_res (append_n resp1 buf len) (\<lambda>resp2. recv_loop client resp2 ackLen1 w1)
          else bind_res (append_n resp1 buf (sint (ackLen1 - word_of_nat (length resp1)))) (\<lambda>resp2.
                 Inr (resp2, w1))))"
  by pat_completeness auto
termination
  by (relation "measure (\<lambda>(c, r, a, w). length (answers w))") (auto dest: sys_recv_shorter)

declare recv_loop.simps [simp del]

subsection \<open>One request and its response\<close>

definition outdata_size :: nat where
  "outdata_size = 1024 * 1024 * 4"

definition doConnect :: "u32 \<Rightarrow> byte list \<Rightarrow> byte list \<Rightarrow> os \<Rightarrow> (int \<times> byte list \<times> os) res" where
  "doConnect thread_id req resp w =
     bind_res (sys_int (Sys_socket AF_UNIX SOCK_STREAM 0) w) (\<lambda>(client, w1).
     if client = - 1 then Inr (- 1, resp, w1)
     else
       bind_res (fill_sockaddr_un (own_path thread_id)) (\<lambda>(path, owenAddr).
       bind_res (sys_int (Sys_unlink path) w1) (\<lambda>(_, w2).
       bind_res (sys_int (Sys_bind client owenAddr) w2) (\<lambda>(r, w3).
       if r < 0 then Inr (- 1, resp, w3)
       else
         bind_res (fill_sockaddr_un SERVER_SOCKET) (\<lambda>(_, serverAddr).
         bind_res (sys_int (Sys_connect client serverAddr) w3) (\<lambda>(r, w4).
         if r < 0 then Inr (- 1, resp, w4)
         else
           bind_res (CharToHex (replicate outdata_size 0) req (int (length req))) (\<lambda>outdata.
           bind_res (sys_int (Sys_send client req) w4) (\<lambda>(sent, w5).
           if sent \<le> 0
           then bind_res (sys_int (Sys_close client) w5) (\<lambda>(_, w6). Inr (- 1, resp, w6))
           else
             bind_res (recv_loop client [] 0 w5) (\<lambda>(resp1, w6).
             bind_res (sys_int (Sys_close client) w6) (\<lambda>(_, w7).
             Inr (0, resp1, w7)))))))))))"


subsection \<open>Paths\<close>

lemma decimal_length: "n < 10 ^ Suc k \<Longrightarrow> length (decimal n) \<le> Suc k"
proof (induction k arbitrary: n)
  case (Suc k)
  then have "length (decimal (n div 10)) \<le> Suc k" by (intro Suc.IH) auto
  then show ?case by (subst decimal.simps) simp
qed (simp add: decimal.simps)

lemma decimal_digits: "0 \<notin> set (decimal n)"
proof (induction n rule: decimal.induct)
  case (1 n)
  have digit: "(of_nat (48 + k) :: byte) \<noteq> 0" if "k < 10" for k
  proof -
    have "unat (of_nat (48 + k) :: byte) = 48 + k"
      using that by (simp add: unsigned_of_nat take_bit_nat_eq_self del: of_nat_add)
    then show ?thesis by (metis add_eq_0_iff_both_eq_0 unsigned_0 zero_neq_numeral)
  qed
  show ?case
  proof (cases "n < 10")
    case True
    then show ?thesis using digit [of n] by (subst decimal.simps) auto
  next
    case False
    then show ?thesis using digit [of "n mod 10"] 1 by (subst decimal.simps) auto
  qed
qed

lemma c_string_plain: "0 \<notin> set s \<Longrightarrow> c_string s = s"
  by (induction s) (simp_all add: c_string_def)

lemma own_path_plain: "0 \<notin> set (own_path t)" and own_path_length: "length (own_path t) \<le> 36"
proof -
  have "0 \<notin> set OWEN_SOCKET" by code_simp
  then show "0 \<notin> set (own_path t)" by (simp add: own_path_def decimal_digits)
  have "length OWEN_SOCKET = 26" by code_simp
  moreover have "length (decimal (unat t)) \<le> 10"
    using decimal_length [of "unat t" 9] unat32_bound [of t] by simp
  ultimately show "length (own_path t) \<le> 36" by (simp add: own_path_def)
qed

lemma own_address: "fill_sockaddr_un (own_path t) = Inr (own_path t, map Some ([1, 0] @ own_path t))"
  using fill_sockaddr_un_ok [of "own_path t"] own_path_length [of t]
  by (simp add: c_string_plain [OF own_path_plain])

lemma server_address:
  "fill_sockaddr_un SERVER_SOCKET = Inr (SERVER_SOCKET, map Some ([1, 0] @ SERVER_SOCKET))"
proof -
  have "0 \<notin> set SERVER_SOCKET" and "length SERVER_SOCKET < 108" by code_simp+
  then show ?thesis using fill_sockaddr_un_ok [of SERVER_SOCKET] by (simp add: c_string_plain)
qed

subsection \<open>The response in pieces\<close>

definition piece_ok :: "byte list \<Rightarrow> bool" where
  "piece_ok p \<longleftrightarrow> p \<noteq> [] \<and> length p \<le> SOCKETBUFFER_SIZE"

lemma append_n_ok:
  "n = int k \<Longrightarrow> k \<le> length bs \<Longrightarrow> length resp < 2 ^ 32 \<Longrightarrow> k \<le> 4096 \<Longrightarrow>
   append_n resp (bs @ q) n = Inr (resp @ take k bs)"
  by (simp add: append_n_def read_at_def Let_def)

lemma sint_small:
  assumes "unat (w :: u32) < 2 ^ 31"
  shows "sint w = int (unat w)"
proof -
  have "uint w < 2 ^ 31" using assms by (metis of_nat_less_iff of_nat_numeral of_nat_power uint_nat)
  moreover have "- (2 ^ 31) \<le> uint w" by (rule order_trans [OF _ uint_ge_0]) simp
  ultimately have "signed_take_bit 31 (uint w) = uint w" by (intro signed_take_bit_int_eq_self)
  then show ?thesis by (simp add: sint_uint)
qed

text \<open>The comparison of the code, for a \<open>recv\<close> that succeeded.\<close>

lemma length_test:
  assumes "a < 2 ^ 32" and "b \<le> 4096"
  shows "(int a + int b) mod 2 ^ 64 < uint (L :: u32) \<longleftrightarrow> a + b < unat L"
proof -
  have "int a + int b < 2 ^ 64" using assms by simp
  then have "(int a + int b) mod 2 ^ 64 = int (a + b)" by (subst mod_pos_pos_trivial) simp_all
  moreover have "uint L = int (unat L)" by simp
  ultimately show ?thesis by (simp only: of_nat_less_iff)
qed

lemma recv_more:
  assumes "piece_ok p" and "ackLen \<noteq> 0" and "length resp + length p < unat ackLen"
  shows "recv_loop c resp ackLen \<lparr>answers = Bytes p # as, calls = cs\<rparr> =
    recv_loop c (resp @ p) ackLen \<lparr>answers = as, calls = cs @ [Sys_recv c SOCKETBUFFER_SIZE]\<rparr>"
proof -
  have p: "take SOCKETBUFFER_SIZE p = p" "p \<noteq> []" "length p \<le> 4096"
    using assms(1) by (simp_all add: piece_ok_def SOCKETBUFFER_SIZE_def)
  have L: "unat ackLen < 2 ^ 32" by (rule unat32_bound)
  have lt: "(int (length resp) + int (length p)) mod 2 ^ 64 < uint ackLen"
    using length_test [of "length resp" "length p" ackLen] assms(3) p(3) L by simp
  have "append_n resp (p @ replicate (SOCKETBUFFER_SIZE - length p) 0) (int (length p)) = Inr (resp @ p)"
    using append_n_ok [OF refl, of "length p" p resp] assms(3) p(3) L by simp
  then show ?thesis
    using p(1,2) lt assms(2) by (subst recv_loop.simps) (simp add: Let_def)
qed

lemma recv_last:
  assumes "piece_ok p" and "ackLen \<noteq> 0" and "length resp < unat ackLen"
    and "unat ackLen \<le> length resp + length p"
  shows "recv_loop c resp ackLen \<lparr>answers = Bytes p # as, calls = cs\<rparr> =
    Inr (resp @ take (unat ackLen - length resp) p,
         \<lparr>answers = as, calls = cs @ [Sys_recv c SOCKETBUFFER_SIZE]\<rparr>)"
proof -
  let ?k = "unat ackLen - length resp"
  have p: "take SOCKETBUFFER_SIZE p = p" "p \<noteq> []" "length p \<le> 4096"
    using assms(1) by (simp_all add: piece_ok_def SOCKETBUFFER_SIZE_def)
  have L: "unat ackLen < 2 ^ 32" by (rule unat32_bound)
  have ge: "\<not> (int (length resp) + int (length p)) mod 2 ^ 64 < uint ackLen"
    using length_test [of "length resp" "length p" ackLen] assms(3,4) L p(3) by simp
  have "unat (ackLen - word_of_nat (length resp)) = ?k"
    using assms(3) L unat32_of_nat [of "length resp"] by (subst unat32_sub) simp_all
  then have k: "sint (ackLen - word_of_nat (length resp)) = int ?k"
    using assms(4) p(3) sint_small [of "ackLen - word_of_nat (length resp)"] by simp
  have "append_n resp (p @ replicate (SOCKETBUFFER_SIZE - length p) 0) (int ?k) = Inr (resp @ take ?k p)"
    using append_n_ok [OF refl, of ?k p resp] assms(3,4) p(3) L by simp
  then show ?thesis
    using p(1,2) ge assms(2) k by (subst recv_loop.simps) (simp add: Let_def)
qed

lemma recv_rest:
  assumes "ackLen \<noteq> 0"
  shows "list_all piece_ok ps \<Longrightarrow> ps \<noteq> [] \<Longrightarrow> length resp + length (concat ps) = unat ackLen \<Longrightarrow>
    recv_loop c resp ackLen \<lparr>answers = map Bytes ps @ as, calls = cs\<rparr> =
    Inr (resp @ concat ps, \<lparr>answers = as, calls = cs @ replicate (length ps) (Sys_recv c SOCKETBUFFER_SIZE)\<rparr>)"
proof (induction ps arbitrary: resp cs)
  case (Cons p ps)
  then have p: "piece_ok p" "p \<noteq> []" by (simp_all add: piece_ok_def)
  show ?case
  proof (cases "ps = []")
    case True
    have "0 < length p" using p(2) by simp
    then have "length resp < unat ackLen" "unat ackLen \<le> length resp + length p"
      using Cons.prems(3) True by (simp_all del: length_greater_0_conv)
    from recv_last [OF p(1) assms this, of c as cs] Cons.prems(3) True show ?thesis
      by simp
  next
    case False
    then have "concat ps \<noteq> []" using Cons.prems(1) by (cases ps) (simp_all add: piece_ok_def)
    then have "length resp + length p < unat ackLen" using Cons.prems(3) by (cases "concat ps") simp_all
    from recv_more [OF p(1) assms this, of c "map Bytes ps @ as" cs] False Cons show ?thesis
      by simp
  qed
qed simp

text \<open>The first piece brings the length.\<close>

lemma recv_first:
  assumes "piece_ok p" and "4 \<le> length p" and "of_le32 (take 4 p) \<noteq> 0"
  shows "recv_loop c resp 0 \<lparr>answers = Bytes p # as, calls = cs\<rparr> =
    recv_loop c [] (of_le32 (take 4 p)) \<lparr>answers = Bytes p # as, calls = cs\<rparr>"
proof -
  have p: "take SOCKETBUFFER_SIZE p = p" using assms(1) by (simp add: piece_ok_def)
  have "p \<noteq> []" using assms(2) by auto
  then show ?thesis
    using assms(2,3) p
    by (subst (1 2) recv_loop.simps) (simp add: Let_def)
qed

lemma recv_response:
  assumes "concat ps = f" and "list_all piece_ok ps" and "4 \<le> length (hd ps)" and "ps \<noteq> []"
    and "unat (of_le32 (take 4 f)) = length f"
  shows "recv_loop c resp 0 \<lparr>answers = map Bytes ps @ as, calls = cs\<rparr> =
    Inr (f, \<lparr>answers = as, calls = cs @ replicate (length ps) (Sys_recv c SOCKETBUFFER_SIZE)\<rparr>)"
proof -
  obtain p qs where ps: "ps = p # qs" using assms(4) by (cases ps) auto
  have four: "take 4 f = take 4 p" using assms(1,3) ps by auto
  have "f \<noteq> []" using assms(1,2) ps by (auto simp: piece_ok_def)
  then have nz: "of_le32 (take 4 p) \<noteq> 0" using assms(5) four by auto
  have "recv_loop c resp 0 \<lparr>answers = map Bytes ps @ as, calls = cs\<rparr> =
      recv_loop c [] (of_le32 (take 4 p)) \<lparr>answers = map Bytes ps @ as, calls = cs\<rparr>"
    using recv_first [of p c resp] nz assms(2,3) ps by simp
  also have "\<dots> = Inr (f, \<lparr>answers = as, calls = cs @ replicate (length ps) (Sys_recv c SOCKETBUFFER_SIZE)\<rparr>)"
    using recv_rest [OF nz assms(2,4), of "[]" c as cs] assms(1,5) four by simp
  finally show ?thesis .
qed

text \<open>A connection on which every call succeeds.\<close>

definition client_calls :: "int \<Rightarrow> u32 \<Rightarrow> byte list \<Rightarrow> nat \<Rightarrow> sys_call list" where
  "client_calls c t req n =
     [Sys_socket AF_UNIX SOCK_STREAM 0, Sys_unlink (own_path t),
      Sys_bind c (map Some ([1, 0] @ own_path t)), Sys_connect c (map Some ([1, 0] @ SERVER_SOCKET)),
      Sys_send c req] @ replicate n (Sys_recv c SOCKETBUFFER_SIZE) @ [Sys_close c]"

lemma log_dump:
  assumes "2 * length req \<le> outdata_size"
  shows "\<exists>out. CharToHex (replicate outdata_size 0) req (int (length req)) = Inr out"
  using CharToHex_result [of "length req" req "replicate outdata_size 0"] assms by simp

lemma doConnect_success:
  assumes "c \<noteq> - 1" and "0 \<le> b" and "0 \<le> n" and "0 < k" and "2 * length req \<le> outdata_size"
    and "concat ps = f" and "list_all piece_ok ps" and "4 \<le> length (hd ps)" and "ps \<noteq> []"
    and "unat (of_le32 (take 4 f)) = length f"
  shows "doConnect t req resp (os_of ([Ret c, Ret u, Ret b, Ret n, Ret k] @ map Bytes ps @ [Ret z])) =
    Inr (0, f, \<lparr>answers = [], calls = client_calls c t req (length ps)\<rparr>)"
proof -
  obtain out where "CharToHex (replicate outdata_size 0) req (int (length req)) = Inr out"
    using log_dump [OF assms(5)] by blast
  then show ?thesis
    using assms(1-4) recv_response [OF assms(6-10), of c "[]" "[Ret z]"]
    by (simp add: doConnect_def os_of_def own_address server_address client_calls_def)
qed


subsection \<open>Properties\<close>



text \<open>A \<open>recv\<close> that fails after part of the response has arrived is not noticed: its -1 is appended as a
  length, and \<open>std::string::append\<close> throws.\<close>

theorem recv_error_throws:
  assumes "piece_ok p" and "4 \<le> length p" and "length p < unat (of_le32 (take 4 p))"
  shows "recv_loop c resp 0 \<lparr>answers = Bytes p # Ret (- 1) # as, calls = cs\<rparr> = Inl Length_Error"
proof -
  let ?L = "of_le32 (take 4 p)"
  have nz: "?L \<noteq> 0" using assms(3) by auto
  have L: "unat ?L < 2 ^ 32" by (rule unat32_bound)
  have "(int (length p) + - 1) mod 2 ^ 64 = int (length p) - 1"
    using assms(2,3) L by (subst mod_pos_pos_trivial) auto
  moreover have "uint ?L = int (unat ?L)" by simp
  moreover have "int (length p) - 1 < int (unat ?L)" using assms(3) by linarith
  ultimately have lt: "(int (length p) + - 1) mod 2 ^ 64 < uint ?L" by (simp only:)
  have th: "append_n p (replicate SOCKETBUFFER_SIZE 0) (- 1) = Inl Length_Error"
    by (simp add: append_n_def Let_def)
  have "recv_loop c resp 0 \<lparr>answers = Bytes p # Ret (- 1) # as, calls = cs\<rparr> =
      recv_loop c p ?L \<lparr>answers = Ret (- 1) # as, calls = cs @ [Sys_recv c SOCKETBUFFER_SIZE]\<rparr>"
    using recv_first [OF assms(1,2) nz] recv_more [OF assms(1) nz, of "[]" c] assms(3) by simp
  also have "\<dots> = Inl Length_Error"
    using lt th nz by (subst recv_loop.simps) (simp add: Let_def)
  finally show ?thesis .
qed

theorem recv_error_throws_witness:
  "recv_loop 3 [] 0 \<lparr>answers = [Bytes [20, 4, 0, 0], Ret (- 1)], calls = []\<rparr> = Inl Length_Error"
  using recv_error_throws [of "[20, 4, 0, 0]" 3 "[]" "[]" "[]"]
  by (simp add: piece_ok_def SOCKETBUFFER_SIZE_def of_le32_def)

text \<open>When \<open>bind\<close> or \<open>connect\<close> fails, \<open>doConnect\<close> returns -1 and never closes the socket it opened.\<close>

theorem failed_connect_leaks:
  assumes "c \<noteq> - 1" and "b < 0 \<or> n < 0"
  shows "\<exists>w. doConnect t req resp (os_of [Ret c, Ret u, Ret b, Ret n]) = Inr (- 1, resp, w) \<and>
    Sys_socket AF_UNIX SOCK_STREAM 0 \<in> set (calls w) \<and> Sys_close c \<notin> set (calls w)"
  using assms
  by (cases "b < 0") (simp_all add: doConnect_def os_of_def own_address server_address)

theorem failed_connect_leaks_witness:
  "\<exists>w. doConnect 77 [1] [] (os_of [Ret 3, Ret 0, Ret 0, Ret (- 1)]) = Inr (- 1, [], w) \<and>
    Sys_close 3 \<notin> set (calls w)"
  using failed_connect_leaks [of 3 0 "- 1" 77 "[1]" "[]" 0] by auto

text \<open>When the server closes the connection inside a response, \<open>doConnect\<close> still returns 0, with the
  part that arrived.\<close>

theorem early_end_reported_as_success:
  assumes "c \<noteq> - 1" and "0 < k" and "2 * length req \<le> outdata_size"
    and "piece_ok p" and "4 \<le> length p" and "length p < unat (of_le32 (take 4 p))"
  shows "\<exists>w. doConnect t req resp (os_of [Ret c, Ret 0, Ret 0, Ret 0, Ret k, Bytes p, Bytes [], Ret 0]) =
    Inr (0, p, w)"
proof -
  let ?L = "of_le32 (take 4 p)" and ?cs = "\<lambda>cs. cs @ [Sys_recv c SOCKETBUFFER_SIZE]"
  have nz: "?L \<noteq> 0" using assms(6) by auto
  have loop: "recv_loop c [] 0 \<lparr>answers = [Bytes p, Bytes [], Ret 0], calls = cs\<rparr> =
      Inr (p, \<lparr>answers = [Ret 0], calls = ?cs (?cs cs)\<rparr>)" for cs
  proof -
    have "recv_loop c [] 0 \<lparr>answers = [Bytes p, Bytes [], Ret 0], calls = cs\<rparr> =
        recv_loop c p ?L \<lparr>answers = [Bytes [], Ret 0], calls = ?cs cs\<rparr>"
      using recv_first [OF assms(4,5) nz] recv_more [OF assms(4) nz, of "[]" c] assms(6) by simp
    also have "\<dots> = Inr (p, \<lparr>answers = [Ret 0], calls = ?cs (?cs cs)\<rparr>)"
      by (subst recv_loop.simps) simp
    finally show ?thesis .
  qed
  obtain out where "CharToHex (replicate outdata_size 0) req (int (length req)) = Inr out"
    using log_dump [OF assms(3)] by blast
  with assms(1,2) show ?thesis
    by (simp add: doConnect_def os_of_def own_address server_address loop)
qed

theorem early_end_reported_as_success_witness:
  "\<exists>w. doConnect 77 [1] [] (os_of [Ret 3, Ret 0, Ret 0, Ret 0, Ret 1, Bytes [20, 4, 0, 0], Bytes [], Ret 0]) =
    Inr (0, [20, 4, 0, 0], w)"
  using early_end_reported_as_success [of 3 1 "[1]" "[20, 4, 0, 0]" 77 "[]"]
  by (simp add: piece_ok_def SOCKETBUFFER_SIZE_def outdata_size_def of_le32_def)

end
