(* ===== verification/Logging.thy ===== *)
theory Logging
  imports Main
begin

section \<open>Log levels: \<open>utility/seclog.h\<close>\<close>

text \<open>
  The levels of \<open>SDKLOGLEVEL\<close> are the severities of the logging library (\<open>log_severity.h\<close>), an \<open>int\<close>
  each, which the library takes to lie below \<open>NUM_SEVERITIES\<close>. The macro \<open>SECLOG\<close> writes a line through
  the library and changes no state of the program; the log statements of the code are left out of the
  other theories, except for the hexadecimal dumps they are given.
\<close>

type_synonym LogSeverity = int

definition GLOG_INFO :: LogSeverity where "GLOG_INFO = 0"
definition GLOG_WARNING :: LogSeverity where "GLOG_WARNING = 1"
definition GLOG_DETAIL :: LogSeverity where "GLOG_DETAIL = 2"
definition GLOG_ERROR :: LogSeverity where "GLOG_ERROR = 3"
definition GLOG_FATAL :: LogSeverity where "GLOG_FATAL = 4"
definition NUM_SEVERITIES :: int where "NUM_SEVERITIES = 5"

lemmas severities = GLOG_INFO_def GLOG_WARNING_def GLOG_DETAIL_def GLOG_ERROR_def GLOG_FATAL_def NUM_SEVERITIES_def

datatype SDKLOGLEVEL = INFO | WARNING | DETAIL | ERROR | FATAL

primrec severity :: "SDKLOGLEVEL \<Rightarrow> LogSeverity" where
  "severity INFO = GLOG_INFO"
| "severity WARNING = GLOG_WARNING"
| "severity DETAIL = GLOG_DETAIL"
| "severity ERROR = GLOG_ERROR"
| "severity FATAL = GLOG_FATAL"

text \<open>The levels are ordered by their severity.\<close>

instantiation SDKLOGLEVEL :: linorder
begin

definition less_eq_SDKLOGLEVEL :: "SDKLOGLEVEL \<Rightarrow> SDKLOGLEVEL \<Rightarrow> bool" where
  "less_eq_SDKLOGLEVEL a b \<longleftrightarrow> severity a \<le> severity b"

definition less_SDKLOGLEVEL :: "SDKLOGLEVEL \<Rightarrow> SDKLOGLEVEL \<Rightarrow> bool" where
  "less_SDKLOGLEVEL a b \<longleftrightarrow> severity a < severity b"

instance
proof
  fix a b :: SDKLOGLEVEL
  show "a \<le> b \<Longrightarrow> b \<le> a \<Longrightarrow> a = b"
    by (cases a; cases b) (simp_all add: less_eq_SDKLOGLEVEL_def severities)
qed (auto simp: less_eq_SDKLOGLEVEL_def less_SDKLOGLEVEL_def)

end

lemma severity_range: "0 \<le> severity l \<and> severity l < NUM_SEVERITIES"
  by (cases l) (simp_all add: severities)

lemma severity_onto: "0 \<le> n \<Longrightarrow> n < NUM_SEVERITIES \<Longrightarrow> \<exists>l. severity l = n"
proof -
  assume "0 \<le> n" and "n < NUM_SEVERITIES"
  then have "n = 0 \<or> n = 1 \<or> n = 2 \<or> n = 3 \<or> n = 4" by (auto simp: severities)
  then show ?thesis by (metis severity.simps severities(1-5))
qed

lemma ERROR_below_FATAL: "INFO < WARNING \<and> WARNING < DETAIL \<and> DETAIL < ERROR \<and> ERROR < FATAL"
  by (simp add: less_SDKLOGLEVEL_def severities)

end
