(* ===== verification/Programs.thy ===== *)
theory Programs
  imports SocketClient Protocol Logging
begin

section \<open>The two programs: \<open>client/clientMain.cpp\<close>, \<open>server/server.cpp\<close>\<close>

text \<open>
  \<open>createClient\<close> is what each of the fifty threads of the client does; \<open>client_main\<close>, the client's
  \<open>main\<close>, is the list of the threads it starts and joins, with its exit status. \<open>server_main\<close> is the server's start: \<open>None\<close> for a server that runs (the final
  loop sleeps), the exit status otherwise. The construction of the controller, which starts the pool,
  and its destruction on the error exits are \<open>boot\<close> and \<open>delInstance\<close> of the theory ThreadPool.
\<close>

subsection \<open>The client\<close>

datatype client_report =
    No_Request
  | Api_Result u32 "byte list"
  | Parse_Failed

text \<open>\<open>std::string(ptr, n)\<close>\<close>

definition string_of :: "cell list option \<Rightarrow> u32 \<Rightarrow> byte list res" where
  "string_of ptr n =
     (case ptr of
        None \<Rightarrow> if n = 0 then Inr [] else Inl Null_Deref
      | Some p \<Rightarrow> bind_res (read_at p 0 (unat n)) init_cells)"

definition cmd_size :: u32 where
  "cmd_size = 1024 * 1024"

definition createClient :: "u32 \<Rightarrow> protocol \<Rightarrow> os \<Rightarrow> (client_report \<times> protocol \<times> os) res" where
  "createClient thread_id prot w =
     (let cmddata = replicate (unat cmd_size) (65 :: byte);
          (_, prot0) = getInstance prot
      in
      bind_res (makeAPIRequest EAC_API1 (Some (map Some cmddata)) cmd_size [] prot0) (\<lambda>(r, req, prot1).
      if r \<noteq> 0 then Inr (No_Request, prot1, w)
      else
        bind_res (doConnect thread_id req [] w) (\<lambda>(_, response, w1).
        let (_, prot2) = getInstance prot1 in
        bind_res (parseResponse (Some (data_ptr response)) (word_of_nat (length response))
            \<lparr>rs_msgId = 0, rs_cmd = 0, rs_result = - 1, rs_cmdData = None, rs_cmdDataLen = 0\<rparr>) (\<lambda>(r, out).
        if r = 0 then
          bind_res (string_of (rs_cmdData out) (rs_cmdDataLen out)) (\<lambda>returnData.
          Inr (Api_Result (rs_result out) returnData, prot2, w1))
        else Inr (Parse_Failed, prot2, w1)))))"

datatype thread_action =
    Thread_Start nat
  | Thread_Join nat

definition client_main :: "thread_action list \<times> int" where
  "client_main = (map Thread_Start [0..<50] @ map Thread_Join [0..<50], 0)"

text \<open>Every thread is joined, after all have been started.\<close>

lemma client_main_joins:
  "Thread_Start i \<in> set (take 50 (fst client_main)) \<longleftrightarrow> Thread_Join i \<in> set (drop 50 (fst client_main))"
  by (auto simp: client_main_def)

definition client_request :: "u32 \<Rightarrow> byte list" where
  "client_request m = request_bytes m EAC_API1 (replicate (unat cmd_size) 65)"

lemma cmd_size_nat: "unat cmd_size = 1048576"
  by (simp add: cmd_size_def)

lemma client_request_made:
  "makeAPIRequest EAC_API1 (Some (map Some (replicate (unat cmd_size) (65 :: byte)))) cmd_size [] s =
   Inr (0, client_request (m_msgId s + 1), s\<lparr>m_msgId := m_msgId s + 1\<rparr>)"
proof -
  have "cmd_size \<noteq> 0" by (simp add: cmd_size_def)
  from makeAPIRequest_result [OF this, of "replicate (unat cmd_size) 65" EAC_API1 "[]" "[]" s]
  show ?thesis by (simp add: client_request_def cmd_size_nat del: replicate.simps)
qed

lemma getInstance_id: "m_msgId (snd (getInstance s)) = m_msgId s"
  by (simp add: getInstance_def Let_def)

lemma getInstance_again: "m_instance s \<noteq> None \<Longrightarrow> snd (getInstance s) = s"
  by (simp add: getInstance_def)

lemma client_request_frame: "length (client_request m) = 1048592"
  by (simp add: client_request_def cmd_size_nat)

definition client_kernel :: "int \<Rightarrow> int \<Rightarrow> byte list list \<Rightarrow> os" where
  "client_kernel c sent ps = os_of ([Ret c, Ret 0, Ret 0, Ret 0, Ret sent] @ map Bytes ps @ [Ret 0])"

lemma string_of_data:
  "length d < 2 ^ 32 \<Longrightarrow> string_of (Some (map Some d @ q)) (word_of_nat (length d)) = Inr d"
  by (simp add: string_of_def unat32_of_nat read_at_def)

text \<open>A client whose calls succeed and whose server sends a response, in any pieces.\<close>

lemma createClient_success:
  assumes "c \<noteq> - 1" and "0 < k" and "concat ps = response_bytes m a d" and "list_all piece_ok ps"
    and "4 \<le> length (hd ps)" and "20 + length d < 2 ^ 32"
  shows "\<exists>prot' w'. createClient t prot (client_kernel c k ps) = Inr (Api_Result 0 d, prot', w') \<and>
    m_msgId prot' = m_msgId prot + 1 \<and>
    calls w' = client_calls c t (client_request (m_msgId prot + 1)) (length ps)"
proof -
  obtain i s where i: "getInstance prot = (i, s)" by fastforce
  then have id0: "m_msgId s = m_msgId prot" using getInstance_id [of prot] by simp
  let ?f = "response_bytes m a d"
  let ?req = "client_request (m_msgId prot + 1)"
  have ne: "ps \<noteq> []" using assms(3) by (auto simp: response_bytes_def le32_def)
  have four: "take 4 ?f = le32 (word_of_nat (20 + length d))" by (simp add: response_bytes_def)
  have len: "unat (of_le32 (take 4 ?f)) = length ?f"
    using unat32_of_nat [OF assms(6)] unfolding four by (simp del: of_nat_add)
  have fits: "2 * length ?req \<le> outdata_size" by (simp add: client_request_frame outdata_size_def)
  have conn: "doConnect t ?req [] (client_kernel c k ps) =
      Inr (0, ?f, \<lparr>answers = [], calls = client_calls c t ?req (length ps)\<rparr>)"
    unfolding client_kernel_def
    by (rule doConnect_success [OF assms(1) _ _ assms(2) fits assms(3-5) ne len]) simp_all
  obtain j s' where j: "getInstance (s\<lparr>m_msgId := m_msgId prot + 1\<rparr>) = (j, s')" by fastforce
  then have id: "m_msgId s' = m_msgId prot + 1"
    using getInstance_id [of "s\<lparr>m_msgId := m_msgId prot + 1\<rparr>"] by simp
  have made: "makeAPIRequest EAC_API1 (Some (map Some (replicate (unat cmd_size) (65 :: byte)))) cmd_size [] s =
      Inr (0, ?req, s\<lparr>m_msgId := m_msgId prot + 1\<rparr>)"
    by (simp only: client_request_made id0)
  have parsed: "parseResponse (Some (data_ptr ?f)) (20 + word_of_nat (length d)) out =
      Inr (0, \<lparr>rs_msgId = m, rs_cmd = api_code a, rs_result = 0,
               rs_cmdData = Some (map Some d @ [Some 0]), rs_cmdDataLen = word_of_nat (length d)\<rparr>)" for out
    using parse_response_bytes [OF assms(6), of m a "[Some 0]" out] by (simp add: data_ptr_def)
  have str: "string_of (Some (map Some d @ [Some 0])) (word_of_nat (length d)) = Inr d"
    using assms(6) by (intro string_of_data) simp
  have "createClient t prot (client_kernel c k ps) =
      Inr (Api_Result 0 d, s', \<lparr>answers = [], calls = client_calls c t ?req (length ps)\<rparr>)"
    unfolding createClient_def Let_def i prod.case made
    by (simp add: conn j parsed str)
  with id show ?thesis by simp
qed


subsection \<open>The server\<close>

definition server_main :: "int \<Rightarrow> os \<Rightarrow> (int option \<times> socketBase \<times> os) res" where
  "server_main e w =
     (let s0 = setListener True (new_socketBase True e) in
      bind_res (socketUnix_socket s0 w) (\<lambda>(socketfd, s1, w1).
      if socketfd = - 1 then Inr (Some (- 1), s1, w1)
      else
        bind_res (socketUnix_bind_addr SERVER_SOCKET s1 w1) (\<lambda>(r, w2).
        if r = - 1 then Inr (Some (- 1), s1, w2)
        else
          bind_res (listen 5 s1 w2) (\<lambda>(r, s3, w3).
          if r = - 1 then Inr (Some (- 1), s3, w3) else Inr (None, s3, w3)))))"

text \<open>The start when every call succeeds.\<close>

definition server_up :: "int \<Rightarrow> int \<Rightarrow> socketBase" where
  "server_up fd efd =
     \<lparr>m_listener = True, m_mutilThread = True, m_socket = fd, m_epfd = efd, m_listenThread = Some True,
      m_sendThread = Some True, m_recvThread = Some True, m_sendDataList = []\<rparr>"

definition server_calls :: "int \<Rightarrow> int \<Rightarrow> sys_call list" where
  "server_calls fd efd =
     [Sys_socket AF_UNIX SOCK_STREAM 0, Sys_unlink SERVER_SOCKET,
      Sys_bind fd (map Some ([1, 0] @ SERVER_SOCKET)), Sys_listen fd 5,
      Sys_epoll_create EPOLL_EVENT_SIZE, Sys_epoll_add efd fd EPOLLIN]"

lemma server_started:
  assumes "0 < fd" and "b \<noteq> - 1" and "l \<noteq> - 1" and "efd \<noteq> - 1" and "a \<noteq> - 1"
  shows "server_main e (os_of ([Ret fd, Ret u, Ret b, Ret l, Ret efd, Ret a] @ as)) =
    Inr (None, server_up fd efd, \<lparr>answers = as, calls = server_calls fd efd\<rparr>)"
  using assms server_address
  by (simp add: server_main_def os_of_def setListener_def new_socketBase_def socketUnix_socket_def
      socketUnix_bind_addr_def listen_def Let_def server_up_def server_calls_def)


subsection \<open>Properties\<close>

text \<open>When its calls succeed, the server is started with exactly the calls socket, unlink, bind, listen,
  epoll_create and epoll_ctl for the listening socket, its listener is set and its three threads run.\<close>

theorem server_starts:
  assumes "0 < fd" and "b \<noteq> - 1" and "l \<noteq> - 1" and "efd \<noteq> - 1" and "a \<noteq> - 1"
  shows "server_main e (os_of ([Ret fd, Ret u, Ret b, Ret l, Ret efd, Ret a] @ as)) =
    Inr (None, server_up fd efd, \<lparr>answers = as, calls = server_calls fd efd\<rparr>)"
  using assms by (rule server_started)

theorem server_starts_witness:
  "server_main 0 (os_of [Ret 3, Ret 0, Ret 0, Ret 0, Ret 4, Ret 0]) =
    Inr (None, server_up 3 4, \<lparr>answers = [], calls = server_calls 3 4\<rparr>)"
  using server_starts [of 3 0 0 4 0 0 0 "[]"] by simp

text \<open>A server that fails to get its socket, to bind or to listen makes no further system call, starts
  no thread and leaves \<open>main\<close> with -1.\<close>

theorem server_start_fails:
  assumes "fd = - 1 \<or> (0 < fd \<and> (b = - 1 \<or> l = - 1))"
  shows "\<exists>s w. server_main e (os_of [Ret fd, Ret u, Ret b, Ret l, Ret efd, Ret a]) = Inr (Some (- 1), s, w) \<and>
    m_listenThread s = None \<and> m_sendThread s = None \<and> m_recvThread s = None \<and>
    calls w = take (if fd = - 1 then 1 else if b = - 1 then 3 else 4) (server_calls fd efd)"
  using assms server_address
  by (auto simp: server_main_def os_of_def setListener_def new_socketBase_def socketUnix_socket_def
      socketUnix_bind_addr_def listen_def Let_def server_calls_def)

theorem server_start_fails_witness:
  "\<exists>s w. server_main 0 (os_of [Ret 3, Ret 0, Ret 0, Ret (- 1), Ret 4, Ret 0]) = Inr (Some (- 1), s, w) \<and>
    m_recvThread s = None \<and> calls w = take 4 (server_calls 3 4)"
  using server_start_fails [of 3 0 "- 1" 0 0 4 0] by auto

text \<open>One client of the client program: when its calls succeed and the server sends a response, in
  whatever pieces, it gets the data of that response; it has used one message number, and has sent
  exactly the request of that number with one megabyte of data.\<close>

theorem client_gets_response:
  assumes "c \<noteq> - 1" and "0 < k" and "concat ps = response_bytes m a d" and "list_all piece_ok ps"
    and "4 \<le> length (hd ps)" and "20 + length d < 2 ^ 32"
  shows "\<exists>prot' w'. createClient t prot (client_kernel c k ps) = Inr (Api_Result 0 d, prot', w') \<and>
    m_msgId prot' = m_msgId prot + 1 \<and>
    calls w' = client_calls c t (client_request (m_msgId prot + 1)) (length ps)"
  using assms by (rule createClient_success)

theorem client_gets_response_witness:
  "\<exists>prot' w'. createClient 77 initial_protocol (client_kernel 3 1048592 [response_bytes 1 EAC_API1 [65]]) =
      Inr (Api_Result 0 [65], prot', w') \<and> m_msgId prot' = 1"
proof -
  have "piece_ok (response_bytes 1 EAC_API1 [65])"
    by (simp add: piece_ok_def SOCKETBUFFER_SIZE_def response_bytes_def le32_def)
  then show ?thesis
    using client_gets_response [of 3 1048592 "[response_bytes 1 EAC_API1 [65]]" 1 EAC_API1 "[65]" 77 initial_protocol]
    by (auto simp: initial_protocol_def)
qed

end
