(* ===== verification/Server.thy ===== *)
theory Server
  imports ReceiveThread TaskProcessor PoolProperties Programs
begin

section \<open>The whole server: all its threads together\<close>

text \<open>
  The receive thread cuts what arrives into tasks and adds them to the pool, the workers answer them into
  the queues of the socket, the send thread and the listen thread empty these: here all of them run at
  once. A state is the state of the parts (the pool, the controller, the socket with its send thread), and
  every step is a step of one thread.

  \<^item> \<open>S_Recv\<close>: a \<open>recv\<close> returns a piece of data and \<open>onRecv\<close> cuts it. The bytes waiting in
    \<open>m_recvList\<close> belong to the receive thread alone, so the cutting is one step; the calls of \<open>addTask\<close>
    it makes are not. The controller of this system makes tasks into the list \<open>m_pool\<close>, which holds all
    it has ever made, and \<open>s_adds\<close> counts those for which \<open>addTask\<close> has been called.
  \<^item> \<open>S_Add\<close>: the receive thread calls \<open>addTask\<close> for the next of these tasks; the steps of the call, like
    every other step inside the pool, are \<open>S_Pool\<close>. Only when all its calls are done can the thread
    receive again.
  \<^item> \<open>S_Run\<close>: a worker is in \<open>onTaskProcessor\<close>. The only thing it shares with other threads are the queues
    of the socket, to which it adds under \<open>m_wtmtx\<close>, so the call is one step. It has no successor if the
    call has a fault.
  \<^item> \<open>S_Net\<close>: the send thread takes or transmits a datum, or the listen thread drops the queue of a client
    that has hung up.

  \<open>s_recvs\<close>, the pieces received so far, is history, as are \<open>added\<close>, \<open>taken\<close>, \<open>runs\<close> of the pool and
  \<open>pushed\<close>, \<open>handed\<close>, \<open>wire\<close> of the socket.
\<close>

subsection \<open>The system\<close>

record server =
  s_pool :: "taskData sys"
  s_ctrl :: "taskData list taskController"
  s_adds :: nat
  s_net :: net
  s_recvs :: "(int \<times> byte list) list"

definition hand_over :: "taskData \<Rightarrow> taskData list \<Rightarrow> taskData list" where
  "hand_over d ds = ds @ [d]"

interpretation made: controller_sink hand_over "\<lambda>ds. ds"
  by unfold_locales (simp add: hand_over_def)

text \<open>\<open>std::make_shared<threadTask>(this, data)\<close>; the controller is worker 0, the main thread caller 0 of
  the pool and the receive thread caller 1.\<close>

definition task_of :: "taskData \<Rightarrow> taskData threadTask option" where
  "task_of d = Some \<lparr>m_worker = Some 0, m_param = d\<rparr>"

abbreviation (input) receiver :: nat where
  "receiver \<equiv> 1"

text \<open>The receive thread is not inside \<open>onRecv\<close>.\<close>

definition receiving :: "server \<Rightarrow> bool" where
  "receiving s \<longleftrightarrow>
     s_adds s = length (m_pool (s_ctrl s)) \<and> callers (s_pool s) receiver = C_Idle"

definition do_recv :: "int \<Rightarrow> byte list \<Rightarrow> taskData list taskController \<Rightarrow> server \<Rightarrow> server" where
  "do_recv fd chunk t s = s\<lparr>s_ctrl := t, s_recvs := s_recvs s @ [(fd, chunk)]\<rparr>"

definition do_add :: "server \<Rightarrow> server" where
  "do_add s =
     s\<lparr>s_pool := goto receiver (entry (Op_Add (task_of (m_pool (s_ctrl s) ! s_adds s)))) (s_pool s),
       s_adds := s_adds s + 1\<rparr>"

text \<open>The socket after a worker has been in \<open>onTaskProcessor\<close>; what has been added to its queues is recorded.\<close>

definition pushed_to :: "socketBase \<Rightarrow> net \<Rightarrow> net" where
  "pushed_to k n =
     n\<lparr>sock := k,
       pushed := (\<lambda>c. pushed n c @ drop (length (list_of (sock n) c)) (list_of k c))\<rparr>"

definition do_run :: "nat \<Rightarrow> socketBase \<Rightarrow> server \<Rightarrow> server" where
  "do_run i k s = s\<lparr>s_pool := do_worker i (s_pool s), s_net := pushed_to k (s_net s)\<rparr>"

text \<open>The steps inside the pool: those of the workers and of the calls under way, and \<open>getInstance\<close>.\<close>

fun inside :: "taskData sys \<Rightarrow> taskData label \<Rightarrow> bool" where
  "inside p (Worker i) \<longleftrightarrow> t_pc (thr p ! i) \<noteq> W_Run"
| "inside p (Call c op) \<longleftrightarrow> op = Op_Get"
| "inside p l \<longleftrightarrow> True"

fun of_thread :: "net_label \<Rightarrow> bool" where
  "of_thread (N_Send fd d) \<longleftrightarrow> False"
| "of_thread l \<longleftrightarrow> True"

datatype server_label =
    S_Recv int "byte list"
  | S_Add
  | S_Run nat
  | S_Pool "taskData label"
  | S_Net net_label

inductive server_step ::
  "(u32 \<Rightarrow> bool) \<Rightarrow> server \<Rightarrow> server_label \<Rightarrow> server \<Rightarrow> bool" for can_alloc where
  recv: "receiving s \<Longrightarrow> fd \<noteq> m_socket (sock (s_net s)) \<Longrightarrow> recv_ok (fd, chunk) \<Longrightarrow>
    onRecv can_alloc hand_over fd (recv_buffer chunk) (word_of_nat (length chunk)) (s_ctrl s) = Some (Inr t) \<Longrightarrow>
    server_step can_alloc s (S_Recv fd chunk) (do_recv fd chunk t s)"
| add: "s_adds s < length (m_pool (s_ctrl s)) \<Longrightarrow> callers (s_pool s) receiver = C_Idle \<Longrightarrow>
    server_step can_alloc s S_Add (do_add s)"
| run: "worker_enabled (s_pool s) i \<Longrightarrow> t_pc (thr (s_pool s) ! i) = W_Run \<Longrightarrow>
    t_task (thr (s_pool s) ! i) = Some task \<Longrightarrow>
    onTaskProcessor (send can_alloc) True cmd0 (Some (m_param task)) (sock (s_net s)) = Inr k \<Longrightarrow>
    server_step can_alloc s (S_Run i) (do_run i k s)"
| pool: "pool_step (s_pool s) l p \<Longrightarrow> inside (s_pool s) l \<Longrightarrow>
    server_step can_alloc s (S_Pool l) (s\<lparr>s_pool := p\<rparr>)"
| net: "net_step (s_net s) l n \<Longrightarrow> of_thread l \<Longrightarrow>
    server_step can_alloc s (S_Net l) (s\<lparr>s_net := n\<rparr>)"

inductive_cases server_stepE: "server_step can_alloc s l s'"

text \<open>The server when \<open>main\<close> constructs its controller, with the socket that \<open>server_main\<close> sets up.\<close>

definition server_start :: "int \<Rightarrow> int \<Rightarrow> server" where
  "server_start fd efd =
     \<lparr>s_pool = boot 8 2, s_ctrl = new_controller [], s_adds = 0, s_net = net_start (server_up fd efd),
      s_recvs = []\<rparr>"

lemma server_fields [simp]:
  "s_pool (do_recv fd chunk t s) = s_pool s" "s_net (do_recv fd chunk t s) = s_net s"
  "s_ctrl (do_recv fd chunk t s) = t" "s_adds (do_recv fd chunk t s) = s_adds s"
  "s_recvs (do_recv fd chunk t s) = s_recvs s @ [(fd, chunk)]"
  "s_net (do_add s) = s_net s" "s_ctrl (do_add s) = s_ctrl s" "s_adds (do_add s) = Suc (s_adds s)"
  "s_recvs (do_add s) = s_recvs s"
  "s_pool (do_run i k s) = do_worker i (s_pool s)" "s_net (do_run i k s) = pushed_to k (s_net s)"
  "s_ctrl (do_run i k s) = s_ctrl s" "s_adds (do_run i k s) = s_adds s" "s_recvs (do_run i k s) = s_recvs s"
  by (simp_all add: do_recv_def do_add_def do_run_def)


subsection \<open>The parts\<close>

text \<open>All a worker can do to the socket is to add one datum.\<close>

lemma send_result:
  "send can_alloc c buf len k = Inr (r, k') \<Longrightarrow> k' = k \<or> (\<exists>d. k' = push_back c d k)"
  by (auto simp: send_def bind_res_Inr_iff split: if_splits)

lemma onTaskProcessor_pushes:
  assumes "onTaskProcessor (send can_alloc) has_socket cmd0 param k = Inr k'"
  shows "k' = k \<or> (\<exists>c d. k' = push_back c d k)"
  using assms
  by (auto simp: onTaskProcessor_def bind_res_Inr_iff split: option.splits if_splits dest!: send_result)

lemma pushed_to_same [simp]: "pushed_to (sock n) n = n"
  by (simp add: pushed_to_def)

lemma pushed_to_push [simp]: "pushed_to (push_back c d (sock n)) n = do_send c d n"
  by (simp add: pushed_to_def do_send_def fun_eq_iff)

text \<open>The steps that keep the queue of client \<open>c\<close>, and those at which the kernel takes each of its data whole.\<close>

fun keeps_client :: "int \<Rightarrow> server_label \<Rightarrow> bool" where
  "keeps_client c (S_Net l) \<longleftrightarrow> stays c l"
| "keeps_client c l \<longleftrightarrow> True"

fun sends_whole :: "int \<Rightarrow> server_label \<Rightarrow> bool" where
  "sends_whole c (S_Net l) \<longleftrightarrow> whole c l"
| "sends_whole c l \<longleftrightarrow> True"

lemma sends_keeps: "sends_whole c l \<Longrightarrow> keeps_client c l"
proof (cases l)
  case (S_Net m)
  moreover assume "sends_whole c l"
  ultimately show ?thesis by (cases m) simp_all
qed simp_all

lemma inside_normal: "inside p l \<Longrightarrow> normal l"
  by (cases "(p, l)" rule: inside.cases) simp_all

lemma reachable_one: "step s l s' \<Longrightarrow> allowed l \<Longrightarrow> reachable step allowed s s'"
  by (rule reachable.step) (rule reachable.start)

interpretation pool_part: step_projection "server_step can_alloc" allowed s_pool pool_step normal
  for can_alloc allowed
proof
  fix s l s'
  assume "server_step can_alloc s l s'"
  then show "reachable pool_step normal (s_pool s) (s_pool s')"
  proof cases
    case add
    have "pool_step (s_pool s) (Call receiver (Op_Add (task_of (m_pool (s_ctrl s) ! s_adds s)))) (s_pool (do_add s))"
      using add(4) by (simp add: do_add_def call_step_iff)
    with add show ?thesis by (auto intro: reachable_one)
  next
    case (run i task cmd0 k)
    with by_worker [OF run(3)] show ?thesis by (auto intro: reachable_one)
  qed (auto intro: reachable.start reachable_one inside_normal)
qed

lemma net_run:
  assumes "onTaskProcessor (send can_alloc) True cmd0 param (sock n) = Inr k" and "\<And>c d. allowed (N_Send c d)"
  shows "reachable net_step allowed n (pushed_to k n)"
  using onTaskProcessor_pushes [OF assms(1)]
proof (elim disjE exE)
  fix c d
  assume "k = push_back c d (sock n)"
  moreover have "net_step n (N_Send c d) (do_send c d n)" by (rule net_step.send)
  ultimately show ?thesis using assms(2) by (auto intro: reachable_one)
qed (simp add: reachable.start)

lemma net_of_step:
  assumes "server_step can_alloc s l s'" and "\<And>c d. allowed (N_Send c d)" and "\<And>m. l = S_Net m \<Longrightarrow> allowed m"
  shows "reachable net_step allowed (s_net s) (s_net s')"
  using assms(1)
proof cases
  case (run i task cmd0 k)
  with net_run [OF run(6), of allowed] assms(2) show ?thesis by simp
next
  case (net m n)
  with assms(3) show ?thesis by (auto intro: reachable_one)
qed (auto intro: reachable.start)

interpretation net_part: step_projection "server_step can_alloc" allowed s_net net_step "\<lambda>_. True"
  for can_alloc allowed
  by unfold_locales (erule net_of_step; simp)

interpretation kept_part: step_projection "server_step can_alloc" "keeps_client c" s_net net_step "stays c"
  for can_alloc c
  by unfold_locales (erule net_of_step; simp)

interpretation whole_part: step_projection "server_step can_alloc" "sends_whole c" s_net net_step "whole c"
  for can_alloc c
  by unfold_locales (erule net_of_step; simp)

end
