(* ===== verification/ServerRuns.thy ===== *)
theory ServerRuns
  imports Server
begin

section \<open>What every run of the whole server keeps\<close>

text \<open>
  The invariant \<open>server_inv\<close> ties the parts of a state together: the controller is what \<open>feed\<close> makes of the
  pieces received, the tasks added are the first \<open>s_adds\<close> it made, and \<open>answered\<close> says that what has been
  put into the queue of a client are the answers to the tasks of that client that were run, in that order.
\<close>

subsection \<open>From the socket to the pool\<close>

fun call_task :: "'d cpc \<Rightarrow> 'd threadTask option list" where
  "call_task (C_Add task) = [task]"
| "call_task _ = []"

definition adds_inv :: "server \<Rightarrow> bool" where
  "adds_inv s \<longleftrightarrow>
     added (s_pool s) @ call_task (callers (s_pool s) receiver) = map task_of (take (s_adds s) (m_pool (s_ctrl s))) \<and>
     s_adds s \<le> length (m_pool (s_ctrl s)) \<and> (\<forall>c. c \<noteq> receiver \<longrightarrow> call_task (callers (s_pool s) c) = [])"

definition fed_inv :: "(u32 \<Rightarrow> bool) \<Rightarrow> server \<Rightarrow> bool" where
  "fed_inv can_alloc s \<longleftrightarrow>
     feed can_alloc hand_over (s_recvs s) (new_controller []) = Some (Inr (s_ctrl s))"

lemma made_grow:
  assumes "onRecv can_alloc hand_over fd buf len s = Some (Inr t)"
  shows "\<exists>ds. m_pool t = m_pool s @ ds"
proof -
  have "fold hand_over ds xs = xs @ ds" for ds xs
    by (induction ds arbitrary: xs) (simp_all add: hand_over_def)
  with makeNewTask_pool [OF assms [unfolded onRecv_def] refl] show ?thesis by auto
qed

lemma inside_adds:
  assumes "pool_step p l p'" and "inside p l" and "\<forall>c. c \<noteq> r \<longrightarrow> call_task (callers p c) = []"
  shows "added p' @ call_task (callers p' r) = added p @ call_task (callers p r) \<and>
    (\<forall>c. c \<noteq> r \<longrightarrow> call_task (callers p' c) = [])"
  using assms(1)
proof cases
  case (by_caller c)
  from by_caller(2) show ?thesis
  proof (cases rule: caller_step_cases)
    case (add_below task q)
    with assms(3) show ?thesis by (cases "c = r") auto
  next
    case (add_full task q)
    with assms(3) show ?thesis by (cases "c = r") auto
  qed (use assms(3) in auto)
next
  case (by_timeout c)
  with assms(3) show ?thesis by (auto elim!: poll_timeout_cases)
next
  case (by_call c op)
  with assms(2,3) show ?thesis by auto
qed (use assms(3) in simp)

lemma adds_step:
  assumes "adds_inv s" and "server_step can_alloc s l s'"
  shows "adds_inv s'"
  using assms(2)
proof cases
  case (recv fd chunk t)
  obtain ds where "m_pool t = m_pool (s_ctrl s) @ ds" using made_grow [OF recv(6)] by blast
  with assms(1) recv show ?thesis by (simp add: adds_inv_def)
next
  case add
  with assms(1) show ?thesis by (auto simp: adds_inv_def do_add_def take_Suc_conv_app_nth)
next
  case (pool l p)
  have "\<forall>c. c \<noteq> receiver \<longrightarrow> call_task (callers (s_pool s) c) = []" using assms(1) by (simp add: adds_inv_def)
  with inside_adds [OF pool(3,4) this] assms(1) pool show ?thesis by (simp add: adds_inv_def)
qed (use assms(1) in \<open>simp_all add: adds_inv_def\<close>)

lemma fed_step: "fed_inv can_alloc s \<Longrightarrow> server_step can_alloc s l s' \<Longrightarrow> fed_inv can_alloc s'"
  by (erule server_stepE) (simp_all add: fed_inv_def feed_append)

text \<open>Every task a worker has in hand, has run or finds in the queue is one the controller made.\<close>

lemma run_from_made:
  assumes "hist_inv (s_pool s)" and "adds_inv s" and "i < length (thr (s_pool s))"
  shows "set (run_by i (s_pool s) @ in_hand (thr (s_pool s) ! i)) \<subseteq> set (m_pool (s_ctrl s))"
proof -
  let ?p = "s_pool s"
  have "set (taken_by i ?p) \<subseteq> set (concat (map runnable (added ?p)))"
    using assms(1) by (auto simp: taken_by_def hist_inv_def)
  also have "\<dots> \<subseteq> set (concat (map runnable (map task_of (m_pool (s_ctrl s)))))"
  proof -
    have "set (added ?p) \<subseteq> set (map task_of (take (s_adds s) (m_pool (s_ctrl s))))"
      using assms(2) unfolding adds_inv_def by (metis Un_iff set_append subsetI)
    then show ?thesis using set_take_subset [of "s_adds s" "m_pool (s_ctrl s)"] by fastforce
  qed
  also have "\<dots> = set (m_pool (s_ctrl s))" by (simp add: task_of_def runnable_def)
  finally show ?thesis using assms(1,3) by (simp add: hist_inv_def)
qed

subsection \<open>From the pool to the queues of the socket\<close>

definition answers_for :: "int \<Rightarrow> taskData list \<Rightarrow> sendData list" where
  "answers_for c ds = concat (map answer_to (filter (\<lambda>d. m_clientId d = c) ds))"

definition answered :: "server \<Rightarrow> bool" where
  "answered s \<longleftrightarrow>
     (\<forall>c. pushed (s_net s) c = answers_for c (map snd (runs (s_pool s))))"

lemma answers_for_simps [simp]:
  "answers_for c [] = []" "answers_for c (ds @ es) = answers_for c ds @ answers_for c es"
  "answers_for c [d] = (if m_clientId d = c then answer_to d else [])"
  by (simp_all add: answers_for_def)

lemma pushed_fold:
  "pushed (pushed_to (fold (push_back b) xs (sock n)) n) c = pushed n c @ (if c = b then xs else [])"
  by (simp add: pushed_to_def list_of_fold_push)

lemma running_task:
  assumes "t_ok t" and "t_pc t = W_Run" and "t_task t = Some task"
  shows "in_hand t = [m_param task]" and "step_run t = [m_param task]"
  using assms by (auto simp: t_ok_def in_hand_def step_run_def runnable_def split: if_splits)

lemma run_answered:
  assumes "answered s" and "task_ok (m_param task)" and "grants can_alloc 1044"
    and "t_ok (thr (s_pool s) ! i)" and "t_pc (thr (s_pool s) ! i) = W_Run"
    and "t_task (thr (s_pool s) ! i) = Some task"
    and "onTaskProcessor (send can_alloc) True cmd0 (Some (m_param task)) (sock (s_net s)) = Inr k"
  shows "answered (do_run i k s)"
proof -
  have "k = fold (push_back (m_clientId (m_param task))) (answer_to (m_param task)) (sock (s_net s))"
    using processed_task [OF assms(2,3), of cmd0 "sock (s_net s)"] assms(7) by simp
  then show ?thesis
    using assms(1) running_task(2) [OF assms(4-6)]
    by (auto simp: answered_def pushed_fold do_worker_history)
qed

lemma net_pushes: "net_step n l n' \<Longrightarrow> of_thread l \<Longrightarrow> pushed n' = pushed n"
  by (erule net_stepE) auto

lemma inside_runs: "pool_step p l p' \<Longrightarrow> inside p l \<Longrightarrow> runs p' = runs p"
  by (erule pool_step.cases)
    (auto simp: do_worker_history step_run_def elim!: caller_step_cases poll_timeout_cases)

text \<open>All together. \<open>made_ok\<close> asks that every task the controller has made so far is a complete message.\<close>

definition made_ok :: "server \<Rightarrow> bool" where
  "made_ok s \<longleftrightarrow> list_all task_ok (m_pool (s_ctrl s))"

definition pool_inv :: "taskData sys \<Rightarrow> bool" where
  "pool_inv p \<longleftrightarrow> threads_inv p \<and> quiet_inv p \<and> hist_inv p"

definition server_inv :: "(u32 \<Rightarrow> bool) \<Rightarrow> server \<Rightarrow> bool" where
  "server_inv can_alloc s \<longleftrightarrow>
     pool_inv (s_pool s) \<and> adds_inv s \<and> fed_inv can_alloc s \<and> (made_ok s \<longrightarrow> answered s)"

lemma pool_inv_step:
  assumes "pool_inv (s_pool s)" and "server_step can_alloc s l s'"
  shows "pool_inv (s_pool s')"
proof -
  have "reachable pool_step normal (s_pool s) (s_pool s')"
    using assms(2) by (rule pool_part.part_step [where allowed = "\<lambda>_. True"]) simp
  from history.reachable_inv [OF this] assms(1) show ?thesis by (simp add: pool_inv_def)
qed

lemma worker_holds_made:
  assumes "server_inv can_alloc s" and "i < length (thr (s_pool s))" and "t_pc (thr (s_pool s) ! i) = W_Run"
  obtains task where "t_task (thr (s_pool s) ! i) = Some task" and "t_ok (thr (s_pool s) ! i)"
    and "made_ok s \<Longrightarrow> task_ok (m_param task)"
proof -
  have ok: "t_ok (thr (s_pool s) ! i)"
    using assms(1,2) by (auto simp: server_inv_def pool_inv_def intro: threads_invD)
  then obtain task where task: "t_task (thr (s_pool s) ! i) = Some task"
    using assms(3) by (auto simp: t_ok_def runnable_def split: option.splits)
  have "m_param task \<in> set (m_pool (s_ctrl s))"
    using run_from_made [OF _ _ assms(2)] assms(1) running_task(1) [OF ok assms(3) task]
    by (auto simp: server_inv_def pool_inv_def)
  with ok task that show thesis by (auto simp: made_ok_def list_all_iff)
qed

lemma server_inv_step:
  assumes "server_inv can_alloc s" and "server_step can_alloc s l s'" and "grants can_alloc 1044"
  shows "server_inv can_alloc s'"
proof -
  have "made_ok s' \<longrightarrow> answered s'"
    using assms(2)
  proof cases
    case (recv fd chunk t)
    obtain ds where "m_pool t = m_pool (s_ctrl s) @ ds" using made_grow [OF recv(6)] by blast
    with recv assms(1) show ?thesis by (simp add: server_inv_def made_ok_def answered_def)
  next
    case (run i task cmd0 k)
    have i: "i < length (thr (s_pool s))" using run(3) by (simp add: worker_enabled_def)
    from worker_holds_made [OF assms(1) i run(4)] obtain task'
      where t: "t_task (thr (s_pool s) ! i) = Some task'" "t_ok (thr (s_pool s) ! i)"
        "made_ok s \<Longrightarrow> task_ok (m_param task')" by blast
    with run_answered [OF _ _ assms(3) t(2) run(4-6)] run(1,2,5) assms(1) show ?thesis
      by (auto simp: server_inv_def made_ok_def)
  next
    case (pool m p)
    with assms(1) inside_runs [OF pool(3,4)] show ?thesis
      by (simp add: server_inv_def made_ok_def answered_def)
  next
    case (net m n)
    with assms(1) net_pushes [OF net(3,4)] show ?thesis
      by (simp add: server_inv_def made_ok_def answered_def)
  qed (use assms(1) in \<open>simp add: server_inv_def made_ok_def answered_def do_add_def\<close>)
  with assms show ?thesis
    by (auto simp: server_inv_def intro: pool_inv_step adds_step fed_step)
qed

interpretation served: step_invariant "server_step can_alloc" "\<lambda>_. grants can_alloc 1044" "server_inv can_alloc"
  for can_alloc
  by unfold_locales (rule server_inv_step)

lemma server_inv_start: "server_inv can_alloc (server_start fd efd)"
  by (simp add: server_inv_def server_start_def pool_inv_def threads_boot quiet_boot hist_boot adds_inv_def
      fed_inv_def answered_def new_controller_def)
    (simp add: boot_def net_start_def)

lemma server_reachable_inv:
  assumes "reachable (server_step can_alloc) allowed (server_start fd efd) s" and "grants can_alloc 1044"
  shows "server_inv can_alloc s"
proof -
  have "reachable (server_step can_alloc) (\<lambda>_. grants can_alloc 1044) (server_start fd efd) s"
    using assms(1) by (rule reachable_mono) (rule assms(2))
  then show ?thesis using server_inv_start by (rule served.reachable_inv)
qed

end
