(* ===== verification/ServerAnswers.thy ===== *)
theory ServerAnswers
  imports ServerRuns
begin

section \<open>Which answers the server has queued\<close>

text \<open>
  With the invariant of the theory ServerRuns, what has been put into the queue of a client is compared with
  the messages in the stream of that client: at any time it is part of the answers to its complete messages,
  and all of them once the server is at rest.
\<close>

subsection \<open>What the controller has made\<close>

lemma frames_bounded:
  assumes "cut_ok M bs" and "f \<in> set (frames_of bs)"
  shows "length f \<le> M"
  using assms by (auto simp: cut_ok_def frames_of_def bounded_by_def split: option.splits)

lemma streams_ok_cut:
  assumes "streams_ok M evs"
  shows "cut_ok M (stream_of c evs)"
proof (cases "c \<in> fst ` set evs")
  case True
  with assms have "cut_ok M (stream_of c (take (length evs) evs))" unfolding streams_ok_def by blast
  then show ?thesis by simp
next
  case False
  then have "filter (\<lambda>e. fst e = c) evs = []" by (force simp: filter_empty_conv)
  then have "stream_of c evs = []" by (simp add: stream_of_def)
  then show ?thesis by (simp add: cut_ok_def bounded_by_def)
qed

lemma cut_ok_mono: "cut_ok M bs \<Longrightarrow> M \<le> N \<Longrightarrow> cut_ok N bs"
  by (auto simp: cut_ok_def bounded_by_def split: option.splits)

lemma streams_ok_mono: "streams_ok M evs \<Longrightarrow> M \<le> N \<Longrightarrow> streams_ok N evs"
  by (simp add: streams_ok_def) (blast intro: cut_ok_mono)

lemma subseq_mset: "subseq xs ys \<Longrightarrow> mset xs \<subseteq># mset ys"
  by (induction rule: list_emb.induct) (auto intro: subset_mset.order_trans)

lemma view_task_ok:
  assumes "task_view d = msg_view c f" and "length f < 2 ^ 32"
  shows "task_ok d"
  using assms unat32_of_nat [OF assms(2)] by (simp add: task_view_def msg_view_def task_ok_def)

lemma server_tracks:
  assumes "server_inv can_alloc s" and "grants can_alloc M" and "M + 2 ^ 15 < 2 ^ 32"
    and "streams_ok M (s_recvs s)"
  shows "made.tracks (s_recvs s) (s_ctrl s)"
proof -
  have "feed can_alloc hand_over (s_recvs s) (new_controller []) = Some (Inr (s_ctrl s))"
    using assms(1) by (simp add: server_inv_def fed_inv_def)
  with made.feed_tracks [OF assms(2,3) refl assms(4)] show ?thesis by auto
qed

lemma server_made_ok:
  assumes "server_inv can_alloc s" and "grants can_alloc M" and "M + 2 ^ 15 < 2 ^ 32"
    and "streams_ok M (s_recvs s)"
  shows "made_ok s"
  unfolding made_ok_def list_all_iff
proof
  fix d
  assume "d \<in> set (m_pool (s_ctrl s))"
  then have "task_view d \<in> set (sent_by (m_clientId d) (m_pool (s_ctrl s)))"
    by (simp add: sent_by_def task_view_def)
  then obtain f where f: "f \<in> set (frames_of (stream_of (m_clientId d) (s_recvs s)))"
    and d: "task_view d = msg_view (m_clientId d) f"
    using server_tracks [OF assms] by (auto simp: made.tracks_def)
  have "length f \<le> M" using frames_bounded [OF streams_ok_cut [OF assms(4)] f] .
  then show "task_ok d" using assms(3) by (intro view_task_ok [OF d]) simp
qed

text \<open>The same without any condition on where the pieces end: a \<open>recv\<close> brings at most what it was asked for.\<close>

interpretation recvs: step_invariant "server_step can_alloc" "\<lambda>_. True" "\<lambda>s. list_all recv_ok (s_recvs s)"
  for can_alloc
  by unfold_locales (erule server_stepE; simp)

lemma server_recvs_ok:
  assumes "reachable (server_step can_alloc) allowed (server_start fd efd) s"
  shows "list_all recv_ok (s_recvs s)"
proof -
  have "reachable (server_step can_alloc) (\<lambda>_. True) (server_start fd efd) s"
    using assms by (rule reachable_mono) simp
  then show ?thesis by (rule recvs.reachable_inv) (simp add: server_start_def)
qed

lemma server_made_ok_any:
  assumes "server_inv can_alloc s" and "refuses can_alloc M" and "M + 2 ^ 15 < 2 ^ 32"
    and "list_all recv_ok (s_recvs s)"
  shows "controller_ok M (\<lambda>ds. ds) (s_ctrl s)"
proof -
  have "feed can_alloc hand_over (s_recvs s) (new_controller []) = Some (Inr (s_ctrl s))"
    using assms(1) by (simp add: server_inv_def fed_inv_def)
  moreover have "controller_ok M (\<lambda>ds. ds) (new_controller ([] :: taskData list))"
    by (simp add: controller_ok_def new_controller_def)
  moreover have "list_all (\<lambda>e. snd e \<noteq> [] \<and> length (snd e) + 0 \<le> SOCKET_RECV_BUFFER_LEN) (s_recvs s)"
    using assms(4) by (simp add: list_all_iff recv_ok_def)
  ultimately have "only_faults 0 (controller_ok M (\<lambda>ds. ds)) (Inr (s_ctrl s))"
    using made.queued_add assms(2,3) by (intro feed_safe)
  then show ?thesis by simp
qed

lemma server_made_any:
  assumes "server_inv can_alloc s" and "refuses can_alloc M" and "M + 2 ^ 15 < 2 ^ 32"
    and "list_all recv_ok (s_recvs s)"
  shows "made_ok s"
  using server_made_ok_any [OF assms] by (simp add: made_ok_def controller_ok_def)

subsection \<open>Answers to messages\<close>

text \<open>What the server answers to a message of a client.\<close>

definition message_answer :: "int \<Rightarrow> byte list \<Rightarrow> sendData list" where
  "message_answer c f =
     answer_to \<lparr>m_clientId = c, m_databuf = map Some f, m_len = word_of_nat (length f), m_curLen = 0\<rparr>"

definition stream_answers :: "int \<Rightarrow> byte list \<Rightarrow> sendData list" where
  "stream_answers c bs = concat (map (message_answer c) (frames_of bs))"

definition view_answer :: "int \<times> cell list \<times> u32 \<Rightarrow> sendData list" where
  "view_answer v = (case v of (c, buf, len) \<Rightarrow>
     answer_to \<lparr>m_clientId = c, m_databuf = buf, m_len = len, m_curLen = 0\<rparr>)"

lemma answer_to_view: "answer_to d = view_answer (task_view d)"
  by (simp add: view_answer_def task_view_def answer_to_def task_bytes_def)

lemma answers_for_views: "answers_for c ds = concat (map view_answer (sent_by c ds))"
  by (induction ds) (simp_all add: answers_for_def sent_by_def answer_to_view task_view_def)

lemma answers_for_made:
  assumes "made.tracks evs t"
  shows "answers_for c (m_pool t) = stream_answers c (stream_of c evs)"
proof -
  have "sent_by c (m_pool t) = map (msg_view c) (frames_of (stream_of c evs))"
    using assms by (simp add: made.tracks_def)
  moreover have "view_answer (msg_view c f) = message_answer c f" for f
    by (simp add: view_answer_def msg_view_def message_answer_def)
  ultimately show ?thesis
    by (simp only: answers_for_views stream_answers_def map_map) (simp add: comp_def)
qed

lemma answers_for_mset:
  "mset (answers_for c ds) = (\<Sum>d \<in># mset ds. if m_clientId d = c then mset (answer_to d) else {#})"
  by (induction ds) (simp_all add: answers_for_def)

lemma answers_for_mono:
  assumes "mset ds \<subseteq># mset es"
  shows "mset (answers_for c ds) \<subseteq># mset (answers_for c es)"
proof -
  obtain ms where "mset es = mset ds + ms" using assms by (auto simp only: mset_subset_eq_exists_conv)
  then show ?thesis by (simp add: answers_for_mset)
qed

lemma made_runnable: "concat (map runnable (map task_of ds)) = ds"
  by (induction ds) (simp_all add: task_of_def runnable_def)

lemma added_made:
  assumes "adds_inv s"
  shows "\<exists>xs. concat (map runnable (added (s_pool s))) @ xs = m_pool (s_ctrl s)"
proof -
  let ?ds = "take (s_adds s) (m_pool (s_ctrl s))"
  have "concat (map runnable (added (s_pool s) @ call_task (callers (s_pool s) receiver))) = ?ds"
    using assms unfolding adds_inv_def by (metis made_runnable)
  then have "concat (map runnable (added (s_pool s))) @
      concat (map runnable (call_task (callers (s_pool s) receiver))) = ?ds"
    by (simp only: map_append concat_append)
  then have "concat (map runnable (added (s_pool s))) @
      concat (map runnable (call_task (callers (s_pool s) receiver))) @ drop (s_adds s) (m_pool (s_ctrl s)) =
      m_pool (s_ctrl s)"
    by (metis append_assoc append_take_drop_id)
  then show ?thesis by blast
qed

lemma runs_made:
  assumes "server_inv can_alloc s"
  shows "mset (map snd (runs (s_pool s))) \<subseteq># mset (m_pool (s_ctrl s))"
proof -
  obtain xs where "concat (map runnable (added (s_pool s))) @ xs = m_pool (s_ctrl s)"
    using added_made assms by (auto simp: server_inv_def)
  then have "mset (m_pool (s_ctrl s)) = mset (concat (map runnable (added (s_pool s)))) + mset xs"
    by (metis mset_append)
  moreover have "mset (map snd (runs (s_pool s))) \<subseteq># mset (concat (map runnable (added (s_pool s))))"
    using run_balance [of "s_pool s"] assms by (simp add: server_inv_def pool_inv_def)
  ultimately show ?thesis by (metis mset_subset_eq_add_left subset_mset.trans)
qed

text \<open>The server has nothing left to do for what it has received.\<close>

definition settled :: "server \<Rightarrow> bool" where
  "settled s \<longleftrightarrow> receiving s \<and> m_tasks (pool (s_pool s)) = [] \<and>
     list_all (\<lambda>t. in_hand t = []) (thr (s_pool s))"

lemma runs_settled:
  assumes "server_inv can_alloc s" and "settled s"
  shows "mset (map snd (runs (s_pool s))) = mset (m_pool (s_ctrl s))"
proof -
  have "added (s_pool s) = map task_of (m_pool (s_ctrl s))"
    using assms by (simp add: server_inv_def adds_inv_def settled_def receiving_def)
  then show ?thesis
    using run_all_done [of "s_pool s"] assms made_runnable
    by (simp add: server_inv_def pool_inv_def settled_def)
qed

lemma pushed_made:
  assumes "server_inv can_alloc s" and "made_ok s"
  shows "mset (pushed (s_net s) c) \<subseteq># mset (answers_for c (m_pool (s_ctrl s)))"
    and "settled s \<Longrightarrow> mset (pushed (s_net s) c) = mset (answers_for c (m_pool (s_ctrl s)))"
proof -
  have p: "pushed (s_net s) c = answers_for c (map snd (runs (s_pool s)))"
    using assms by (simp add: server_inv_def answered_def)
  show "mset (pushed (s_net s) c) \<subseteq># mset (answers_for c (m_pool (s_ctrl s)))"
    unfolding p by (rule answers_for_mono) (rule runs_made [OF assms(1)])
  show "mset (pushed (s_net s) c) = mset (answers_for c (m_pool (s_ctrl s)))" if "settled s"
    unfolding p by (simp only: answers_for_mset runs_settled [OF assms(1) that])
qed

lemma made_answers:
  assumes "server_inv can_alloc s" and "grants can_alloc M" and "M + 2 ^ 15 < 2 ^ 32"
    and "streams_ok M (s_recvs s)"
  shows "answers_for c (m_pool (s_ctrl s)) = stream_answers c (stream_of c (s_recvs s))"
  using answers_for_made [OF server_tracks [OF assms]] .

lemma net_started: "s_net (server_start fd efd) = net_start (server_up fd efd)"
  by (simp add: server_start_def)

end
