(* ===== verification/ServerLive.thy ===== *)
theory ServerLive
  imports ServerAnswers
begin

section \<open>The server can finish what it has received\<close>

text \<open>
  A state from which nothing more is received and nobody hangs up: if the mutex of the pool is free and some
  worker is in its loop, there are steps of the receive thread, of that worker and of the send thread that
  add the tasks already made, run all tasks and send all answers for any number of clients. The runs of the pool that
  the theories AddTask and ThreadPoolDrain give are carried over to the whole server.
\<close>

subsection \<open>The pool is never released\<close>

fun stopping :: "'d cpc \<Rightarrow> bool" where
  "stopping C_Release = True"
| "stopping C_Del = True"
| "stopping (C_Join d ths) = True"
| "stopping (C_Init a b) = True"
| "stopping _ = False"

definition running :: "server \<Rightarrow> bool" where
  "running s \<longleftrightarrow> sys.m_instance (s_pool s) \<and> m_tpState (pool (s_pool s)) \<and>
     (\<forall>c. \<not> stopping (callers (s_pool s) c))"

lemma running_inside:
  assumes "pool_step p l p'" and "inside p l"
    and "sys.m_instance p \<and> m_tpState (pool p) \<and> (\<forall>c. \<not> stopping (callers p c))"
  shows "sys.m_instance p' \<and> m_tpState (pool p') \<and> (\<forall>c. \<not> stopping (callers p' c))"
  using assms(1)
proof cases
  case (by_caller c)
  have "\<not> stopping (callers p c)" "sys.m_instance p" using assms(3) by simp_all
  with by_caller(2) assms(3) show ?thesis by (cases rule: caller_step_cases) auto
next
  case (by_timeout c)
  with assms(3) show ?thesis by (auto elim!: poll_timeout_cases split: if_splits)
next
  case (by_call c op)
  with assms(2,3) show ?thesis by auto
qed (use assms(3) in \<open>simp add: worker_keeps\<close>)

lemma running_step:
  assumes "running s" and "server_step can_alloc s l s'"
  shows "running s'"
  using assms(2)
proof cases
  case add
  with assms(1) show ?thesis by (simp add: running_def do_add_def)
next
  case (pool l p)
  with running_inside [OF pool(3,4)] assms(1) show ?thesis by (simp add: running_def)
qed (use assms(1) in \<open>simp_all add: running_def worker_keeps\<close>)

interpretation runs_on: step_invariant "server_step can_alloc" "\<lambda>_. True" running for can_alloc
  by unfold_locales (rule running_step)

lemma running_start: "running (server_start fd efd)"
  by (simp add: running_def server_start_def boot_def init_fields_def)

lemma server_running:
  "reachable (server_step can_alloc) allowed (server_start fd efd) s \<Longrightarrow> running s"
  by (rule runs_on.reachable_inv [OF reachable_mono running_start]) simp_all

subsection \<open>Runs of the pool are runs of the server\<close>

text \<open>Steps at which nothing arrives, nobody hangs up, and the kernel takes every datum whole.\<close>

fun onward :: "server_label \<Rightarrow> bool" where
  "onward (S_Recv fd chunk) = False"
| "onward (S_Net (N_Hup fd)) = False"
| "onward (S_Net (N_Transmit n)) = (n = None)"
| "onward _ = True"

lemma onward_client: "onward l \<Longrightarrow> keeps_client c l" "onward l \<Longrightarrow> sends_whole c l"
  by (cases l rule: onward.cases; simp)+

definition same_input :: "server \<Rightarrow> server \<Rightarrow> bool" where
  "same_input s s' \<longleftrightarrow> s_ctrl s' = s_ctrl s \<and> s_recvs s' = s_recvs s \<and>
     m_socket (sock (s_net s')) = m_socket (sock (s_net s))"

lemma same_input_refl [simp]: "same_input s s"
  by (simp add: same_input_def)

lemma same_input_trans: "same_input s s' \<Longrightarrow> same_input s' s'' \<Longrightarrow> same_input s s''"
  by (simp add: same_input_def)

lemma socket_push: "m_socket (push_back c d k) = m_socket k"
  by (simp add: push_back_def)

lemma socket_take: "m_socket (snd (take_front c k)) = m_socket k"
  by (simp add: take_front_def split: list.split)

lemma socket_pushed:
  "onTaskProcessor (send can_alloc) has_socket cmd0 param (sock n) = Inr k \<Longrightarrow>
   m_socket (sock (pushed_to k n)) = m_socket (sock n)"
  using onTaskProcessor_pushes [of can_alloc has_socket cmd0 param "sock n" k]
  by (auto simp: pushed_to_def socket_push)

lemma sock_take: "sock (do_take c n) = snd (take_front c (sock n))"
  by (simp add: do_take_def split: prod.split)

lemma net_socket: "net_step n l n' \<Longrightarrow> m_socket (sock n') = m_socket (sock n)"
  by (erule net_stepE)
    (simp_all add: do_send_def do_transmit_def socket_push erase_list_def sock_take socket_take)

lemma socket_step: "server_step can_alloc s l s' \<Longrightarrow> m_socket (sock (s_net s')) = m_socket (sock (s_net s))"
  by (erule server_stepE) (auto simp: socket_pushed net_socket)

lemma server_socket:
  "reachable (server_step can_alloc) allowed (server_start sfd efd) s \<Longrightarrow> m_socket (sock (s_net s)) = sfd"
  by (induction rule: reachable.induct)
    (simp_all add: socket_step server_start_def net_start_def server_up_def)

lemma lift_worker:
  assumes "server_inv can_alloc s" and "made_ok s" and "grants can_alloc 1044"
    and "worker_enabled (s_pool s) i"
  shows "\<exists>l s'. server_step can_alloc s l s' \<and> onward l \<and> s_pool s' = do_worker i (s_pool s) \<and>
    same_input s s' \<and> s_adds s' = s_adds s"
proof (cases "t_pc (thr (s_pool s) ! i) = W_Run")
  case True
  have i: "i < length (thr (s_pool s))" using assms(4) by (simp add: worker_enabled_def)
  from worker_holds_made [OF assms(1) i True] obtain task
    where t: "t_task (thr (s_pool s) ! i) = Some task" "made_ok s \<Longrightarrow> task_ok (m_param task)" by blast
  let ?k = "fold (push_back (m_clientId (m_param task))) (answer_to (m_param task)) (sock (s_net s))"
  have k: "onTaskProcessor (send can_alloc) True 0 (Some (m_param task)) (sock (s_net s)) = Inr ?k"
    using t(2) assms(2,3) by (intro processed_task) simp_all
  have "server_step can_alloc s (S_Run i) (do_run i ?k s)"
    using assms(4) True t(1) k by (rule server_step.run)
  then show ?thesis
    using socket_pushed [OF k] by (intro exI [of _ "S_Run i"] exI [of _ "do_run i ?k s"]) (simp add: same_input_def)
next
  case False
  have "server_step can_alloc s (S_Pool (Worker i)) (s\<lparr>s_pool := do_worker i (s_pool s)\<rparr>)"
    using by_worker [OF assms(4)] False by (intro server_step.pool) simp_all
  then show ?thesis
    by (intro exI [of _ "S_Pool (Worker i)"] exI [of _ "s\<lparr>s_pool := do_worker i (s_pool s)\<rparr>"])
      (simp add: same_input_def)
qed

text \<open>All steps but the beginning of a call.\<close>

fun no_call :: "'d label \<Rightarrow> bool" where
  "no_call (Call c op) = False"
| "no_call _ = True"

lemma under_way_no_call: "list_all under_way ls \<Longrightarrow> list_all no_call ls"
  by (erule list.pred_mono_strong) (auto elim: under_way.elims)

lemma own_no_call: "list_all (own_label c) ls \<Longrightarrow> list_all no_call ls"
  by (erule list.pred_mono_strong) (auto simp: own_label_def split: label.splits)

lemma lift_inside:
  assumes "fire l (s_pool s) = Some p" and "inside (s_pool s) l"
  shows "\<exists>l' s'. server_step can_alloc s l' s' \<and> onward l' \<and> s_pool s' = p \<and> same_input s s' \<and>
    s_adds s' = s_adds s"
proof -
  have "pool_step (s_pool s) l p" using assms(1) by (simp only: fire_iff)
  then have "server_step can_alloc s (S_Pool l) (s\<lparr>s_pool := p\<rparr>)" using assms(2) by (rule server_step.pool)
  then show ?thesis by (intro exI [of _ "S_Pool l"] exI [of _ "s\<lparr>s_pool := p\<rparr>"]) (simp add: same_input_def)
qed

lemma lift_step:
  assumes "server_inv can_alloc s" and "made_ok s" and "grants can_alloc 1044"
    and "fire l (s_pool s) = Some p" and "no_call l"
  shows "\<exists>l' s'. server_step can_alloc s l' s' \<and> onward l' \<and> s_pool s' = p \<and> same_input s s' \<and>
    s_adds s' = s_adds s"
proof (cases "\<exists>i. l = Worker i")
  case True
  then obtain i where "l = Worker i" by blast
  with assms(4) have "worker_enabled (s_pool s) i" and "p = do_worker i (s_pool s)"
    by (simp_all split: if_splits)
  with lift_worker [OF assms(1-3)] show ?thesis by simp
next
  case False
  with assms(5) have "inside (s_pool s) l" by (cases l) simp_all
  with assms(4) show ?thesis by (rule lift_inside)
qed

text \<open>States that a run of the server leads to, without a word about the way.\<close>

definition leads :: "(u32 \<Rightarrow> bool) \<Rightarrow> server \<Rightarrow> server \<Rightarrow> bool" where
  "leads can_alloc s s' \<longleftrightarrow> reachable (server_step can_alloc) onward s s' \<and> same_input s s'"

lemma leads_refl: "leads can_alloc s s"
  by (simp add: leads_def reachable.start)

lemma leads_trans: "leads can_alloc s s' \<Longrightarrow> leads can_alloc s' s'' \<Longrightarrow> leads can_alloc s s''"
  by (auto simp: leads_def intro: reachable_trans same_input_trans)

lemma leads_one: "server_step can_alloc s l s' \<Longrightarrow> onward l \<Longrightarrow> same_input s s' \<Longrightarrow> leads can_alloc s s'"
  by (auto simp: leads_def intro: reachable_one)

lemma leads_keeps:
  assumes "leads can_alloc s s'" and "server_inv can_alloc s" and "made_ok s" and "grants can_alloc 1044"
  shows "server_inv can_alloc s'" and "made_ok s'"
proof -
  have "reachable (server_step can_alloc) (\<lambda>_. grants can_alloc 1044) s s'"
    using assms(1,4) by (auto simp: leads_def intro: reachable_mono)
  then show "server_inv can_alloc s'" using assms(2) by (rule served.reachable_inv)
  show "made_ok s'" using assms(1,3) by (simp add: leads_def same_input_def made_ok_def)
qed

lemma lift_run:
  assumes "grants can_alloc 1044"
  shows "server_inv can_alloc s \<Longrightarrow> made_ok s \<Longrightarrow> fire_all ls (s_pool s) = Some p \<Longrightarrow> list_all no_call ls \<Longrightarrow>
    \<exists>s'. leads can_alloc s s' \<and> s_pool s' = p \<and> s_adds s' = s_adds s"
proof (induction ls arbitrary: s)
  case Nil
  then show ?case using leads_refl by auto
next
  case (Cons l ls)
  then obtain q where q: "fire l (s_pool s) = Some q" "fire_all ls q = Some p" by (auto split: option.splits)
  from lift_step [OF Cons.prems(1,2) assms q(1)] Cons.prems(4) obtain l' s1
    where s1: "server_step can_alloc s l' s1" "onward l'" "s_pool s1 = q" "same_input s s1" "s_adds s1 = s_adds s"
    by auto
  have lead: "leads can_alloc s s1" using s1(1,2,4) by (rule leads_one)
  from Cons.IH [OF leads_keeps [OF lead Cons.prems(1,2) assms]] q(2) s1(3) Cons.prems(4)
  obtain s' where "leads can_alloc s1 s'" "s_pool s' = p" "s_adds s' = s_adds s1" by auto
  with leads_trans [OF lead] s1(5) show ?case by auto
qed

subsection \<open>Adding what has been made\<close>

lemma addTask_leaves:
  "m_tpState (pool (addTask task p)) = m_tpState (pool p)" "callers (addTask task p) = callers p"
  "mtx (addTask task p) = mtx p"
  "\<exists>ts. thr (addTask task p) = thr p @ ts \<and> list_all (\<lambda>t. in_hand t = []) ts"
  by (simp_all add: addTask_def Let_def createNewThread_def new_thread_def in_hand_def)

lemma add_one:
  assumes "server_inv can_alloc s" and "made_ok s" and "grants can_alloc 1044"
    and "callers (s_pool s) receiver = C_Idle" and "mtx (s_pool s) = None"
    and "s_adds s < length (m_pool (s_ctrl s))"
  shows "\<exists>s'. leads can_alloc s s' \<and> s_adds s' = Suc (s_adds s) \<and>
    s_pool s' = addTask (task_of (m_pool (s_ctrl s) ! s_adds s)) (s_pool s)"
proof -
  let ?task = "task_of (m_pool (s_ctrl s) ! s_adds s)"
  have "server_step can_alloc s S_Add (do_add s)" using assms(6,4) by (rule server_step.add)
  then have lead: "leads can_alloc s (do_add s)" by (rule leads_one) (simp_all add: same_input_def)
  obtain ls where ls: "list_all under_way ls"
    "fire_all (Call receiver (Op_Add ?task) # Caller receiver # ls) (s_pool s) = Some (addTask ?task (s_pool s))"
    using addTask_run [OF assms(4,5)] by blast
  then have "fire_all (Caller receiver # ls) (s_pool (do_add s)) = Some (addTask ?task (s_pool s))"
    using assms(4) by (simp add: do_add_def)
  moreover have "list_all no_call (Caller receiver # ls)" using under_way_no_call [OF ls(1)] by simp
  ultimately obtain s' where "leads can_alloc (do_add s) s'" "s_pool s' = addTask ?task (s_pool s)"
    "s_adds s' = s_adds (do_add s)"
    using lift_run [OF assms(3) leads_keeps [OF lead assms(1-3)]] by blast
  with leads_trans [OF lead] show ?thesis by auto
qed

lemma add_all:
  assumes "grants can_alloc 1044"
  shows "server_inv can_alloc s \<Longrightarrow> made_ok s \<Longrightarrow> callers (s_pool s) receiver = C_Idle \<Longrightarrow>
    mtx (s_pool s) = None \<Longrightarrow>
    \<exists>s'. leads can_alloc s s' \<and> receiving s' \<and> mtx (s_pool s') = None \<and>
      (\<exists>ts. thr (s_pool s') = thr (s_pool s) @ ts \<and> list_all (\<lambda>t. in_hand t = []) ts)"
proof (induction "length (m_pool (s_ctrl s)) - s_adds s" arbitrary: s)
  case 0
  then have "s_adds s = length (m_pool (s_ctrl s))" by (simp add: server_inv_def adds_inv_def)
  with 0 show ?case using leads_refl by (intro exI [of _ s]) (simp add: receiving_def)
next
  case (Suc n)
  then have "s_adds s < length (m_pool (s_ctrl s))" by simp
  from add_one [OF Suc.prems(1,2) assms Suc.prems(3,4) this] obtain s1 where
    s1: "leads can_alloc s s1" "s_adds s1 = Suc (s_adds s)"
      "s_pool s1 = addTask (task_of (m_pool (s_ctrl s) ! s_adds s)) (s_pool s)" by blast
  have "s_ctrl s1 = s_ctrl s" using s1(1) by (simp add: leads_def same_input_def)
  then have "n = length (m_pool (s_ctrl s1)) - s_adds s1" using Suc.hyps(2) s1(2) by simp
  moreover have "callers (s_pool s1) receiver = C_Idle" "mtx (s_pool s1) = None"
    using Suc.prems(3,4) by (simp_all add: s1(3) addTask_leaves)
  moreover obtain ts where ts: "thr (s_pool s1) = thr (s_pool s) @ ts" "list_all (\<lambda>t. in_hand t = []) ts"
    using addTask_leaves(4) [of "task_of (m_pool (s_ctrl s) ! s_adds s)" "s_pool s"] s1(3) by auto
  ultimately obtain s' us where s': "leads can_alloc s1 s'" "receiving s'" "mtx (s_pool s') = None"
    "thr (s_pool s') = thr (s_pool s1) @ us" "list_all (\<lambda>t. in_hand t = []) us"
    using Suc.hyps(1) leads_keeps [OF s1(1) Suc.prems(1,2) assms] by blast
  show ?case
    using leads_trans [OF s1(1) s'(1)] s'(2-5) ts
    by (intro exI [of _ s'] conjI exI [of _ "ts @ us"]) simp_all
qed

subsection \<open>Running all tasks\<close>

lemma worker_alone:
  "set ls \<subseteq> {Worker i} \<Longrightarrow> fire_all ls p = Some p' \<Longrightarrow>
   length (thr p') = length (thr p) \<and> (\<forall>j. j \<noteq> i \<longrightarrow> thr p' ! j = thr p ! j) \<and> callers p' = callers p \<and>
   mtx p' = mtx p"
proof (induction ls arbitrary: p)
  case (Cons l ls)
  then have l: "l = Worker i" "set ls \<subseteq> {Worker i}" by simp_all
  with Cons.prems(2) have "fire_all ls (do_worker i p) = Some p'" by (simp split: if_splits)
  from Cons.IH [OF l(2) this] show ?case by simp
qed simp

lemma run_tasks:
  assumes "server_inv can_alloc s" and "made_ok s" and "grants can_alloc 1044" and "running s"
    and "receiving s" and "mtx (s_pool s) = None" and "i < length (thr (s_pool s))"
    and "serves (thr (s_pool s) ! i)"
    and "\<And>j. j < length (thr (s_pool s)) \<Longrightarrow> j \<noteq> i \<Longrightarrow> in_hand (thr (s_pool s) ! j) = []"
  shows "\<exists>s'. leads can_alloc s s' \<and> settled s'"
proof -
  have "draining i (s_pool s)" using assms(4,6-8) by (simp add: draining_def running_def)
  from drain [OF this] obtain ls p where ls: "set ls \<subseteq> {Worker i}" "fire_all ls (s_pool s) = Some p"
    and p: "drained i p" by blast
  have "list_all no_call ls" using ls(1) by (auto simp: list_all_iff)
  from lift_run [OF assms(3,1,2) ls(2) this] obtain s' where
    s': "leads can_alloc s s'" "s_pool s' = p" "s_adds s' = s_adds s" by blast
  have "in_hand (thr p ! j) = []" if "j < length (thr p)" for j
    using worker_alone [OF ls] p assms(9) that by (cases "j = i") (simp_all add: drained_def)
  then have "settled s'"
    using s' assms(5) worker_alone [OF ls] p
    by (simp add: settled_def receiving_def leads_def same_input_def drained_def list_all_length)
  with s'(1) show ?thesis by blast
qed

subsection \<open>Sending all answers\<close>

text \<open>The clients that have nothing in flight, in one state, have nothing in flight in the other.\<close>

definition keeps_served :: "server \<Rightarrow> server \<Rightarrow> bool" where
  "keeps_served s s' \<longleftrightarrow> s_pool s' = s_pool s \<and> s_adds s' = s_adds s \<and>
     (\<forall>b. in_flight (s_net s) b = [] \<longrightarrow> in_flight (s_net s') b = [])"

lemma keeps_served_refl: "keeps_served s s"
  by (simp add: keeps_served_def)

lemma keeps_served_trans: "keeps_served s s' \<Longrightarrow> keeps_served s' s'' \<Longrightarrow> keeps_served s s''"
  by (simp add: keeps_served_def)

lemma transmit_hand:
  "\<exists>s'. leads can_alloc s s' \<and> keeps_served s s' \<and> hand (s_net s') = None \<and>
     list_of (sock (s_net s')) c = list_of (sock (s_net s)) c"
proof (cases "hand (s_net s)")
  case None
  then show ?thesis using leads_refl keeps_served_refl by blast
next
  case (Some x)
  then obtain fd d where h: "hand (s_net s) = Some (fd, d)" by (cases x) simp
  let ?s = "s\<lparr>s_net := do_transmit fd d None (s_net s)\<rparr>"
  have "server_step can_alloc s (S_Net (N_Transmit None)) ?s"
    using net_step.transmit [OF h] by (rule server_step.net) simp
  then have "leads can_alloc s ?s" by (rule leads_one) (simp_all add: same_input_def do_transmit_def)
  moreover have "keeps_served s ?s" by (simp add: keeps_served_def in_flight_def do_transmit_def)
  ultimately show ?thesis by (intro exI [of _ ?s]) (simp add: do_transmit_def)
qed

lemma take_keeps:
  assumes "hand (s_net s) = None" and "in_flight (s_net s) c \<noteq> []"
  shows "keeps_served s (s\<lparr>s_net := do_take c (s_net s)\<rparr>)"
proof -
  have "in_flight (do_take c (s_net s)) b = []" if "in_flight (s_net s) b = []" for b
  proof (cases "b = c")
    case False
    then show ?thesis
      using that take_front_result [of c "sock (s_net s)"] list_of_take [of c "sock (s_net s)" b]
      by (auto simp: in_flight_def do_take_def split: prod.split option.split)
  qed (use assms(2) that in simp)
  then show ?thesis by (simp add: keeps_served_def)
qed

lemma send_all:
  assumes "c \<noteq> m_socket (sock (s_net s))"
  shows "\<exists>s'. leads can_alloc s s' \<and> keeps_served s s' \<and> in_flight (s_net s') c = []"
  using assms
proof (induction "length (list_of (sock (s_net s)) c)" arbitrary: s rule: less_induct)
  case less
  obtain s1 where s1: "leads can_alloc s s1" "keeps_served s s1"
    "hand (s_net s1) = None" "list_of (sock (s_net s1)) c = list_of (sock (s_net s)) c"
    using transmit_hand by blast
  show ?case
  proof (cases "list_of (sock (s_net s)) c = []")
    case True
    with s1 show ?thesis by (intro exI [of _ s1]) (simp add: in_flight_def)
  next
    case False
    let ?s2 = "s1\<lparr>s_net := do_take c (s_net s1)\<rparr>"
    have fd: "c \<noteq> m_socket (sock (s_net s1))" using less.prems s1(1) by (simp add: leads_def same_input_def)
    have "server_step can_alloc s1 (S_Net (N_Take c)) ?s2"
      using net_step.take [OF s1(3) fd] by (rule server_step.net) simp
    then have lead: "leads can_alloc s1 ?s2"
      by (rule leads_one) (simp_all add: same_input_def sock_take socket_take)
    have keep: "keeps_served s1 ?s2"
      using s1(3,4) False by (intro take_keeps) (simp_all add: in_flight_def)
    have "length (list_of (sock (s_net ?s2)) c) < length (list_of (sock (s_net s)) c)"
      using False by (simp add: sock_take list_of_take s1(4))
    moreover have "c \<noteq> m_socket (sock (s_net ?s2))" using fd by (simp add: sock_take socket_take)
    ultimately obtain s' where "leads can_alloc ?s2 s'" "keeps_served ?s2 s'" "in_flight (s_net s') c = []"
      using less.hyps by blast
    with leads_trans [OF leads_trans [OF s1(1) lead]] keeps_served_trans [OF keeps_served_trans [OF s1(2) keep]]
    show ?thesis by blast
  qed
qed

lemma send_all_clients:
  "finite C \<Longrightarrow> m_socket (sock (s_net s)) \<notin> C \<Longrightarrow>
   \<exists>s'. leads can_alloc s s' \<and> keeps_served s s' \<and> (\<forall>c \<in> C. in_flight (s_net s') c = [])"
proof (induction arbitrary: s rule: finite_induct)
  case empty
  then show ?case using leads_refl keeps_served_refl by blast
next
  case (insert c C)
  then obtain s1 where s1: "leads can_alloc s s1" "keeps_served s s1" "\<forall>c \<in> C. in_flight (s_net s1) c = []"
    by blast
  have "c \<noteq> m_socket (sock (s_net s1))" using insert.prems s1(1) by (auto simp: leads_def same_input_def)
  from send_all [OF this] obtain s' where s': "leads can_alloc s1 s'" "keeps_served s1 s'" "in_flight (s_net s') c = []"
    by blast
  then have "\<forall>b \<in> insert c C. in_flight (s_net s') b = []" using s1(3) by (simp add: keeps_served_def)
  with leads_trans [OF s1(1) s'(1)] keeps_served_trans [OF s1(2) s'(2)] show ?case by blast
qed

subsection \<open>All of it\<close>

text \<open>Somebody can do the work: the mutex is free, worker \<open>i\<close> is in its loop and no other worker has
  stopped inside a task.\<close>

definition can_serve :: "nat \<Rightarrow> server \<Rightarrow> bool" where
  "can_serve i s \<longleftrightarrow>
     callers (s_pool s) receiver = C_Idle \<and> mtx (s_pool s) = None \<and> i < length (thr (s_pool s)) \<and>
     serves (thr (s_pool s) ! i) \<and>
     (\<forall>j < length (thr (s_pool s)). j \<noteq> i \<longrightarrow> in_hand (thr (s_pool s) ! j) = [])"

lemma can_finish:
  assumes "server_inv can_alloc s" and "made_ok s" and "grants can_alloc 1044" and "running s"
    and "can_serve i s" and "finite C" and "m_socket (sock (s_net s)) \<notin> C"
  shows "\<exists>s'. leads can_alloc s s' \<and> settled s' \<and> (\<forall>c \<in> C. in_flight (s_net s') c = [])"
proof -
  obtain s1 ts where s1: "leads can_alloc s s1" "receiving s1" "mtx (s_pool s1) = None"
    and thr: "thr (s_pool s1) = thr (s_pool s) @ ts" "list_all (\<lambda>t. in_hand t = []) ts"
    using add_all [OF assms(3,1,2)] assms(5) by (auto simp: can_serve_def)
  have "running s1"
    using s1(1) assms(4) unfolding leads_def by (auto intro: runs_on.reachable_inv reachable_mono)
  moreover have "i < length (thr (s_pool s1))" "serves (thr (s_pool s1) ! i)"
    using assms(5) thr by (simp_all add: can_serve_def nth_append)
  moreover have "in_hand (thr (s_pool s1) ! j) = []" if "j < length (thr (s_pool s1))" "j \<noteq> i" for j
    using assms(5) thr that by (simp add: can_serve_def nth_append list_all_length)
  ultimately obtain s2 where s2: "leads can_alloc s1 s2" "settled s2"
    using run_tasks [OF leads_keeps [OF s1(1) assms(1-3)] assms(3) _ s1(2,3)] by blast
  have lead: "leads can_alloc s s2" using s1(1) s2(1) by (rule leads_trans)
  then have "m_socket (sock (s_net s2)) \<notin> C" using assms(7) by (simp add: leads_def same_input_def)
  from send_all_clients [OF assms(6) this] obtain s' where s': "leads can_alloc s2 s'" "keeps_served s2 s'"
    "\<forall>c \<in> C. in_flight (s_net s') c = []" by blast
  have "settled s'" using s2(2) s'(1,2) by (simp add: settled_def receiving_def leads_def same_input_def keeps_served_def)
  with leads_trans [OF lead s'(1)] s'(3) show ?thesis by blast
qed


subsection \<open>Getting there\<close>

text \<open>
  A state in which a worker is in its loop leads to one in which it \<open>can_serve\<close>: whoever has the mutex gives
  it back, the receive thread returns from the call of the pool it is in, and the other workers finish the
  tasks they have in hand.
\<close>

definition only_moved :: "nat \<Rightarrow> 'd sys \<Rightarrow> 'd sys \<Rightarrow> bool" where
  "only_moved c p p' \<longleftrightarrow> (\<forall>d. d \<noteq> c \<longrightarrow> callers p' d = callers p d) \<and>
     (\<exists>ts. thr p' = thr p @ ts \<and> list_all (\<lambda>t. in_hand t = []) ts)"

definition stays_up :: "'d sys \<Rightarrow> bool" where
  "stays_up p \<longleftrightarrow> sys.m_instance p \<and> mutex_inv p \<and> (\<forall>c. \<not> stopping (callers p c))"

lemma only_moved_refl: "only_moved c p p"
  by (simp add: only_moved_def)

lemma only_moved_trans: "only_moved c p q \<Longrightarrow> only_moved c q r \<Longrightarrow> only_moved c p r"
  by (force simp: only_moved_def)

lemma own_step:
  assumes "fire l p = Some p'" and "own_label c l" and "stays_up p"
  shows "only_moved c p p' \<and> stays_up p'"
proof -
  have step: "pool_step p l p'" using assms(1) by (simp only: fire_iff)
  have mi: "mutex_inv p'" using step assms(3) by (auto simp: stays_up_def intro: mutex_step)
  have ns: "\<not> stopping (callers p c)" and up: "sys.m_instance p" using assms(3) by (simp_all add: stays_up_def)
  from step have "only_moved c p p' \<and> sys.m_instance p' \<and> \<not> stopping (callers p' c)"
  proof cases
    case (by_caller d)
    with assms(2) have "caller_step c p = Some p'" by simp
    then show ?thesis
      using ns up by (cases rule: caller_step_cases) (auto simp: only_moved_def in_hand_def new_thread_def)
  next
    case (by_timeout d)
    with assms(2) have "poll_timeout c p = Some p'" by simp
    then show ?thesis using up by (auto simp: only_moved_def elim!: poll_timeout_cases)
  qed (use assms(2) in \<open>simp_all add: own_label_def\<close>)
  with mi assms(3) show ?thesis by (auto simp: stays_up_def only_moved_def)
qed

lemma own_run:
  "fire_all ls p = Some p' \<Longrightarrow> list_all (own_label c) ls \<Longrightarrow> stays_up p \<Longrightarrow> only_moved c p p' \<and> stays_up p'"
proof (induction ls arbitrary: p)
  case (Cons l ls)
  then obtain q where q: "fire l p = Some q" "fire_all ls q = Some p'" by (auto split: option.splits)
  from own_step [OF q(1)] Cons.prems have "only_moved c p q" "stays_up q" by auto
  with Cons.IH [OF q(2)] Cons.prems show ?case by (auto intro: only_moved_trans)
qed (simp add: only_moved_refl)

lemma mutex_freed:
  assumes "stays_up p"
  shows "\<exists>c ls p'. list_all no_call ls \<and> fire_all ls p = Some p' \<and> mtx p' = None \<and> only_moved c p p' \<and> stays_up p'"
proof (cases "mtx p")
  case None
  with assms show ?thesis using only_moved_refl by (intro exI [of _ 0] exI [of _ "[]"] exI [of _ p]) simp
next
  case (Some c)
  then have cr: "critical (callers p c)" using assms by (simp add: stays_up_def mutex_inv_def)
  have "\<not> stopping (callers p c)" using assms by (simp add: stays_up_def)
  then have "\<not> joining (callers p c)" by (cases "callers p c") simp_all
  from mutex_returned [OF cr this] obtain ls p' where ls: "list_all (own_label c) ls" "fire_all ls p = Some p'"
    "mtx p' = None" by blast
  from own_run [OF ls(2,1) assms] ls own_no_call show ?thesis by blast
qed

lemma caller_home:
  assumes "stays_up p" and "mtx p = None"
  shows "\<exists>ls p' ts. list_all no_call ls \<and> fire_all ls p = Some p' \<and> mtx p' = None \<and> callers p' c = C_Idle \<and>
    thr p' = thr p @ ts \<and> list_all (\<lambda>t. in_hand t = []) ts"
proof -
  have nc: "\<not> critical (callers p c)" and ns: "\<not> stopping (callers p c)" and up: "sys.m_instance p"
    using assms by (simp_all add: stays_up_def mutex_inv_def)
  show ?thesis
  proof (cases "callers p c")
    case (C_Add task)
    let ?q = "goto c C_Idle p"
    have p: "goto c (C_Add task) ?q = p" using C_Add by (simp add: goto_def fun_upd_idem)
    have "callers ?q c = C_Idle" and free: "mtx ?q = None" using assms(2) by simp_all
    from addTask_run [OF this, of task] obtain ls where ls: "list_all under_way ls"
      "fire_all (Caller c # ls) p = Some (addTask task ?q)"
      using p by auto
    obtain ts where "thr (addTask task ?q) = thr p @ ts" "list_all (\<lambda>t. in_hand t = []) ts"
      using addTask_leaves(4) [of task ?q] by auto
    moreover have "mtx (addTask task ?q) = None" "callers (addTask task ?q) c = C_Idle"
      using free by (simp_all add: addTask_leaves)
    ultimately show ?thesis
      using ls under_way_no_call [OF ls(1)]
      by (intro exI [of _ "Caller c # ls"] exI [of _ "addTask task ?q"] exI [of _ ts]) simp
  next
    case C_Get
    with assms(2) up show ?thesis
      by (intro exI [of _ "[Caller c, Caller c]"]) (simp add: caller_step_def)
  next
    case C_Notify
    with assms(2) show ?thesis by (intro exI [of _ "[Caller c, Caller c]"]) (simp add: caller_step_def)
  next
    case (C_Ret r)
    with assms(2) show ?thesis by (intro exI [of _ "[Caller c]"]) (simp add: caller_step_def)
  next
    case C_Idle
    with assms(2) show ?thesis by (intro exI [of _ "[]"]) simp
  qed (use nc ns in simp_all)
qed

lemma hand_done:
  assumes "j < length (thr p)"
  shows "\<exists>ls p'. set ls \<subseteq> {Worker j} \<and> fire_all ls p = Some p' \<and> in_hand (thr p' ! j) = []"
proof (cases "in_hand (thr p ! j) = []")
  case True
  then show ?thesis by (intro exI [of _ "[]"]) simp
next
  case False
  then consider "t_pc (thr p ! j) = W_Run"
    | task where "t_pc (thr p ! j) = W_Dispatch" "t_task (thr p ! j) = Some task" "m_worker task \<noteq> None"
    by (auto simp: in_hand_def runnable_def split: if_splits option.splits)
  then show ?thesis
  proof cases
    case 1
    with assms show ?thesis
      by (intro exI [of _ "[Worker j]"])
        (simp add: worker_enabled_def needs_mtx_def do_worker_def worker_step_def in_hand_def Let_def)
  next
    case 2
    with assms show ?thesis
      by (intro exI [of _ "[Worker j, Worker j]"])
        (simp add: worker_enabled_def needs_mtx_def do_worker_def worker_step_def in_hand_def Let_def)
  qed
qed

lemma hands_done:
  "n \<le> length (thr p) \<Longrightarrow> \<exists>ls p'. list_all no_call ls \<and> fire_all ls p = Some p' \<and>
    length (thr p') = length (thr p) \<and> thr p' ! i = thr p ! i \<and> callers p' = callers p \<and> mtx p' = mtx p \<and>
    (\<forall>j < n. j \<noteq> i \<longrightarrow> in_hand (thr p' ! j) = [])"
proof (induction n)
  case 0
  show ?case by (intro exI [of _ "[]"]) simp
next
  case (Suc n)
  then obtain ls q where q: "list_all no_call ls" "fire_all ls p = Some q" "length (thr q) = length (thr p)"
    "thr q ! i = thr p ! i" "callers q = callers p" "mtx q = mtx p" "\<forall>j < n. j \<noteq> i \<longrightarrow> in_hand (thr q ! j) = []"
    by auto
  show ?case
  proof (cases "n = i")
    case True
    with q show ?thesis by (intro exI [of _ ls] exI [of _ q]) (simp add: less_Suc_eq)
  next
    case False
    have "n < length (thr q)" using Suc.prems q(3) by simp
    from hand_done [OF this] obtain ms p' where ms: "set ms \<subseteq> {Worker n}" "fire_all ms q = Some p'"
      "in_hand (thr p' ! n) = []" by blast
    have "list_all no_call ms" using ms(1) by (auto simp: list_all_iff)
    with worker_alone [OF ms(1,2)] q ms(2,3) False show ?thesis
      by (intro exI [of _ "ls @ ms"] exI [of _ p']) (simp add: fire_all_append less_Suc_eq)
  qed
qed

lemma pool_ready:
  assumes "stays_up p" and "i < length (thr p)" and "serves (thr p ! i)"
  shows "\<exists>ls p'. list_all no_call ls \<and> fire_all ls p = Some p' \<and> callers p' c = C_Idle \<and> mtx p' = None \<and>
    i < length (thr p') \<and> serves (thr p' ! i) \<and>
    (\<forall>j < length (thr p'). j \<noteq> i \<longrightarrow> in_hand (thr p' ! j) = [])"
proof -
  obtain ls1 p1 d where p1: "list_all no_call ls1" "fire_all ls1 p = Some p1" "mtx p1 = None" "stays_up p1"
    and "only_moved d p p1" using mutex_freed [OF assms(1)] by blast
  then obtain ts where t1: "thr p1 = thr p @ ts" by (auto simp: only_moved_def)
  obtain ls2 p2 us where p2: "list_all no_call ls2" "fire_all ls2 p1 = Some p2" "mtx p2 = None"
    "callers p2 c = C_Idle" "thr p2 = thr p1 @ us" using caller_home [OF p1(4,3)] by blast
  obtain ls3 p3 where p3: "list_all no_call ls3" "fire_all ls3 p2 = Some p3" "length (thr p3) = length (thr p2)"
    "thr p3 ! i = thr p2 ! i" "callers p3 = callers p2" "mtx p3 = mtx p2"
    "\<forall>j < length (thr p2). j \<noteq> i \<longrightarrow> in_hand (thr p3 ! j) = []"
    using hands_done [of "length (thr p2)" p2 i] by blast
  have "fire_all (ls1 @ ls2 @ ls3) p = Some p3" using p1(2) p2(2) p3(2) by (simp add: fire_all_append)
  then show ?thesis
    using p1(1) p2 p3 t1 assms(2,3)
    by (intro exI [of _ "ls1 @ ls2 @ ls3"] exI [of _ p3]) (simp add: nth_append)
qed

lemma can_serve_soon:
  assumes "server_inv can_alloc s" and "made_ok s" and "grants can_alloc 1044" and "running s"
    and "mutex_inv (s_pool s)" and "i < length (thr (s_pool s))" and "serves (thr (s_pool s) ! i)"
  shows "\<exists>s'. leads can_alloc s s' \<and> can_serve i s'"
proof -
  have "stays_up (s_pool s)" using assms(4,5) by (simp add: stays_up_def running_def)
  from pool_ready [OF this assms(6,7), of receiver] obtain ls p where
    p: "list_all no_call ls" "fire_all ls (s_pool s) = Some p" and ready: "callers p receiver = C_Idle" "mtx p = None"
      "i < length (thr p)" "serves (thr p ! i)" "\<forall>j < length (thr p). j \<noteq> i \<longrightarrow> in_hand (thr p ! j) = []"
    by blast
  from lift_run [OF assms(3,1,2) p(2,1)] obtain s' where "leads can_alloc s s'" "s_pool s' = p" by blast
  with ready show ?thesis by (auto simp: can_serve_def)
qed

subsection \<open>Receiving more\<close>

text \<open>Nobody hangs up, and the kernel takes every datum whole.\<close>

fun undisturbed :: "server_label \<Rightarrow> bool" where
  "undisturbed (S_Net (N_Hup fd)) = False"
| "undisturbed (S_Net (N_Transmit n)) = (n = None)"
| "undisturbed _ = True"

lemma undisturbed_client: "undisturbed l \<Longrightarrow> keeps_client c l" "undisturbed l \<Longrightarrow> sends_whole c l"
  by (cases l rule: undisturbed.cases; simp)+

lemma onward_undisturbed: "onward l \<Longrightarrow> undisturbed l"
  by (cases l rule: onward.cases) simp_all

lemma receive_one:
  assumes "server_inv can_alloc s" and "receiving s" and "fd \<noteq> m_socket (sock (s_net s))"
    and "grants can_alloc M" and "M + 2 ^ 15 < 2 ^ 32" and "streams_ok M (s_recvs s @ [(fd, chunk)])"
  shows "\<exists>t. server_step can_alloc s (S_Recv fd chunk) (do_recv fd chunk t s)"
proof -
  from streams_okD [OF assms(6)] have ok: "streams_ok M (s_recvs s)" "recv_ok (fd, chunk)"
    "cut_ok M (stream_of fd (s_recvs s))" "cut_ok M (stream_of fd (s_recvs s) @ chunk)" by simp_all
  from made.tracks_chunk [OF server_tracks [OF assms(1,4,5) ok(1)] ok(2-4) assms(4,5)]
  obtain t where "onRecv can_alloc hand_over fd (recv_buffer chunk) (word_of_nat (length chunk)) (s_ctrl s) =
      Some (Inr t)" by blast
  with server_step.recv [OF assms(2,3) ok(2)] show ?thesis by blast
qed

lemma streams_ok_prefix: "streams_ok M (evs @ fs) \<Longrightarrow> streams_ok M evs"
proof (induction fs rule: rev_induct)
  case (snoc f fs)
  then have "streams_ok M ((evs @ fs) @ [f])" by simp
  from streams_okD [OF this] snoc.IH show ?case by blast
qed simp

lemma receive_all:
  assumes "grants can_alloc M" and "1044 \<le> M" and "M + 2 ^ 15 < 2 ^ 32"
  shows "server_inv can_alloc s \<Longrightarrow> can_serve i s \<Longrightarrow> streams_ok M (s_recvs s @ evs) \<Longrightarrow>
    \<forall>e \<in> set evs. fst e \<noteq> m_socket (sock (s_net s)) \<Longrightarrow>
    \<exists>s'. reachable (server_step can_alloc) undisturbed s s' \<and> s_recvs s' = s_recvs s @ evs \<and> can_serve i s' \<and>
      m_socket (sock (s_net s')) = m_socket (sock (s_net s))"
proof (induction evs arbitrary: s)
  case Nil
  then show ?case by (intro exI [of _ s]) (simp add: reachable.start)
next
  case (Cons e evs)
  obtain fd chunk where e: "e = (fd, chunk)" by fastforce
  have g: "grants can_alloc 1044" using assms(1,2) by (auto simp: grants_def)
  have "streams_ok M (s_recvs s)" using Cons.prems(3) by (rule streams_ok_prefix)
  then have made: "made_ok s" using server_made_ok [OF Cons.prems(1) assms(1,3)] by simp
  obtain s1 ts where s1: "leads can_alloc s s1" "receiving s1" "mtx (s_pool s1) = None"
    and thr: "thr (s_pool s1) = thr (s_pool s) @ ts" "list_all (\<lambda>t. in_hand t = []) ts"
    using add_all [OF g Cons.prems(1) made] Cons.prems(2) by (auto simp: can_serve_def)
  have inv: "server_inv can_alloc s1" using leads_keeps(1) [OF s1(1) Cons.prems(1) made g] .
  have same: "s_recvs s1 = s_recvs s" "m_socket (sock (s_net s1)) = m_socket (sock (s_net s))"
    using s1(1) by (simp_all add: leads_def same_input_def)
  have "streams_ok M (s_recvs s1 @ [(fd, chunk)])"
    using streams_ok_prefix [of M "s_recvs s @ [(fd, chunk)]" evs] Cons.prems(3) by (simp add: e same)
  moreover have "fd \<noteq> m_socket (sock (s_net s1))" using Cons.prems(4) by (simp add: e same)
  ultimately obtain t where t: "server_step can_alloc s1 (S_Recv fd chunk) (do_recv fd chunk t s1)"
    using receive_one [OF inv s1(2) _ assms(1,3)] by blast
  let ?s2 = "do_recv fd chunk t s1"
  have "reachable (server_step can_alloc) undisturbed s s1"
    using s1(1) by (auto simp: leads_def intro: reachable_mono onward_undisturbed)
  then have r: "reachable (server_step can_alloc) undisturbed s ?s2"
    using t by (rule reachable.step) simp
  have "can_serve i s1"
    using s1(2,3) thr Cons.prems(2) by (auto simp: can_serve_def receiving_def nth_append list_all_length)
  then have "can_serve i ?s2" by (simp add: can_serve_def)
  moreover have "server_inv can_alloc ?s2" using inv t g by (rule server_inv_step)
  ultimately obtain s' where "reachable (server_step can_alloc) undisturbed ?s2 s'"
    "s_recvs s' = s_recvs ?s2 @ evs" "can_serve i s'" "m_socket (sock (s_net s')) = m_socket (sock (s_net ?s2))"
    using Cons.IH [of ?s2] Cons.prems(3,4) by (auto simp: e same)
  with reachable_trans [OF _ r] same show ?case by (intro exI [of _ s']) (auto simp: e)
qed

end
