(* ===== verification/ServerProperties.thy ===== *)
theory ServerProperties
  imports ServerLive
begin

section \<open>Properties of the whole server\<close>

subsection \<open>A started server\<close>

text \<open>The main thread has constructed the controller, and the two threads of the pool are in their loops.\<close>

definition start_labels :: "taskData label list" where
  "start_labels = [Caller 0, Worker 0, Caller 0, Caller 0, Caller 0, Worker 1, Caller 0, Caller 0]
     @ replicate 3 (Caller 0) @ [Worker 0, Worker 1]"

definition started_pool :: "taskData sys" where
  "started_pool = the (fire_all start_labels (boot 8 2))"

lemma started: "fire_all start_labels (boot 8 2) = Some started_pool"
proof -
  have "fire_all start_labels (boot 8 2) \<noteq> None" by code_simp
  then show ?thesis by (auto simp: started_pool_def)
qed

lemma server_started_up:
  assumes "grants can_alloc 1044"
  shows "\<exists>s. leads can_alloc (server_start sfd efd) s \<and> can_serve 0 s"
proof -
  have "list_all no_call start_labels" by code_simp
  moreover have "made_ok (server_start sfd efd)"
    by (simp add: made_ok_def server_start_def new_controller_def)
  moreover have "fire_all start_labels (s_pool (server_start sfd efd)) = Some started_pool"
    using started by (simp add: server_start_def)
  ultimately obtain s where s: "leads can_alloc (server_start sfd efd) s" "s_pool s = started_pool"
    using lift_run [OF assms server_inv_start] by blast
  have p: "callers started_pool 1 = C_Idle" "mtx started_pool = None" "length (thr started_pool) = 2"
    "serves (thr started_pool ! 0)" "in_hand (thr started_pool ! 1) = []"
    by code_simp+
  have "can_serve 0 s"
    unfolding can_serve_def s(2) using p by (auto simp: less_Suc_eq numeral_2_eq_2)
  with s(1) show ?thesis by blast
qed

text \<open>Whatever admissible streams arrive, there is a run in which the server receives and answers them.\<close>

lemma leads_undisturbed: "leads can_alloc s s' \<Longrightarrow> reachable (server_step can_alloc) undisturbed s s'"
  by (auto simp: leads_def intro: reachable_mono onward_undisturbed)

lemma server_mutex:
  assumes "reachable (server_step can_alloc) allowed (server_start sfd efd) s"
  shows "mutex_inv (s_pool s)"
proof -
  have "reachable pool_step normal (boot 8 2) (s_pool s)"
    using pool_part.part_reachable [OF assms] by (simp add: server_start_def)
  then have "reachable pool_step (\<lambda>_. True) (boot 8 2) (s_pool s)" by (rule reachable_mono) simp
  then show ?thesis using mutex_boot by (rule mutex.reachable_inv)
qed

lemma serves_streams:
  assumes "reachable (server_step can_alloc) allowed (server_start sfd efd) s"
    and "i < length (thr (s_pool s))" and "serves (thr (s_pool s) ! i)"
    and "grants can_alloc M" and "1044 \<le> M" and "M + 2 ^ 15 < 2 ^ 32" and "streams_ok M (s_recvs s @ evs)"
    and "\<forall>e \<in> set evs. fst e \<noteq> sfd" and "finite C" and "sfd \<notin> C"
  shows "\<exists>s'. reachable (server_step can_alloc) undisturbed s s' \<and> s_recvs s' = s_recvs s @ evs \<and>
    settled s' \<and> (\<forall>c \<in> C. in_flight (s_net s') c = [])"
proof -
  have g: "grants can_alloc 1044" using assms(4,5) by (auto simp: grants_def)
  have inv: "server_inv can_alloc s" using assms(1) g by (rule server_reachable_inv)
  have "streams_ok M (s_recvs s)" using assms(7) by (rule streams_ok_prefix)
  then have made: "made_ok s" by (rule server_made_ok [OF inv assms(4,6)])
  from can_serve_soon [OF inv made g server_running [OF assms(1)] server_mutex [OF assms(1)] assms(2,3)]
  obtain s0 where s0: "leads can_alloc s s0" "can_serve i s0" by blast
  have same: "s_recvs s0 = s_recvs s" "m_socket (sock (s_net s0)) = sfd"
    using s0(1) server_socket [OF assms(1)] by (simp_all add: leads_def same_input_def)
  note inv0 = leads_keeps(1) [OF s0(1) inv made g]
  obtain s1 where s1: "reachable (server_step can_alloc) undisturbed s0 s1" "s_recvs s1 = s_recvs s0 @ evs"
    "can_serve i s1" "m_socket (sock (s_net s1)) = m_socket (sock (s_net s0))"
    using receive_all [OF assms(4-6) inv0 s0(2)] assms(7,8) same by auto
  have r: "reachable (server_step can_alloc) (\<lambda>_. True) (server_start sfd efd) s1"
    using assms(1) leads_undisturbed [OF s0(1)] s1(1) by (blast intro: reachable_trans reachable_mono)
  have inv1: "server_inv can_alloc s1" using r g by (rule server_reachable_inv)
  have "made_ok s1" using server_made_ok [OF inv1 assms(4,6)] assms(7) s1(2) same by simp
  from can_finish [OF inv1 this g server_running [OF r] s1(3) assms(9)] assms(10) s1(4) same obtain s'
    where s': "leads can_alloc s1 s'" "settled s'" "\<forall>c \<in> C. in_flight (s_net s') c = []" by auto
  have "reachable (server_step can_alloc) undisturbed s s'"
    using leads_undisturbed [OF s0(1)] s1(1) leads_undisturbed [OF s'(1)] by (blast intro: reachable_trans)
  with s' s1(2) same show ?thesis
    by (intro exI [of _ s']) (auto simp: leads_def same_input_def)
qed

lemma full_run:
  assumes "grants can_alloc M" and "1044 \<le> M" and "M + 2 ^ 15 < 2 ^ 32" and "streams_ok M evs"
    and "\<forall>e \<in> set evs. fst e \<noteq> sfd" and "finite C" and "sfd \<notin> C"
  shows "\<exists>s. reachable (server_step can_alloc) undisturbed (server_start sfd efd) s \<and> s_recvs s = evs \<and>
    settled s \<and> (\<forall>c \<in> C. in_flight (s_net s) c = [])"
proof -
  have g: "grants can_alloc 1044" using assms(1,2) by (auto simp: grants_def)
  obtain s where s: "leads can_alloc (server_start sfd efd) s" "can_serve 0 s"
    using server_started_up [OF g] by blast
  then have r: "reachable (server_step can_alloc) undisturbed (server_start sfd efd) s"
    by (auto simp: leads_def intro: reachable_mono onward_undisturbed)
  have "s_recvs s = []" using s(1) by (simp add: leads_def same_input_def server_start_def)
  moreover have "i0 < length (thr (s_pool s)) \<and> serves (thr (s_pool s) ! i0)" if "i0 = 0" for i0
    using s(2) that by (simp add: can_serve_def)
  ultimately show ?thesis
    using serves_streams [OF r _ _ assms(1-3), of 0 evs C] assms(4-7) reachable_trans [OF _ r] by auto
qed

text \<open>Two requests, that of client 5 in two pieces around that of client 7.\<close>

definition two_requests :: "(int \<times> byte list) list" where
  "two_requests =
     [(5, [16, 0, 0, 0, 1, 0, 0, 0, 0, 0]), (7, [18, 0, 0, 0, 2, 0, 0, 0, 1, 0, 0, 0, 2, 0, 0, 0, 8, 9]),
      (5, [0, 0, 0, 0, 0, 0])]"

lemma two_requests_ok: "streams_ok memory_limit two_requests"
proof (rule streams_ok_mono)
  show "streams_ok 18 two_requests"
    unfolding streams_ok_def
  proof
    show "list_all recv_ok two_requests"
      by (simp add: two_requests_def recv_ok_def SOCKET_RECV_BUFFER_LEN_def)
    show "\<forall>n\<in>{..length two_requests}. \<forall>c\<in>fst ` set two_requests. cut_ok 18 (stream_of c (take n two_requests))"
      by (simp add: two_requests_def numeral_eq_Suc atMost_Suc)
        (simp add: stream_of_def cut_ok_def split_frames.simps frame_len_def of_le32_def bounded_by_def)
  qed
qed (simp add: memory_limit_def)

lemma two_requests_answers:
  "stream_answers 7 (stream_of 7 two_requests) =
    [\<lparr>sd_clientId = 7, sd_databuf = response_bytes 2 EAC_API2 (api_data 66), sd_len = 1044\<rparr>]"
proof -
  have f: "frames_of (stream_of 7 two_requests) = [request_bytes 2 EAC_API2 [8, 9]]" by code_simp
  show ?thesis
    unfolding stream_answers_def f message_answer_def
    by (simp add: answer_of_request [of _ 2 EAC_API2 "[8, 9]"] api_fill_def)
qed

lemma two_requests_run:
  "\<exists>s. reachable (server_step small_alloc) undisturbed (server_start 3 4) s \<and> s_recvs s = two_requests \<and>
    settled s \<and> in_flight (s_net s) 7 = []"
proof -
  have "1044 \<le> memory_limit" and "\<forall>e \<in> set two_requests. fst e \<noteq> 3"
    by (simp_all add: memory_limit_def two_requests_def)
  from full_run [OF small_alloc_facts(2) this(1) small_alloc_facts(3) two_requests_ok this(2), of "{7}"]
  show ?thesis by simp
qed


text \<open>Once the server is settled, what has been queued for a client are all its answers.\<close>

lemma all_pushed:
  assumes "reachable (server_step can_alloc) (keeps_client c) (server_start sfd efd) s"
    and "grants can_alloc 1044" and "made_ok s" and "settled s"
  shows "mset (handed (s_net s) c @ in_flight (s_net s) c) = mset (answers_for c (m_pool (s_ctrl s)))"
proof -
  have "reachable net_step (stays c) (net_start (server_up sfd efd)) (s_net s)"
    using kept_part.part_reachable [OF assms(1)] by (simp only: net_started)
  then have "stream_inv c (s_net s)" using inv_start(2) by (rule stream.reachable_inv)
  then have "handed (s_net s) c @ in_flight (s_net s) c = pushed (s_net s) c" by (simp add: stream_inv_def)
  with pushed_made(2) [OF server_reachable_inv [OF assms(1,2)] assms(3,4)] show ?thesis by simp
qed

lemma some_pushed:
  assumes "reachable (server_step can_alloc) allowed (server_start sfd efd) s"
    and "grants can_alloc 1044" and "made_ok s"
  shows "mset (handed (s_net s) c @ in_flight (s_net s) c) \<subseteq># mset (answers_for c (m_pool (s_ctrl s)))"
proof -
  have r: "reachable (server_step can_alloc) (\<lambda>_. True) (server_start sfd efd) s"
    using assms(1) by (rule reachable_mono) simp
  have "reachable net_step (\<lambda>_. True) (net_start (server_up sfd efd)) (s_net s)"
    using net_part.part_reachable [OF r] by (simp only: net_started)
  then have "order_inv (s_net s)" using inv_start(1) by (rule order.reachable_inv)
  then have "mset (handed (s_net s) c @ in_flight (s_net s) c) \<subseteq># mset (pushed (s_net s) c)"
    unfolding order_inv_def by (blast intro: subseq_mset)
  also have "\<dots> \<subseteq># mset (answers_for c (m_pool (s_ctrl s)))"
    by (rule pushed_made(1) [OF server_reachable_inv [OF assms(1,2)] assms(3)])
  finally show ?thesis .
qed

lemma all_answered:
  assumes "reachable (server_step can_alloc) (keeps_client c) (server_start sfd efd) s"
    and "grants can_alloc M" and "1044 \<le> M" and "M + 2 ^ 15 < 2 ^ 32" and "streams_ok M (s_recvs s)"
    and "settled s" and "in_flight (s_net s) c = []"
  shows "mset (handed (s_net s) c) = mset (stream_answers c (stream_of c (s_recvs s)))"
proof -
  have g: "grants can_alloc 1044" using assms(2,3) by (auto simp: grants_def)
  note inv = server_reachable_inv [OF assms(1) g]
  from all_pushed [OF assms(1) g server_made_ok [OF inv assms(2,4,5)] assms(6)] assms(7)
  show ?thesis by (simp add: made_answers [OF inv assms(2,4,5)])
qed

text \<open>
  The listen thread closes the descriptor of a client that hangs up and drops the data queued for it, but not
  the tasks of this client. If some of these are still to be run, their answers are queued under the number
  of the descriptor and handed over once that is writable, which after the close can only be for another
  connection: here all answers still due when \<open>c\<close> hangs up go to whoever has the descriptor afterwards.
\<close>

lemma late_answers:
  assumes "reachable (server_step can_alloc) (keeps_client c) (server_start sfd efd) s"
    and "i < length (thr (s_pool s))" and "serves (thr (s_pool s) ! i)"
    and "grants can_alloc M" and "1044 \<le> M" and "M + 2 ^ 15 < 2 ^ 32" and "streams_ok M (s_recvs s)"
    and "in_flight (s_net s) c = []" and "server_step can_alloc s (S_Net (N_Hup c)) t"
  shows "\<exists>s'. reachable (server_step can_alloc) onward t s' \<and> s_recvs s' = s_recvs s \<and>
    mset (handed (s_net s') c) = mset (stream_answers c (stream_of c (s_recvs s)))"
proof -
  have g: "grants can_alloc 1044" using assms(4,5) by (auto simp: grants_def)
  have t: "t = s\<lparr>s_net := (s_net s)\<lparr>sock := erase_list c (sock (s_net s))\<rparr>\<rparr>" and fd: "c \<noteq> sfd"
    using assms(9) server_socket [OF assms(1)] by (auto elim!: server_stepE net_stepE)
  have "reachable (server_step can_alloc) (\<lambda>_. True) (server_start sfd efd) s"
    using assms(1) by (rule reachable_mono) simp
  then have r: "reachable (server_step can_alloc) (\<lambda>_. True) (server_start sfd efd) t"
    using assms(9) by (rule reachable.step) simp
  note inv = server_reachable_inv [OF r g]
  have made: "made_ok t" using server_made_ok [OF inv assms(4,6)] assms(7) by (simp add: t)
  obtain t1 where t1: "leads can_alloc t t1" "can_serve i t1"
    using can_serve_soon [OF inv made g server_running [OF r] server_mutex [OF r]] assms(2,3) by (auto simp: t)
  have r1: "reachable (server_step can_alloc) (\<lambda>_. True) (server_start sfd efd) t1"
    using r t1(1) by (auto simp: leads_def intro: reachable_trans reachable_mono)
  have "m_socket (sock (s_net t1)) = sfd" using r1 by (rule server_socket)
  then obtain s' where s': "leads can_alloc t1 s'" "settled s'" "in_flight (s_net s') c = []"
    using can_finish [OF leads_keeps [OF t1(1) inv made g] g server_running [OF r1] t1(2), of "{c}"] fd by auto
  have lead: "leads can_alloc t s'" using t1(1) s'(1) by (rule leads_trans)
  have "reachable net_step (stays c) (net_start (server_up sfd efd)) (s_net s)"
    using kept_part.part_reachable [OF assms(1)] by (simp only: net_started)
  then have "stream_inv c (s_net s)" using inv_start(2) by (rule stream.reachable_inv)
  then have "stream_inv c (s_net t)"
    using assms(8) in_flight_hup(1) [where s = "s_net s" and c = c and b = c] by (simp add: t stream_inv_def)
  moreover have "reachable net_step (stays c) (s_net t) (s_net s')"
    using lead onward_client(1) by (intro kept_part.part_reachable) (auto simp: leads_def intro: reachable_mono)
  ultimately have "stream_inv c (s_net s')" by (rule stream.reachable_inv [rotated])
  then have h: "handed (s_net s') c = pushed (s_net s') c" using s'(3) by (simp add: stream_inv_def)
  have same: "s_recvs s' = s_recvs s" using lead by (simp add: t leads_def same_input_def)
  note inv' = leads_keeps [OF lead inv made g]
  have "streams_ok M (s_recvs s')" using assms(7) same by simp
  from made_answers [OF inv'(1) assms(4,6) this] pushed_made(2) [OF inv' s'(2)] h same
  have "mset (handed (s_net s') c) = mset (stream_answers c (stream_of c (s_recvs s)))" by simp
  with lead same show ?thesis by (auto simp: leads_def)
qed

subsection \<open>Properties\<close>

text \<open>C4: At any moment of any run of the whole server, its threads interleaved in any way and clients
  hanging up, what has been sent to a descriptor, is being sent to it or is queued for it is part of the answers
  to what the server has received on it. First, for any bytes, if no allocation above \<open>M\<close> succeeds: part of
  the answers to the tasks the controller has cut so far, so that no task is answered twice. Second, if
  allocations up to \<open>M\<close> succeed and the streams of all clients are admissible (every \<open>recv\<close> ends
  outside a length field, no length is 0 and none exceeds \<open>M\<close>): part of the answers to the complete messages
  of the stream. A client is its descriptor here, as in the code: who connects on the descriptor of a client
  that has gone shares its stream and gets answers that are still due to it (\<open>late_answers\<close>).\<close>

theorem answered_at_most_once:
  assumes "reachable (server_step can_alloc) (\<lambda>_. True) (server_start sfd efd) s"
    and "grants can_alloc 1044" and "M + 2 ^ 15 < 2 ^ 32"
  shows "(refuses can_alloc M \<longrightarrow>
      mset (handed (s_net s) c @ in_flight (s_net s) c) \<subseteq># mset (answers_for c (m_pool (s_ctrl s)))) \<and>
    (grants can_alloc M \<and> streams_ok M (s_recvs s) \<longrightarrow>
      mset (handed (s_net s) c @ in_flight (s_net s) c) \<subseteq># mset (stream_answers c (stream_of c (s_recvs s))))"
proof -
  note inv = server_reachable_inv [OF assms(1,2)]
  note part = some_pushed [OF assms(1,2)]
  from part [OF server_made_any [OF inv _ assms(3) server_recvs_ok [OF assms(1)]]]
    part [OF server_made_ok [OF inv _ assms(3)]] made_answers [OF inv _ assms(3)]
  show ?thesis by auto
qed

theorem answered_at_most_once_witness:
  "\<exists>s :: server. s_recvs s = two_requests \<and> mset (handed (s_net s) 7 @ in_flight (s_net s) 7) \<subseteq>#
    {# \<lparr>sd_clientId = 7, sd_databuf = response_bytes 2 EAC_API2 (api_data 66), sd_len = 1044\<rparr> #}"
proof -
  obtain s where s: "reachable (server_step small_alloc) undisturbed (server_start 3 4) s" "s_recvs s = two_requests"
    using two_requests_run by blast
  have r: "reachable (server_step small_alloc) (\<lambda>_. True) (server_start 3 4) s"
    using s(1) by (rule reachable_mono) simp
  have g: "grants small_alloc 1044" by (simp add: grants_def small_alloc_def memory_limit_def)
  from answered_at_most_once [OF r g small_alloc_facts(3), of 7]
  show ?thesis using s(2) two_requests_ok two_requests_answers small_alloc_facts(2)
    by (intro exI [of _ s]) simp
qed



text \<open>C5: The server can always go on and answer, as long as one worker \<open>i\<close> is in its loop and not about to
  leave (\<open>serves\<close>: it waits, looks for a task, or is busy with one). From any such state of a run in which the
  clients \<open>C\<close> have not hung up, other workers may be busy, the receive thread may be inside \<open>addTask\<close> and
  anybody may have the mutex of the pool: whatever admissible pieces arrive next (all streams, earlier and
  later pieces together, with every \<open>recv\<close> ending outside a length field, no length 0 or above \<open>M\<close>, and
  allocations up to \<open>M\<close> granted), there is a run in which the server receives them, settles and has handed
  over to every client of \<open>C\<close> exactly the answers to the complete messages it has sent, earlier ones
  included.\<close>

theorem server_can_answer:
  assumes "reachable (server_step can_alloc) (\<lambda>l. \<forall>c \<in> C. keeps_client c l) (server_start sfd efd) s"
    and "i < length (thr (s_pool s))" and "serves (thr (s_pool s) ! i)"
    and "grants can_alloc M" and "1044 \<le> M" and "M + 2 ^ 15 < 2 ^ 32" and "streams_ok M (s_recvs s @ evs)"
    and "\<forall>e \<in> set evs. fst e \<noteq> sfd" and "finite C" and "sfd \<notin> C"
  shows "\<exists>s'. reachable (server_step can_alloc) undisturbed s s' \<and> s_recvs s' = s_recvs s @ evs \<and> settled s' \<and>
    (\<forall>c \<in> C. mset (handed (s_net s') c) = mset (stream_answers c (stream_of c (s_recvs s @ evs))))"
proof -
  from serves_streams [OF assms] obtain s' where
    s': "reachable (server_step can_alloc) undisturbed s s'" "s_recvs s' = s_recvs s @ evs"
    "settled s'" "\<forall>c \<in> C. in_flight (s_net s') c = []" by auto
  have "mset (handed (s_net s') c) = mset (stream_answers c (stream_of c (s_recvs s @ evs)))" if "c \<in> C" for c
  proof -
    have "reachable (server_step can_alloc) (keeps_client c) (server_start sfd efd) s"
      using assms(1) by (rule reachable_mono) (use that in blast)
    moreover have "reachable (server_step can_alloc) (keeps_client c) s s'"
      using s'(1) undisturbed_client(1) by (rule reachable_mono)
    ultimately have "reachable (server_step can_alloc) (keeps_client c) (server_start sfd efd) s'"
      by (blast intro: reachable_trans)
    from all_answered [OF this assms(4-6) _ s'(3)] s'(2,4) that assms(7) show ?thesis by simp
  qed
  with s'(1-3) show ?thesis by blast
qed

theorem server_can_answer_witness:
  "\<exists>s. settled s \<and> s_recvs s = two_requests \<and> mset (handed (s_net s) 7) =
    {# \<lparr>sd_clientId = 7, sd_databuf = response_bytes 2 EAC_API2 (api_data 66), sd_len = 1044\<rparr> #}"
proof -
  have g: "grants small_alloc 1044" by (simp add: grants_def small_alloc_def memory_limit_def)
  obtain s where s: "leads small_alloc (server_start 3 4) s" "can_serve 0 s"
    using server_started_up [OF g] by blast
  have "reachable (server_step small_alloc) undisturbed (server_start 3 4) s"
    using s(1) by (rule leads_undisturbed)
  then have r: "reachable (server_step small_alloc) (\<lambda>l. \<forall>c \<in> {7}. keeps_client c l) (server_start 3 4) s"
    by (rule reachable_mono) (simp add: undisturbed_client)
  have i: "0 < length (thr (s_pool s))" "serves (thr (s_pool s) ! 0)" using s(2) by (simp_all add: can_serve_def)
  have k: "s_recvs s = []" using s(1) by (simp add: leads_def same_input_def server_start_def)
  have "1044 \<le> memory_limit" and "\<forall>e \<in> set two_requests. fst e \<noteq> 3"
    by (simp_all add: memory_limit_def two_requests_def)
  with server_can_answer [OF r i small_alloc_facts(2) _ small_alloc_facts(3), of two_requests]
  show ?thesis using k two_requests_ok two_requests_answers by auto
qed



text \<open>C31: Bytes of a client that has gone are taken for bytes of the next one: the listen thread clears the queue
  of a client that hangs up, but not \<open>m_recvList\<close>. If twelve bytes are missing of its last message when it
  goes, the next client on this descriptor stops the server with a well-formed request without data: the
  call of \<open>onRecv\<close> for it never returns.\<close>

theorem stale_bytes_hang:
  assumes "server_step can_alloc s (S_Net (N_Hup c)) s'" and "holds (s_ctrl s) c p" and "p \<noteq> []"
    and "frame_len p = length p + 12" and "length p + 16 < 2 ^ 32" and "can_alloc 0"
  shows "onRecv can_alloc hand_over c (recv_buffer (request_bytes m api [])) 16 (s_ctrl s') = None"
proof (rule ccontr)
  let ?req = "request_bytes m api []" and ?q = "replicate (SOCKET_RECV_BUFFER_LEN - 16) 0"
  have ctrl: "s_ctrl s' = s_ctrl s" using assms(1) by (cases rule: server_step.cases) simp_all
  obtain d where d: "m_recvList (s_ctrl s) c = Some d" "pending_entry c p d"
    using assms(2,3) by (auto simp: holds_def split: option.splits)
  have len: "length ?req = 16" by (simp add: request_bytes_def)
  then have u: "unat (16 :: u32) = length ?req" by simp
  have sub: "m_len d - m_curLen d = 12"
    using d(2) assms(4) by (intro word_unat_eq_iff [THEN iffD2]) (simp add: pending_entry_def unat32_sub)
  have small: "length p + length ?req < 2 ^ 32" and le: "frame_len p \<le> length p + length ?req"
    and more: "frame_len p < length p + length ?req"
    unfolding len using assms(4,5) by simp_all
  have rest: "drop (frame_len p - length p) ?req @ ?q = le32 0 @ ?q"
    unfolding assms(4) by (simp add: request_bytes_def)
  assume "onRecv can_alloc hand_over c (recv_buffer ?req) 16 (s_ctrl s') \<noteq> None"
  then obtain y where "makeNewTask can_alloc hand_over c (?req @ ?q) 16 (s_ctrl s) = Some y"
    by (auto simp: onRecv_def ctrl recv_buffer_def len)
  then obtain d' where "makeNewTask can_alloc hand_over c (le32 0 @ ?q) (16 - 12)
      (s_ctrl s\<lparr>m_pool := hand_over d' (m_pool (s_ctrl s)), m_recvList := (m_recvList (s_ctrl s))(c := None)\<rparr>) = Some y"
    using makeNewTask_complete [OF d u le small, of can_alloc hand_over ?q] more
    by (auto simp only: Let_def rest sub if_True)
  then show False by (rule makeNewTask_zero) (use assms(6) in simp_all)
qed

text \<open>The client before has sent the first 8 of 20 bytes.\<close>

theorem stale_bytes_hang_witness:
  "\<exists>s. reachable (server_step small_alloc) (\<lambda>_. True) (server_start 3 4) s \<and> s_recvs s = [(5, [20, 0, 0, 0, 7, 0, 0, 0])] \<and>
    onRecv small_alloc hand_over 5 (recv_buffer (request_bytes 1 EAC_API1 [])) 16 (s_ctrl s) = None"
proof -
  let ?p = "[20, 0, 0, 0, 7, 0, 0, 0] :: byte list"
  have cut: "split_frames ?p = Some ([], ?p)" and fl: "frame_len ?p = 20" by code_simp+
  have ok: "streams_ok memory_limit [(5, ?p)]"
  proof (rule streams_ok_mono)
    have "cut_ok 20 (stream_of 5 (take n [(5, ?p)]))" if "n \<in> {..1}" for n
      using that cut fl by (cases n) (simp_all add: cut_ok_def bounded_by_def)
    then show "streams_ok 20 [(5, ?p)]"
      by (simp add: streams_ok_def recv_ok_def SOCKET_RECV_BUFFER_LEN_def)
  qed (simp add: memory_limit_def)
  have M: "1044 \<le> memory_limit" by (simp add: memory_limit_def)
  obtain s where s: "reachable (server_step small_alloc) undisturbed (server_start 3 4) s" "s_recvs s = [(5, ?p)]"
    using full_run [OF small_alloc_facts(2) M small_alloc_facts(3) ok, of 3 "{5}" 4] by auto
  have r: "reachable (server_step small_alloc) (\<lambda>_. True) (server_start 3 4) s"
    using s(1) by (rule reachable_mono) simp
  have g: "grants small_alloc 1044" by (simp add: grants_def small_alloc_def memory_limit_def)
  have "made.tracks (s_recvs s) (s_ctrl s)"
    using server_tracks [OF server_reachable_inv [OF r g] small_alloc_facts(2,3)] ok s(2) by simp
  then have "holds (s_ctrl s) 5 (rest_of (stream_of 5 (s_recvs s)))" by (simp only: made.tracks_def)
  moreover have "rest_of (stream_of 5 (s_recvs s)) = ?p" using cut by (simp add: s(2) rest_of_def)
  ultimately have "holds (s_ctrl s) 5 ?p" by (simp only:)
  moreover have hup: "server_step small_alloc s (S_Net (N_Hup 5)) (s\<lparr>s_net := (s_net s)\<lparr>sock := erase_list 5 (sock (s_net s))\<rparr>\<rparr>)"
    using net_step.hup [of 5 "s_net s"] server_socket [OF r] by (intro server_step.net) simp_all
  moreover have "small_alloc 0" by (simp add: small_alloc_def)
  ultimately have "onRecv small_alloc hand_over 5 (recv_buffer (request_bytes 1 EAC_API1 [])) 16 (s_ctrl s) = None"
    using stale_bytes_hang [OF hup, of ?p 1 EAC_API1] fl by simp
  with reachable.step [OF r hup] s(2) show ?thesis
    by (intro exI [of _ "s\<lparr>s_net := (s_net s)\<lparr>sock := erase_list 5 (sock (s_net s))\<rparr>\<rparr>"]) simp
qed

end
