(* ===== verification/ProtocolThreads.thy ===== *)
theory ProtocolThreads
  imports Protocol
begin

section \<open>The protocol object shared by threads\<close>

text \<open>
  The client's fifty threads, like the server's workers, share the one \<open>protocol\<close> object. Here its
  accessors and the use of \<open>++m_msgId\<close> in \<open>makeAPIRequest\<close> are cut into their accesses to shared
  state, which interleave. \<open>m_mutex\<close> protects the bodies of \<open>getInstance\<close> and \<open>delInstance\<close>, but not the
  \<open>return m_instance\<close> after the unlock, and nothing protects the counter: the increment loads and stores
  it, and \<open>memcpy\<close> then reads it again.
\<close>

record shared =
  s_instance :: "nat option"
  s_msgId :: u32
  s_next :: nat
  s_mutex :: "nat option"

datatype ppc =
    P_Idle
  | P_Get_Lock | P_Get_Check | P_Get_New | P_Get_Unlock | P_Get_Return
  | P_Got "nat option"
  | P_Del_Lock | P_Del_Check | P_Del_Unlock
  | P_Inc_Load | P_Inc_Store u32 | P_Id_Copy
  | P_Has_Id u32

definition protocol_step :: "nat \<Rightarrow> ppc \<Rightarrow> shared \<Rightarrow> (ppc \<times> shared) option" where
  "protocol_step t q s =
     (case q of
        P_Get_Lock \<Rightarrow> if s_mutex s \<noteq> None then None else Some (P_Get_Check, s\<lparr>s_mutex := Some t\<rparr>)
      | P_Get_Check \<Rightarrow> Some (if s_instance s = None then P_Get_New else P_Get_Unlock, s)
      | P_Get_New \<Rightarrow> Some (P_Get_Unlock, s\<lparr>s_instance := Some (s_next s), s_next := Suc (s_next s)\<rparr>)
      | P_Get_Unlock \<Rightarrow> Some (P_Get_Return, s\<lparr>s_mutex := None\<rparr>)
      | P_Get_Return \<Rightarrow> Some (P_Got (s_instance s), s)
      | P_Del_Lock \<Rightarrow> if s_mutex s \<noteq> None then None else Some (P_Del_Check, s\<lparr>s_mutex := Some t\<rparr>)
      | P_Del_Check \<Rightarrow> Some (P_Del_Unlock, if s_instance s \<noteq> None then s\<lparr>s_instance := None\<rparr> else s)
      | P_Del_Unlock \<Rightarrow> Some (P_Idle, s\<lparr>s_mutex := None\<rparr>)
      | P_Inc_Load \<Rightarrow> Some (P_Inc_Store (s_msgId s), s)
      | P_Inc_Store m \<Rightarrow> Some (P_Id_Copy, s\<lparr>s_msgId := m + 1\<rparr>)
      | P_Id_Copy \<Rightarrow> Some (P_Has_Id (s_msgId s), s)
      | _ \<Rightarrow> None)"

record psys =
  shared_state :: shared
  pcs :: "nat \<Rightarrow> ppc"

datatype plabel = PL_Step nat | PL_Get nat | PL_Del nat | PL_Make nat

fun begins :: "plabel \<Rightarrow> ppc" where
  "begins (PL_Get t) = P_Get_Lock"
| "begins (PL_Del t) = P_Del_Lock"
| "begins (PL_Make t) = P_Inc_Load"
| "begins (PL_Step t) = P_Idle"

definition at_rest :: "ppc \<Rightarrow> bool" where
  "at_rest q \<longleftrightarrow> (case q of P_Idle \<Rightarrow> True | P_Got _ \<Rightarrow> True | P_Has_Id _ \<Rightarrow> True | _ \<Rightarrow> False)"

fun pfire :: "plabel \<Rightarrow> psys \<Rightarrow> psys option" where
  "pfire (PL_Step t) s =
     (case protocol_step t (pcs s t) (shared_state s) of
        None \<Rightarrow> None
      | Some (q, m) \<Rightarrow> Some (s\<lparr>shared_state := m, pcs := (pcs s)(t := q)\<rparr>))"
| "pfire (PL_Get t) s =
     (if at_rest (pcs s t) then Some (s\<lparr>pcs := (pcs s)(t := begins (PL_Get t))\<rparr>) else None)"
| "pfire (PL_Del t) s =
     (if at_rest (pcs s t) then Some (s\<lparr>pcs := (pcs s)(t := begins (PL_Del t))\<rparr>) else None)"
| "pfire (PL_Make t) s =
     (if at_rest (pcs s t) then Some (s\<lparr>pcs := (pcs s)(t := begins (PL_Make t))\<rparr>) else None)"

definition pstep :: "psys \<Rightarrow> plabel \<Rightarrow> psys \<Rightarrow> bool" where
  "pstep s l s' \<longleftrightarrow> pfire l s = Some s'"

fun pfire_all :: "plabel list \<Rightarrow> psys \<Rightarrow> psys option" where
  "pfire_all [] s = Some s"
| "pfire_all (l # ls) s = (case pfire l s of None \<Rightarrow> None | Some s' \<Rightarrow> pfire_all ls s')"

lemma pfire_all_reachable:
  "pfire_all ls s = Some s' \<Longrightarrow> list_all I ls \<Longrightarrow> reachable pstep I s0 s \<Longrightarrow> reachable pstep I s0 s'"
proof (induction ls arbitrary: s)
  case (Cons l ls)
  then show ?case by (auto simp: pstep_def intro: reachable.step split: option.splits)
qed simp

definition pstart :: psys where
  "pstart = \<lparr>shared_state = \<lparr>s_instance = None, s_msgId = 0, s_next = 0, s_mutex = None\<rparr>,
             pcs = (\<lambda>_. P_Idle)\<rparr>"

text \<open>One thread alone does what the sequential definitions say.\<close>

lemma alone:
  assumes "s_mutex m = None"
  shows "pfire_all (PL_Get t # replicate (if s_instance m = None then 5 else 4) (PL_Step t))
      \<lparr>shared_state = m, pcs = (\<lambda>_. P_Idle)\<rparr> =
    (let (r, p) = getInstance \<lparr>m_instance = s_instance m, m_msgId = s_msgId m, next_obj = s_next m\<rparr>
     in Some \<lparr>shared_state = m\<lparr>s_instance := m_instance p, s_next := next_obj p\<rparr>,
              pcs = (\<lambda>_. P_Idle)(t := P_Got r)\<rparr>)"
  using assms
  by (cases m) (simp add: at_rest_def protocol_step_def getInstance_def Let_def numeral_eq_Suc)

lemma increment_alone:
  "pfire_all (PL_Make t # replicate 3 (PL_Step t)) \<lparr>shared_state = m, pcs = (\<lambda>_. P_Idle)\<rparr> =
    Some \<lparr>shared_state = m\<lparr>s_msgId := s_msgId m + 1\<rparr>, pcs = (\<lambda>_. P_Idle)(t := P_Has_Id (s_msgId m + 1))\<rparr>"
  by (cases m) (simp add: at_rest_def protocol_step_def numeral_eq_Suc)

subsection \<open>One object, as long as it is not deleted\<close>

definition no_del :: "plabel \<Rightarrow> bool" where
  "no_del l \<longleftrightarrow> (\<forall>t. l \<noteq> PL_Del t)"

fun in_lock :: "ppc \<Rightarrow> bool" where
  "in_lock P_Get_Check \<longleftrightarrow> True"
| "in_lock P_Get_New \<longleftrightarrow> True"
| "in_lock P_Get_Unlock \<longleftrightarrow> True"
| "in_lock _ \<longleftrightarrow> False"

fun pc_ok :: "nat option \<Rightarrow> ppc \<Rightarrow> bool" where
  "pc_ok inst P_Get_New \<longleftrightarrow> inst = None"
| "pc_ok inst P_Get_Unlock \<longleftrightarrow> inst = Some 0"
| "pc_ok inst P_Get_Return \<longleftrightarrow> inst = Some 0"
| "pc_ok inst (P_Got r) \<longleftrightarrow> r = Some 0 \<and> inst = Some 0"
| "pc_ok inst P_Del_Lock \<longleftrightarrow> False"
| "pc_ok inst P_Del_Check \<longleftrightarrow> False"
| "pc_ok inst P_Del_Unlock \<longleftrightarrow> False"
| "pc_ok inst _ \<longleftrightarrow> True"

definition single_inv :: "psys \<Rightarrow> bool" where
  "single_inv s \<longleftrightarrow>
     (\<forall>t. in_lock (pcs s t) \<longrightarrow> s_mutex (shared_state s) = Some t) \<and>
     (\<forall>t. pc_ok (s_instance (shared_state s)) (pcs s t)) \<and>
     (s_instance (shared_state s) = None \<and> s_next (shared_state s) = 0 \<or>
      s_instance (shared_state s) = Some 0 \<and> s_next (shared_state s) = 1)"

lemma single_step:
  assumes inv: "single_inv s" and step: "pstep s l s'" and l: "no_del l"
  shows "single_inv s'"
proof (cases l)
  case (PL_Step t)
  have lock: "\<And>u. in_lock (pcs s u) \<Longrightarrow> s_mutex (shared_state s) = Some u"
    and ok: "\<And>u. pc_ok (s_instance (shared_state s)) (pcs s u)"
    and inst: "s_instance (shared_state s) = None \<and> s_next (shared_state s) = 0 \<or>
      s_instance (shared_state s) = Some 0 \<and> s_next (shared_state s) = 1"
    using inv by (auto simp: single_inv_def)
  obtain q m where q: "protocol_step t (pcs s t) (shared_state s) = Some (q, m)"
    and s': "s' = s\<lparr>shared_state := m, pcs := (pcs s)(t := q)\<rparr>"
    using step PL_Step by (auto simp: pstep_def split: option.splits)
  have others: "\<not> in_lock (pcs s u)" if "in_lock (pcs s t)" "u \<noteq> t" for u
    using lock [of t] lock [of u] that by auto
  show ?thesis
  proof (cases "pcs s t = P_Get_New")
    case True
    have t: "in_lock (pcs s t)" "s_instance (shared_state s) = None" "s_next (shared_state s) = 0"
      using True inst ok [of t] by auto
    have new: "pc_ok (Some 0) (pcs s u)" if "u \<noteq> t" for u
      using ok [of u] others [OF t(1) that] t(2) by (cases "pcs s u") auto
    have "q = P_Get_Unlock" "m = (shared_state s)\<lparr>s_instance := Some 0, s_next := 1\<rparr>"
      using q True t by (simp_all add: protocol_step_def)
    then show ?thesis
      using s' new lock lock [OF t(1)] others [OF t(1)] by (auto simp: single_inv_def)
  next
    case False
    note cases = q ok [of t] False
    have same: "s_instance m = s_instance (shared_state s)" "s_next m = s_next (shared_state s)"
      using cases by (cases "pcs s t"; auto simp: protocol_step_def split: if_splits)+
    have "pc_ok (s_instance (shared_state s)) q"
      using cases inst by (cases "pcs s t") (auto simp: protocol_step_def split: if_splits)
    moreover have "in_lock q \<Longrightarrow> s_mutex m = Some t"
      using cases lock [of t] by (cases "pcs s t") (auto simp: protocol_step_def split: if_splits)
    moreover have "s_mutex m = Some u" if "in_lock (pcs s u)" "u \<noteq> t" for u
      using cases lock [OF that(1)] others [OF _ that(2)] that(1)
      by (cases "pcs s t") (auto simp: protocol_step_def split: if_splits)
    ultimately show ?thesis using s' ok inst same by (simp add: single_inv_def)
  qed
qed (use assms in \<open>auto simp: pstep_def no_del_def single_inv_def split: if_splits\<close>)

interpretation single: step_invariant pstep no_del single_inv
  by unfold_locales (rule single_step)

lemma single_start: "single_inv pstart"
  by (simp add: single_inv_def pstart_def)

text \<open>C30: As long as no thread deletes it, at most one \<open>protocol\<close> object is ever created, and every call of
  \<open>getInstance\<close>, however the threads interleave, returns it.\<close>

theorem one_instance:
  assumes "reachable pstep no_del pstart s"
  shows "s_next (shared_state s) \<le> 1 \<and> (\<forall>t r. pcs s t = P_Got r \<longrightarrow> r = Some 0 \<and> s_instance (shared_state s) = Some 0)"
proof -
  have inv: "single_inv s" using single.reachable_inv [OF assms single_start] .
  then have "s_next (shared_state s) \<le> 1" by (auto simp: single_inv_def)
  moreover have "r = Some 0 \<and> s_instance (shared_state s) = Some 0" if "pcs s t = P_Got r" for t r
    using inv that by (auto simp: single_inv_def dest!: spec [of _ t])
  ultimately show ?thesis by blast
qed

definition two_get :: "plabel list" where
  "two_get = [PL_Get 0, PL_Get 1, PL_Step 0, PL_Step 0, PL_Step 0, PL_Step 0, PL_Step 1, PL_Step 0, PL_Step 1,
     PL_Step 1, PL_Step 1]"

lemma one_instance_witness:
  "\<exists>s. pfire_all two_get pstart = Some s \<and> pcs s 0 = P_Got (Some 0) \<and> pcs s 1 = P_Got (Some 0) \<and>
     s_next (shared_state s) \<le> 1"
proof -
  obtain s where s: "pfire_all two_get pstart = Some s" "pcs s 0 = P_Got (Some 0)" "pcs s 1 = P_Got (Some 0)"
    by (simp add: two_get_def pstart_def at_rest_def protocol_step_def)
  have "list_all no_del two_get" by (simp add: two_get_def no_del_def)
  then have "reachable pstep no_del pstart s"
    using s(1) by (intro pfire_all_reachable [OF _ _ reachable.start])
  with one_instance [OF this] s show ?thesis by blast
qed

text \<open>With \<open>delInstance\<close>, a call of \<open>getInstance\<close> can return a null pointer.\<close>

lemma null_instance:
  "\<exists>s. reachable pstep (\<lambda>_. True) pstart s \<and> pcs s 0 = P_Got None"
proof -
  let ?ls = "PL_Get 0 # replicate 4 (PL_Step 0) @ PL_Del 1 # replicate 3 (PL_Step 1) @ [PL_Step 0]"
  obtain s where "pfire_all ?ls pstart = Some s" "pcs s 0 = P_Got None"
    by (simp add: pstart_def at_rest_def protocol_step_def numeral_eq_Suc)
  moreover have "list_all (\<lambda>_. True) ?ls" by (simp add: list_all_iff)
  ultimately show ?thesis by (blast intro: pfire_all_reachable [OF _ _ reachable.start])
qed

subsection \<open>Message numbers taken at the same time\<close>

text \<open>Two threads that build requests at the same time can take the same message number, in two ways: both
  load the counter before either stores it, or both increment it before either copies it.\<close>

theorem ids_collide:
  "\<exists>s s'. reachable pstep no_del pstart s \<and> pcs s 0 = P_Has_Id 1 \<and> pcs s 1 = P_Has_Id 1 \<and>
      s_msgId (shared_state s) = 1 \<and>
    reachable pstep no_del pstart s' \<and> pcs s' 0 = P_Has_Id 2 \<and> pcs s' 1 = P_Has_Id 2 \<and>
      s_msgId (shared_state s') = 2"
proof -
  let ?load = "[PL_Make 0, PL_Make 1, PL_Step 0, PL_Step 1, PL_Step 0, PL_Step 1, PL_Step 0, PL_Step 1]"
  let ?copy = "[PL_Make 0, PL_Make 1, PL_Step 0, PL_Step 0, PL_Step 1, PL_Step 1, PL_Step 0, PL_Step 1]"
  obtain s where s: "pfire_all ?load pstart = Some s" "pcs s 0 = P_Has_Id 1" "pcs s 1 = P_Has_Id 1"
      "s_msgId (shared_state s) = 1"
    by (simp add: pstart_def at_rest_def protocol_step_def)
  obtain s' where s': "pfire_all ?copy pstart = Some s'" "pcs s' 0 = P_Has_Id 2" "pcs s' 1 = P_Has_Id 2"
      "s_msgId (shared_state s') = 2"
    by (simp add: pstart_def at_rest_def protocol_step_def)
  have "list_all no_del ?load" "list_all no_del ?copy" by (simp_all add: no_del_def)
  with s s' show ?thesis by (blast intro: pfire_all_reachable [OF _ _ reachable.start])
qed

end
