(* ===== verification/LogMacros.thy ===== *)
theory LogMacros
  imports Logging "HOL-Library.Signed_Division"
begin

section \<open>The log statements: \<open>glog/logging.h\<close>, \<open>glog/vlog_is_on.h\<close>\<close>

text \<open>
  The macros of the logging library's headers, with the severities of this repository (the headers were
  changed to have a severity \<open>DETAIL\<close>). The arguments of a macro are expressions: functions of the state
  of the program, which may change it, so that the theorems say how often each one is evaluated. A
  statement either continues or ends the program. The library's own code is not in the repository:
  \<open>ends\<close> says after which severities the destructor of a \<open>LogMessage\<close> does not return, \<open>errno_text\<close>
  what the one of \<open>ErrnoLogMessage\<close> appends, and the messages are listed as they are given to the
  destructor. \<open>STRIP_LOG\<close> and the debug mode are compile-time settings, parameters here.
\<close>

subsection \<open>Log objects\<close>

datatype send_method =
    SendToLog
  | SendToSyslogAndLog
  | SendToSinkAndLog
  | SendToSink
  | WriteToStringAndLog
  | SaveOrSendToLog

datatype log_object =
    LogMessage LogSeverity int send_method
  | LogMessageFatal
  | ErrnoLogMessage LogSeverity int send_method
  | NullStream
  | NullStreamFatal

record entry =
  e_severity :: LogSeverity
  e_ctr :: int
  e_method :: send_method
  e_text :: string

type_synonym ('a, 's) expr = "'s \<Rightarrow> 'a \<times> 's"

datatype 's result =
    Continues 's "entry list"
  | Terminates 's "entry list"

record library =
  ends :: "LogSeverity \<Rightarrow> bool"
  errno_text :: string

text \<open>\<open>object.stream() << text;\<close> with the destructor of the object at the end of the statement.\<close>

definition log_to :: "library \<Rightarrow> log_object \<Rightarrow> (string, 's) expr \<Rightarrow> 's \<Rightarrow> entry list \<Rightarrow> 's result" where
  "log_to lib obj text s es =
     (let (t, s') = text s;
          after = (\<lambda>sev c m u.
            let es' = es @ [\<lparr>e_severity = sev, e_ctr = c, e_method = m, e_text = u\<rparr>]
            in if ends lib sev then Terminates s' es' else Continues s' es')
      in case obj of
           LogMessage sev c m \<Rightarrow> after sev c m t
         | ErrnoLogMessage sev c m \<Rightarrow> after sev c m (t @ errno_text lib)
         | LogMessageFatal \<Rightarrow>
             Terminates s' (es @ [\<lparr>e_severity = GLOG_FATAL, e_ctr = 0, e_method = SendToLog, e_text = t\<rparr>])
         | NullStream \<Rightarrow> Continues s' es
         | NullStreamFatal \<Rightarrow> Terminates s' es)"

text \<open>
  The constructors that imply some of the three values, as the header documents them: for \<open>INFO\<close>, for another
  severity, for a sink, for a vector of strings and for a string. The pointers they take are not null.
\<close>

definition LogMessage_info :: log_object where
  [simp]: "LogMessage_info = LogMessage GLOG_INFO 0 SendToLog"

definition LogMessage_severity :: "LogSeverity \<Rightarrow> log_object" where
  [simp]: "LogMessage_severity sev = LogMessage sev 0 SendToLog"

definition LogMessage_sink :: "LogSeverity \<Rightarrow> bool \<Rightarrow> log_object" where
  [simp]: "LogMessage_sink sev also_send_to_log =
     LogMessage sev 0 (if also_send_to_log then SendToSinkAndLog else SendToSink)"

definition LogMessage_outvec :: "LogSeverity \<Rightarrow> log_object" where
  [simp]: "LogMessage_outvec sev = LogMessage sev 0 SaveOrSendToLog"

definition LogMessage_string :: "LogSeverity \<Rightarrow> log_object" where
  [simp]: "LogMessage_string sev = LogMessage sev 0 WriteToStringAndLog"

subsection \<open>\<open>LOG\<close>, \<open>SYSLOG\<close> and \<open>SECLOG\<close>\<close>

text \<open>The names that \<open>LOG\<close> accepts: there is no \<open>COMPACT_GOOGLE_LOG_DETAIL\<close>.\<close>

datatype log_name = L_INFO | L_WARNING | L_ERROR | L_FATAL | L_DFATAL

definition DCHECK_IS_ON :: "bool \<Rightarrow> bool \<Rightarrow> bool" where
  "DCHECK_IS_ON ndebug always_on = (if ndebug \<and> \<not> always_on then False else True)"

definition COMPACT_GOOGLE_LOG_ERROR :: "nat \<Rightarrow> log_object" where
  "COMPACT_GOOGLE_LOG_ERROR strip =
     (if strip \<le> 2 then LogMessage_severity GLOG_ERROR else NullStream)"

fun COMPACT_GOOGLE_LOG :: "nat \<Rightarrow> bool \<Rightarrow> log_name \<Rightarrow> log_object" where
  "COMPACT_GOOGLE_LOG strip dcheck L_INFO =
     (if strip = 0 then LogMessage_info else NullStream)"
| "COMPACT_GOOGLE_LOG strip dcheck L_WARNING =
     (if strip \<le> 1 then LogMessage_severity GLOG_WARNING else NullStream)"
| "COMPACT_GOOGLE_LOG strip dcheck L_ERROR = COMPACT_GOOGLE_LOG_ERROR strip"
| "COMPACT_GOOGLE_LOG strip dcheck L_FATAL =
     (if strip \<le> 3 then LogMessageFatal else NullStreamFatal)"
| "COMPACT_GOOGLE_LOG strip dcheck L_DFATAL =
     (if \<not> dcheck then COMPACT_GOOGLE_LOG_ERROR strip
      else if strip \<le> 3 then LogMessage_severity GLOG_FATAL else NullStreamFatal)"

text \<open>
  \<open>DFATAL_LEVEL\<close> expands to \<open>INFO\<close> in debug mode and to the undeclared name \<open>WRANING\<close> otherwise: the
  statements that use it do not compile then (\<open>None\<close>).
\<close>

definition DFATAL_LEVEL :: "bool \<Rightarrow> LogSeverity option" where
  "DFATAL_LEVEL ndebug = (if ndebug then None else Some GLOG_INFO)"

fun log_level :: "bool \<Rightarrow> log_name \<Rightarrow> LogSeverity option" where
  "log_level ndebug L_INFO = Some GLOG_INFO"
| "log_level ndebug L_WARNING = Some GLOG_WARNING"
| "log_level ndebug L_ERROR = Some GLOG_ERROR"
| "log_level ndebug L_FATAL = Some GLOG_FATAL"
| "log_level ndebug L_DFATAL = DFATAL_LEVEL ndebug"

definition GOOGLE_LOG :: "bool \<Rightarrow> log_name \<Rightarrow> int \<Rightarrow> log_object option" where
  "GOOGLE_LOG ndebug n counter =
     map_option (\<lambda>sev. LogMessage sev counter SendToLog) (log_level ndebug n)"

definition SYSLOG :: "bool \<Rightarrow> log_name \<Rightarrow> log_object option" where
  "SYSLOG ndebug n = map_option (\<lambda>sev. LogMessage sev 0 SendToSyslogAndLog) (log_level ndebug n)"

definition LOG :: "library \<Rightarrow> nat \<Rightarrow> bool \<Rightarrow> log_name \<Rightarrow> (string, 's) expr \<Rightarrow> 's \<Rightarrow> entry list \<Rightarrow> 's result" where
  "LOG lib strip dcheck n = log_to lib (COMPACT_GOOGLE_LOG strip dcheck n)"

text \<open>
  The variants of \<open>LOG\<close> that also give the message to a sink, a string or a vector of strings: the object
  is made by the constructor that implies the method. There is none for \<open>DFATAL\<close>. A fatal message to a
  string is an ordinary \<open>LogMessage\<close>.
\<close>

fun LOG_TO_STRING_name :: "nat \<Rightarrow> (LogSeverity \<Rightarrow> log_object) \<Rightarrow> log_name \<Rightarrow> log_object option" where
  "LOG_TO_STRING_name strip message L_INFO =
     Some (if strip = 0 then message GLOG_INFO else NullStream)"
| "LOG_TO_STRING_name strip message L_WARNING =
     Some (if strip \<le> 1 then message GLOG_WARNING else NullStream)"
| "LOG_TO_STRING_name strip message L_ERROR =
     Some (if strip \<le> 2 then message GLOG_ERROR else NullStream)"
| "LOG_TO_STRING_name strip message L_FATAL =
     Some (if strip \<le> 3 then message GLOG_FATAL else NullStreamFatal)"
| "LOG_TO_STRING_name strip message L_DFATAL = None"

definition LOG_TO_STRING :: "nat \<Rightarrow> log_name \<Rightarrow> log_object option" where
  "LOG_TO_STRING strip = LOG_TO_STRING_name strip LogMessage_string"

definition LOG_STRING :: "nat \<Rightarrow> log_name \<Rightarrow> log_object option" where
  "LOG_STRING strip = LOG_TO_STRING_name strip LogMessage_outvec"

definition LOG_TO_SINK :: "LogSeverity \<Rightarrow> log_object" where
  "LOG_TO_SINK sev = LogMessage_sink sev True"

definition LOG_TO_SINK_BUT_NOT_TO_LOGFILE :: "LogSeverity \<Rightarrow> log_object" where
  "LOG_TO_SINK_BUT_NOT_TO_LOGFILE sev = LogMessage_sink sev False"

definition PLOG :: "library \<Rightarrow> LogSeverity \<Rightarrow> (string, 's) expr \<Rightarrow> 's \<Rightarrow> entry list \<Rightarrow> 's result" where
  "PLOG lib sev = log_to lib (ErrnoLogMessage sev 0 SendToLog)"

text \<open>The macro of the program: \<open>SECLOG(severity)\<close> does not depend on \<open>STRIP_LOG\<close>.\<close>

definition SECLOG :: "library \<Rightarrow> SDKLOGLEVEL \<Rightarrow> (string, 's) expr \<Rightarrow> 's \<Rightarrow> entry list \<Rightarrow> 's result" where
  "SECLOG lib l = log_to lib (LogMessage_severity (severity l))"

definition LogAtLevel :: "library \<Rightarrow> LogSeverity \<Rightarrow> string \<Rightarrow> 's \<Rightarrow> entry list \<Rightarrow> 's result" where
  "LogAtLevel lib sev msg = log_to lib (LogMessage_severity sev) (Pair msg)"

definition LOG_AT_LEVEL :: "LogSeverity \<Rightarrow> log_object" where
  "LOG_AT_LEVEL sev = LogMessage_severity sev"

text \<open>
  Messages with a severity \<^emph>\<open>less\<close> than \<open>STRIP_LOG\<close> are documented to be left out. The inserted
  severity \<open>DETAIL\<close> has moved \<open>ERROR\<close> and \<open>FATAL\<close> up, but not the tests: at 3 the errors, at 4 the
  fatal messages are left out too.
\<close>

lemma strip_levels:
  "COMPACT_GOOGLE_LOG strip dcheck L_INFO = NullStream \<longleftrightarrow> GLOG_INFO < int strip"
  "COMPACT_GOOGLE_LOG strip dcheck L_WARNING = NullStream \<longleftrightarrow> GLOG_WARNING < int strip"
  "COMPACT_GOOGLE_LOG strip dcheck L_ERROR = NullStream \<longleftrightarrow> GLOG_ERROR \<le> int strip"
  "COMPACT_GOOGLE_LOG strip dcheck L_FATAL = NullStreamFatal \<longleftrightarrow> GLOG_FATAL \<le> int strip"
  by (auto simp: severities COMPACT_GOOGLE_LOG_ERROR_def)

text \<open>The macros for strings, vectors and sinks give the message to the logs as well, but for the last.\<close>

lemma LOG_TO_methods:
  "LOG_TO_STRING 0 n = map_option (\<lambda>sev. LogMessage sev 0 WriteToStringAndLog) (if n = L_DFATAL then None else log_level False n)"
  "LOG_STRING 0 n = map_option (\<lambda>sev. LogMessage sev 0 SaveOrSendToLog) (if n = L_DFATAL then None else log_level False n)"
  by (cases n; simp add: LOG_TO_STRING_def LOG_STRING_def)+

lemma log_names:
  "log_level ndebug n = Some sev \<Longrightarrow> n \<noteq> L_DFATAL \<Longrightarrow> sev \<noteq> GLOG_DETAIL \<and> 0 \<le> sev \<and> sev < NUM_SEVERITIES"
  by (cases n) (auto simp: severities)

text \<open>
  A \<open>LOG(FATAL)\<close> never continues, whatever is left out at compile time. \<open>LOG(DFATAL)\<close> does not
  continue in debug mode, if the library ends the program after \<open>FATAL\<close>; but \<open>SYSLOG(DFATAL)\<close> is an
  information in debug mode, and does not exist otherwise.
\<close>

lemma LOG_FATAL_ends: "\<exists>s' es'. LOG lib strip dcheck L_FATAL text s es = Terminates s' es'"
  by (simp add: LOG_def log_to_def split_beta Let_def)

lemma LOG_DFATAL_ends:
  "ends lib GLOG_FATAL \<Longrightarrow> \<exists>s' es'. LOG lib strip True L_DFATAL text s es = Terminates s' es'"
  by (simp add: LOG_def log_to_def split_beta Let_def)

lemma SYSLOG_DFATAL:
  "SYSLOG ndebug L_DFATAL = (if ndebug then None else SYSLOG ndebug L_INFO)"
  by (simp add: SYSLOG_def DFATAL_LEVEL_def)

lemma SECLOG_continues:
  "\<not> ends lib (severity l) \<Longrightarrow>
   SECLOG lib l text s es =
     Continues (snd (text s))
       (es @ [\<lparr>e_severity = severity l, e_ctr = 0, e_method = SendToLog, e_text = fst (text s)\<rparr>])"
  by (simp add: SECLOG_def log_to_def split_beta)

subsection \<open>Conditional statements and checks\<close>

definition LOG_IF :: "library \<Rightarrow> log_object \<Rightarrow> (bool, 's) expr \<Rightarrow> (string, 's) expr \<Rightarrow> 's \<Rightarrow> entry list \<Rightarrow> 's result" where
  "LOG_IF lib obj cond text s es =
     (let (b, s') = cond s in if \<not> b then Continues s' es else log_to lib obj text s' es)"

definition SYSLOG_IF ::
  "library \<Rightarrow> bool \<Rightarrow> log_name \<Rightarrow> (bool, 's) expr \<Rightarrow> (string, 's) expr \<Rightarrow> 's \<Rightarrow> entry list \<Rightarrow> 's result option" where
  "SYSLOG_IF lib ndebug n cond text s es =
     map_option (\<lambda>obj. LOG_IF lib obj cond text s es) (SYSLOG ndebug n)"

definition PLOG_IF ::
  "library \<Rightarrow> LogSeverity \<Rightarrow> (bool, 's) expr \<Rightarrow> (string, 's) expr \<Rightarrow> 's \<Rightarrow> entry list \<Rightarrow> 's result" where
  "PLOG_IF lib sev = LOG_IF lib (ErrnoLogMessage sev 0 SendToLog)"

definition not_expr :: "(bool, 's) expr \<Rightarrow> (bool, 's) expr" where
  "not_expr cond s = (let (b, s') = cond s in (\<not> b, s'))"

definition prefixed :: "string \<Rightarrow> (string, 's) expr \<Rightarrow> (string, 's) expr" where
  "prefixed p text s = (let (t, s') = text s in (p @ t, s'))"

definition CHECK :: "library \<Rightarrow> nat \<Rightarrow> string \<Rightarrow> (bool, 's) expr \<Rightarrow> (string, 's) expr \<Rightarrow> 's \<Rightarrow> entry list \<Rightarrow> 's result" where
  "CHECK lib strip shown cond text =
     LOG_IF lib (COMPACT_GOOGLE_LOG strip True L_FATAL) (not_expr cond)
       (prefixed (''Check failed: '' @ shown @ '' '') text)"

definition LOG_ASSERT :: "library \<Rightarrow> nat \<Rightarrow> string \<Rightarrow> (bool, 's) expr \<Rightarrow> (string, 's) expr \<Rightarrow> 's \<Rightarrow> entry list \<Rightarrow> 's result" where
  "LOG_ASSERT lib strip shown cond text =
     LOG_IF lib (COMPACT_GOOGLE_LOG strip True L_FATAL) (not_expr cond)
       (prefixed (''Assert failed: '' @ shown) text)"

definition SYSLOG_ASSERT ::
  "library \<Rightarrow> bool \<Rightarrow> string \<Rightarrow> (bool, 's) expr \<Rightarrow> (string, 's) expr \<Rightarrow> 's \<Rightarrow> entry list \<Rightarrow> 's result option" where
  "SYSLOG_ASSERT lib ndebug shown cond text =
     SYSLOG_IF lib ndebug L_FATAL (not_expr cond) (prefixed (''Assert failed: '' @ shown) text)"

definition PCHECK :: "library \<Rightarrow> string \<Rightarrow> (bool, 's) expr \<Rightarrow> (string, 's) expr \<Rightarrow> 's \<Rightarrow> entry list \<Rightarrow> 's result" where
  "PCHECK lib shown cond text =
     PLOG_IF lib GLOG_FATAL (not_expr cond)
       (prefixed (''Check failed: '' @ shown @ '' '') text)"

definition CHECK_INDEX :: "library \<Rightarrow> nat \<Rightarrow> string \<Rightarrow> (int, 's) expr \<Rightarrow> int \<Rightarrow> (string, 's) expr \<Rightarrow> 's \<Rightarrow> entry list \<Rightarrow> 's result" where
  "CHECK_INDEX lib strip shown i len =
     CHECK lib strip shown (\<lambda>s. let (v, s') = i s in (v mod 2 ^ 64 < len, s'))"

definition CHECK_BOUND :: "library \<Rightarrow> nat \<Rightarrow> string \<Rightarrow> (int, 's) expr \<Rightarrow> int \<Rightarrow> (string, 's) expr \<Rightarrow> 's \<Rightarrow> entry list \<Rightarrow> 's result" where
  "CHECK_BOUND lib strip shown b len =
     CHECK lib strip shown (\<lambda>s. let (v, s') = b s in (v mod 2 ^ 64 \<le> len, s'))"

definition CHECK_ERR :: "library \<Rightarrow> string \<Rightarrow> (int, 's) expr \<Rightarrow> (string, 's) expr \<Rightarrow> 's \<Rightarrow> entry list \<Rightarrow> 's result" where
  "CHECK_ERR lib shown invocation text =
     PLOG_IF lib GLOG_FATAL
       (\<lambda>s. let (r, s') = invocation s in (r = - 1, s')) (prefixed shown text)"

text \<open>The debug variants: outside debug mode neither condition nor message is evaluated.\<close>

definition DLOG :: "bool \<Rightarrow> library \<Rightarrow> nat \<Rightarrow> log_name \<Rightarrow> (string, 's) expr \<Rightarrow> 's \<Rightarrow> entry list \<Rightarrow> 's result" where
  "DLOG dcheck lib strip n text s es =
     (if dcheck then LOG lib strip dcheck n text s es else Continues s es)"

definition DLOG_ASSERT :: "bool \<Rightarrow> library \<Rightarrow> nat \<Rightarrow> string \<Rightarrow> (bool, 's) expr \<Rightarrow> (string, 's) expr \<Rightarrow> 's \<Rightarrow> entry list \<Rightarrow> 's result" where
  "DLOG_ASSERT dcheck lib strip shown cond text s es =
     (if dcheck then LOG_ASSERT lib strip shown cond text s es else Continues s es)"

definition DLOG_IF :: "bool \<Rightarrow> library \<Rightarrow> log_object \<Rightarrow> (bool, 's) expr \<Rightarrow> (string, 's) expr \<Rightarrow> 's \<Rightarrow> entry list \<Rightarrow> 's result" where
  "DLOG_IF dcheck lib obj cond text s es =
     (if dcheck then LOG_IF lib obj cond text s es else Continues s es)"

definition DCHECK :: "bool \<Rightarrow> library \<Rightarrow> nat \<Rightarrow> string \<Rightarrow> (bool, 's) expr \<Rightarrow> (string, 's) expr \<Rightarrow> 's \<Rightarrow> entry list \<Rightarrow> 's result" where
  "DCHECK dcheck lib strip shown cond text s es =
     (if dcheck then CHECK lib strip shown cond text s es else Continues s es)"

text \<open>
  The condition of a check is evaluated once, its message only if it fails, and then the program ends;
  a fatal message is lost when it is stripped.
\<close>

lemma CHECK_result:
  "CHECK lib strip shown cond text s es =
     (let (b, s1) = cond s; (t, s2) = text s1 in
      if b then Continues s1 es
      else Terminates s2
        (if strip \<le> 3 then es @ [\<lparr>e_severity = GLOG_FATAL, e_ctr = 0, e_method = SendToLog,
           e_text = ''Check failed: '' @ shown @ '' '' @ t\<rparr>] else es))"
  by (simp add: CHECK_def LOG_IF_def not_expr_def prefixed_def log_to_def split_beta Let_def)

lemma DCHECK_off: "DCHECK (DCHECK_IS_ON True False) lib strip shown cond text s es = Continues s es"
  by (simp add: DCHECK_def DCHECK_IS_ON_def)

lemma DCHECK_on:
  "\<not> ndebug \<or> always_on \<Longrightarrow>
   DCHECK (DCHECK_IS_ON ndebug always_on) lib strip shown cond text s es =
     CHECK lib strip shown cond text s es"
  by (auto simp: DCHECK_def DCHECK_IS_ON_def)

subsection \<open>Comparisons: \<open>CHECK_EQ\<close> and its kin\<close>

text \<open>
  A comparison is a \<open>while\<close> loop whose condition is the message of the failed comparison, if any, and
  whose body is a fatal log statement. The order in which C++ evaluates the two values is unspecified;
  here the first one comes first. \<open>show\<close> is the text \<open>MakeCheckOpString\<close> builds from the two values (it is
  modelled in the theory \<open>LogChecks\<close>). With \<open>STRIP_LOG\<close> above 3 the macro names \<open>NullStreamFatal\<close>, which
  has no constructor for the four arguments it is given: the statement does not compile then, and the
  properties are stated for levels up to 3.
\<close>

text \<open>The pointer to the message, which converts to \<open>true\<close> if it is not null, that is, if the check has failed.\<close>

type_synonym CheckOpString = "string option"

definition operator_bool :: "CheckOpString \<Rightarrow> bool" where
  "operator_bool result \<longleftrightarrow> result \<noteq> None"

partial_function (option) while_failed ::
  "(CheckOpString, 's) expr \<Rightarrow> (string \<Rightarrow> 's \<Rightarrow> entry list \<Rightarrow> 's result) \<Rightarrow> 's \<Rightarrow> entry list \<Rightarrow> 's result option" where
  "while_failed test body s es =
     (case test s of (result, s1) \<Rightarrow>
        if operator_bool result then
          (case body (the result) s1 es of
             Continues s2 es2 \<Rightarrow> while_failed test body s2 es2
           | Terminates s2 es2 \<Rightarrow> Some (Terminates s2 es2))
        else Some (Continues s1 es))"

definition Check_Impl ::
  "('a \<Rightarrow> 'b \<Rightarrow> bool) \<Rightarrow> ('a \<Rightarrow> 'b \<Rightarrow> string \<Rightarrow> string) \<Rightarrow> 'a \<Rightarrow> 'b \<Rightarrow> string \<Rightarrow> CheckOpString" where
  "Check_Impl cmp show v1 v2 exprtext = (if cmp v1 v2 then None else Some (show v1 v2 exprtext))"

text \<open>The overloads for the integral types differ from the template only in that they copy the value.\<close>

definition GetReferenceableValue :: "'a \<Rightarrow> 'a" where
  "GetReferenceableValue t = t"

definition CHECK_OP ::
  "library \<Rightarrow> nat \<Rightarrow> ('a \<Rightarrow> 'b \<Rightarrow> bool) \<Rightarrow> ('a \<Rightarrow> 'b \<Rightarrow> string \<Rightarrow> string) \<Rightarrow> string
   \<Rightarrow> ('a, 's) expr \<Rightarrow> ('b, 's) expr \<Rightarrow> (string, 's) expr \<Rightarrow> 's \<Rightarrow> entry list \<Rightarrow> 's result option" where
  "CHECK_OP lib strip cmp show exprtext val1 val2 text =
     while_failed
       (\<lambda>s. let (v1, s1) = val1 s; (v2, s2) = val2 s1
            in (Check_Impl cmp show (GetReferenceableValue v1) (GetReferenceableValue v2) exprtext, s2))
       (\<lambda>r. log_to lib (if strip \<le> 3 then LogMessageFatal else NullStreamFatal) (prefixed r text))"

type_synonym ('a, 's) check =
  "('a \<Rightarrow> 'a \<Rightarrow> string \<Rightarrow> string) \<Rightarrow> string \<Rightarrow> ('a, 's) expr \<Rightarrow> ('a, 's) expr \<Rightarrow> (string, 's) expr
   \<Rightarrow> 's \<Rightarrow> entry list \<Rightarrow> 's result option"

definition DCHECK_OP ::
  "bool \<Rightarrow> library \<Rightarrow> nat \<Rightarrow> ('a \<Rightarrow> 'b \<Rightarrow> bool) \<Rightarrow> ('a \<Rightarrow> 'b \<Rightarrow> string \<Rightarrow> string) \<Rightarrow> string
   \<Rightarrow> ('a, 's) expr \<Rightarrow> ('b, 's) expr \<Rightarrow> (string, 's) expr \<Rightarrow> 's \<Rightarrow> entry list \<Rightarrow> 's result option" where
  "DCHECK_OP dcheck lib strip cmp show exprtext val1 val2 text s es =
     (if dcheck then CHECK_OP lib strip cmp show exprtext val1 val2 text s es else Some (Continues s es))"

definition CHECK_EQ :: "library \<Rightarrow> nat \<Rightarrow> ('a, 's) check" where
  "CHECK_EQ lib strip = CHECK_OP lib strip (=)"

definition CHECK_NE :: "library \<Rightarrow> nat \<Rightarrow> ('a, 's) check" where
  "CHECK_NE lib strip = CHECK_OP lib strip (\<noteq>)"

definition CHECK_LE :: "library \<Rightarrow> nat \<Rightarrow> ('a::ord, 's) check" where
  "CHECK_LE lib strip = CHECK_OP lib strip (\<le>)"

definition CHECK_LT :: "library \<Rightarrow> nat \<Rightarrow> ('a::ord, 's) check" where
  "CHECK_LT lib strip = CHECK_OP lib strip (<)"

definition CHECK_GE :: "library \<Rightarrow> nat \<Rightarrow> ('a::ord, 's) check" where
  "CHECK_GE lib strip = CHECK_OP lib strip (\<ge>)"

definition CHECK_GT :: "library \<Rightarrow> nat \<Rightarrow> ('a::ord, 's) check" where
  "CHECK_GT lib strip = CHECK_OP lib strip (>)"

text \<open>
  \<open>CHECK_NEAR\<close>: two checks one after the other. Its three arguments are evaluated twice. The rounding of
  the sums is that of the type of the values.
\<close>

definition both :: "('a \<Rightarrow> 'b \<Rightarrow> 'c) \<Rightarrow> ('a, 's) expr \<Rightarrow> ('b, 's) expr \<Rightarrow> ('c, 's) expr" where
  "both f e1 e2 s = (let (v1, s1) = e1 s; (v2, s2) = e2 s1 in (f v1 v2, s2))"

definition CHECK_NEAR ::
  "library \<Rightarrow> nat \<Rightarrow> ('a::{ord,plus,minus} \<Rightarrow> 'a \<Rightarrow> string \<Rightarrow> string) \<Rightarrow> string \<Rightarrow> string
   \<Rightarrow> ('a, 's) expr \<Rightarrow> ('a, 's) expr \<Rightarrow> ('a, 's) expr \<Rightarrow> 's \<Rightarrow> entry list \<Rightarrow> 's result option" where
  "CHECK_NEAR lib strip show le_text ge_text val1 val2 margin s es =
     (case CHECK_LE lib strip show le_text val1 (both (+) val2 margin) (Pair '''') s es of
        Some (Continues s1 es1) \<Rightarrow>
          CHECK_GE lib strip show ge_text val1 (both (-) val2 margin) (Pair '''') s1 es1
      | r \<Rightarrow> r)"

text \<open>String comparisons: \<open>impl\<close> is the library's function that compares, \<open>None\<close> if it is satisfied.\<close>

definition CHECK_STROP ::
  "library \<Rightarrow> nat \<Rightarrow> (string \<Rightarrow> string \<Rightarrow> string \<Rightarrow> string option) \<Rightarrow> string
   \<Rightarrow> (string, 's) expr \<Rightarrow> (string, 's) expr \<Rightarrow> (string, 's) expr \<Rightarrow> 's \<Rightarrow> entry list \<Rightarrow> 's result option" where
  "CHECK_STROP lib strip impl names s1 s2 text =
     while_failed (\<lambda>s. let (a, t1) = s1 s; (b, t2) = s2 t1 in (impl a b names, t2))
       (\<lambda>r. log_to lib (COMPACT_GOOGLE_LOG strip True L_FATAL) (prefixed r text))"

definition DCHECK_STROP ::
  "bool \<Rightarrow> library \<Rightarrow> nat \<Rightarrow> (string \<Rightarrow> string \<Rightarrow> string \<Rightarrow> string option) \<Rightarrow> string
   \<Rightarrow> (string, 's) expr \<Rightarrow> (string, 's) expr \<Rightarrow> (string, 's) expr \<Rightarrow> 's \<Rightarrow> entry list \<Rightarrow> 's result option" where
  "DCHECK_STROP dcheck lib strip impl names s1 s2 text s es =
     (if dcheck then CHECK_STROP lib strip impl names s1 s2 text s es else Some (Continues s es))"

text \<open>\<open>CHECK_NOTNULL\<close> ends the program for a null pointer and returns any other one.\<close>

definition CheckNotNull :: "library \<Rightarrow> string \<Rightarrow> 'p option \<Rightarrow> 's \<Rightarrow> entry list \<Rightarrow> 'p option \<times> 's result" where
  "CheckNotNull lib names t s es =
     (t, if t = None then log_to lib LogMessageFatal (Pair names) s es else Continues s es)"

text \<open>The loop is left after one round, since its body never continues.\<close>

lemma while_failed_ends:
  assumes "\<And>r s es. \<exists>s' es'. body r s es = Terminates s' es'"
  shows "while_failed test body s es =
    Some (case test s of (None, s1) \<Rightarrow> Continues s1 es | (Some r, s1) \<Rightarrow> body r s1 es)"
proof (cases "test s")
  case (Pair result s1)
  show ?thesis
  proof (cases result)
    case None
    with Pair show ?thesis by (simp add: while_failed.simps operator_bool_def)
  next
    case (Some r)
    obtain s' es' where "body r s1 es = Terminates s' es'" using assms by blast
    with Pair Some show ?thesis by (subst while_failed.simps) (simp add: operator_bool_def)
  qed
qed

lemma fatal_body_ends:
  "\<exists>s' es'. log_to lib (if strip \<le> (3::nat) then LogMessageFatal else NullStreamFatal) (prefixed r text) s es =
     Terminates s' es'"
  by (simp add: log_to_def split_beta Let_def)

lemma CHECK_STROP_result:
  "CHECK_STROP lib strip impl names s1 s2 text s es =
     (let (a, t1) = s1 s; (b, t2) = s2 t1 in
      Some (case impl a b names of
              None \<Rightarrow> Continues t2 es
            | Some r \<Rightarrow> log_to lib (if strip \<le> 3 then LogMessageFatal else NullStreamFatal) (prefixed r text) t2 es))"
  unfolding CHECK_STROP_def COMPACT_GOOGLE_LOG.simps
  by (subst while_failed_ends [OF fatal_body_ends]) (simp add: split_beta Let_def split: option.splits)

lemma CHECK_OP_outcome:
  "CHECK_OP lib strip cmp show exprtext val1 val2 text s es =
     (let (v1, s1) = val1 s; (v2, s2) = val2 s1; (t, s3) = text s2 in
      Some (if cmp v1 v2 then Continues s2 es
            else Terminates s3
              (if strip \<le> 3 then es @ [\<lparr>e_severity = GLOG_FATAL, e_ctr = 0, e_method = SendToLog,
                 e_text = show v1 v2 exprtext @ t\<rparr>] else es)))"
  unfolding CHECK_OP_def
  by (subst while_failed_ends [OF fatal_body_ends])
    (simp add: Check_Impl_def GetReferenceableValue_def log_to_def prefixed_def split_beta Let_def)

text \<open>C40: A comparison evaluates each of its two values once and always comes to an end: it continues, having
  logged nothing and evaluated no message, if the comparison holds; otherwise it logs one fatal message
  and ends the program. (\<open>STRIP_LOG\<close> is at most 3.)\<close>

theorem CHECK_OP_result:
  assumes "strip \<le> 3"
  shows "CHECK_OP lib strip cmp show exprtext val1 val2 text s es =
     (let (v1, s1) = val1 s; (v2, s2) = val2 s1; (t, s3) = text s2 in
      Some (if cmp v1 v2 then Continues s2 es
            else Terminates s3
              (es @ [\<lparr>e_severity = GLOG_FATAL, e_ctr = 0, e_method = SendToLog,
                 e_text = show v1 v2 exprtext @ t\<rparr>])))"
  using assms by (simp add: CHECK_OP_outcome split_beta Let_def)

lemma CHECK_OP_result_witness:
  "CHECK_OP \<lparr>ends = (\<lambda>sev. sev = GLOG_FATAL), errno_text = ''Success''\<rparr> 0 (=) (\<lambda>_ _ e. e) ''i == 3'' (\<lambda>n. (n, n + 1)) (Pair 3) (\<lambda>n. (''!'', n + 1)) (2 :: int) [] =
     Some (Terminates 4 [\<lparr>e_severity = GLOG_FATAL, e_ctr = 0, e_method = SendToLog, e_text = ''i == 3!''\<rparr>])"
  by (subst CHECK_OP_result) simp_all

lemmas comparisons =
  CHECK_EQ_def CHECK_NE_def CHECK_LE_def CHECK_LT_def CHECK_GE_def CHECK_GT_def CHECK_OP_outcome

lemma CHECK_NEAR_twice:
  fixes x y m :: int
  assumes "x \<le> y + m" and "y - m \<le> x"
  shows "CHECK_NEAR lib strip show t u (\<lambda>n. (x, n + 1)) (\<lambda>n. (y, n + 1)) (\<lambda>n. (m, n + 1)) (n :: int) es =
    Some (Continues (n + 6) es)"
  using assms
  by (simp add: CHECK_NEAR_def comparisons both_def)

lemma DCHECK_OP_off:
  "DCHECK_OP (DCHECK_IS_ON True False) lib strip cmp show exprtext val1 val2 text s es = Some (Continues s es)"
  by (simp add: DCHECK_OP_def DCHECK_IS_ON_def)

lemma CHECK_INDEX_bound:
  assumes "- (2 ^ 31) \<le> v" and "v < 2 ^ 31" and "0 \<le> len" and "len < 2 ^ 63"
  shows "(\<exists>s' es'. CHECK_INDEX lib strip shown (Pair v) len text s es = Continues s' es') \<longleftrightarrow> 0 \<le> v \<and> v < len"
proof -
  have "v mod 2 ^ 64 = (if v < 0 then v + 2 ^ 64 else v)"
    using mod_add_self2 [of v "2 ^ 64"] mod_pos_pos_trivial [of "v + 2 ^ 64" "2 ^ 64"]
      mod_pos_pos_trivial [of v "2 ^ 64"] assms(1,2) by auto
  with assms show ?thesis by (simp add: CHECK_INDEX_def CHECK_result split_beta Let_def)
qed

lemma CheckNotNull_continues:
  "(\<exists>t s' es'. CheckNotNull lib names p s es = (Some t, Continues s' es')) \<longleftrightarrow> p \<noteq> None"
  by (cases p) (auto simp: CheckNotNull_def log_to_def)

end
