(* ===== verification/LogCounters.thy ===== *)
theory LogCounters
  imports LogMacros
begin

section \<open>Statements that log now and then: \<open>LOG_EVERY_N\<close>, \<open>LOG_FIRST_N\<close>, \<open>VLOG\<close>\<close>

text \<open>
  Every such statement has static counters of its own, two signed 32-bit integers. An operation whose
  result does not fit is undefined in C++ and has the value \<open>None\<close> here, as has a remainder by zero.
\<close>

record site =
  LOG_OCCURRENCES :: int
  LOG_OCCURRENCES_MOD_N :: int

definition new_site :: site where
  "new_site = \<lparr>LOG_OCCURRENCES = 0, LOG_OCCURRENCES_MOD_N = 0\<rparr>"

definition int32 :: "int \<Rightarrow> int option" where
  "int32 x = (if - (2 ^ 31) \<le> x \<and> x < 2 ^ 31 then Some x else None)"

definition c_rem :: "int \<Rightarrow> int \<Rightarrow> int option" where
  "c_rem a b = (if b = 0 then None else if int32 (a sdiv b) = None then None else Some (a smod b))"

text \<open>
  One execution of the statement: the new counters and the log object, if a message is logged. \<open>obj\<close>
  makes the object from the counter: a \<open>LogMessage\<close>, or an \<open>ErrnoLogMessage\<close> for \<open>PLOG_EVERY_N\<close>.
\<close>

definition SOME_KIND_OF_LOG_EVERY_N ::
  "int \<Rightarrow> (int \<Rightarrow> log_object) \<Rightarrow> site \<Rightarrow> (site \<times> log_object option) option" where
  "SOME_KIND_OF_LOG_EVERY_N n obj st =
     Option.bind (int32 (LOG_OCCURRENCES st + 1)) (\<lambda>occ.
     Option.bind (int32 (LOG_OCCURRENCES_MOD_N st + 1)) (\<lambda>m.
     Option.bind (if n < m then int32 (m - n) else Some m) (\<lambda>m.
     Some (\<lparr>LOG_OCCURRENCES = occ, LOG_OCCURRENCES_MOD_N = m\<rparr>, if m = 1 then Some (obj occ) else None))))"

definition SOME_KIND_OF_LOG_IF_EVERY_N ::
  "bool \<Rightarrow> int \<Rightarrow> (int \<Rightarrow> log_object) \<Rightarrow> site \<Rightarrow> (site \<times> log_object option) option" where
  "SOME_KIND_OF_LOG_IF_EVERY_N condition n obj st =
     Option.bind (int32 (LOG_OCCURRENCES st + 1)) (\<lambda>occ.
     if \<not> condition then Some (st\<lparr>LOG_OCCURRENCES := occ\<rparr>, None)
     else
       Option.bind (int32 (LOG_OCCURRENCES_MOD_N st + 1)) (\<lambda>k.
       Option.bind (c_rem k n) (\<lambda>m.
       Option.bind (c_rem 1 n) (\<lambda>one.
       Some (\<lparr>LOG_OCCURRENCES = occ, LOG_OCCURRENCES_MOD_N = m\<rparr>, if m = one then Some (obj occ) else None)))))"

definition SOME_KIND_OF_LOG_FIRST_N ::
  "int \<Rightarrow> (int \<Rightarrow> log_object) \<Rightarrow> site \<Rightarrow> (site \<times> log_object option) option" where
  "SOME_KIND_OF_LOG_FIRST_N n obj st =
     Option.bind (if LOG_OCCURRENCES st \<le> n then int32 (LOG_OCCURRENCES st + 1) else Some (LOG_OCCURRENCES st)) (\<lambda>occ.
     Some (st\<lparr>LOG_OCCURRENCES := occ\<rparr>, if occ \<le> n then Some (obj occ) else None))"

definition LOG_EVERY_N :: "LogSeverity \<Rightarrow> int \<Rightarrow> site \<Rightarrow> (site \<times> log_object option) option" where
  "LOG_EVERY_N sev n = SOME_KIND_OF_LOG_EVERY_N n (\<lambda>c. LogMessage sev c SendToLog)"

definition SYSLOG_EVERY_N :: "LogSeverity \<Rightarrow> int \<Rightarrow> site \<Rightarrow> (site \<times> log_object option) option" where
  "SYSLOG_EVERY_N sev n = SOME_KIND_OF_LOG_EVERY_N n (\<lambda>c. LogMessage sev c SendToSyslogAndLog)"

definition PLOG_EVERY_N :: "LogSeverity \<Rightarrow> int \<Rightarrow> site \<Rightarrow> (site \<times> log_object option) option" where
  "PLOG_EVERY_N sev n = SOME_KIND_OF_LOG_EVERY_N n (\<lambda>c. ErrnoLogMessage sev c SendToLog)"

definition LOG_FIRST_N :: "LogSeverity \<Rightarrow> int \<Rightarrow> site \<Rightarrow> (site \<times> log_object option) option" where
  "LOG_FIRST_N sev n = SOME_KIND_OF_LOG_FIRST_N n (\<lambda>c. LogMessage sev c SendToLog)"

definition LOG_IF_EVERY_N :: "LogSeverity \<Rightarrow> bool \<Rightarrow> int \<Rightarrow> site \<Rightarrow> (site \<times> log_object option) option" where
  "LOG_IF_EVERY_N sev condition n = SOME_KIND_OF_LOG_IF_EVERY_N condition n (\<lambda>c. LogMessage sev c SendToLog)"

text \<open>The executions of one statement, one after the other: what each of them logs.\<close>

fun executions :: "('a \<Rightarrow> site \<Rightarrow> (site \<times> 'b) option) \<Rightarrow> 'a list \<Rightarrow> site \<Rightarrow> 'b list option" where
  "executions f [] st = Some []"
| "executions f (x # xs) st =
     Option.bind (f x st) (\<lambda>(st', y). Option.bind (executions f xs st') (\<lambda>ys. Some (y # ys)))"

lemma executions_by_invariant:
  assumes "\<And>k st. k < length xs \<Longrightarrow> I k st \<Longrightarrow> \<exists>st'. f (xs ! k) st = Some (st', g k) \<and> I (Suc k) st'"
    and "I 0 st"
  shows "executions f xs st = Some (map g [0..<length xs])"
  using assms
proof (induction xs arbitrary: I g st)
  case Nil
  then show ?case by simp
next
  case (Cons x xs)
  from Cons.prems(1) [of 0 st] Cons.prems(2)
  obtain st' where st': "f x st = Some (st', g 0)" "I (Suc 0) st'" by auto
  have "executions f xs st' = Some (map (\<lambda>k. g (Suc k)) [0..<length xs])"
  proof (rule Cons.IH [where I = "\<lambda>k. I (Suc k)"])
    fix k t
    assume "k < length xs" and "I (Suc k) t"
    with Cons.prems(1) [of "Suc k" t]
    show "\<exists>st'. f (xs ! k) t = Some (st', g (Suc k)) \<and> I (Suc (Suc k)) st'" by simp
  qed (rule st'(2))
  moreover have "map g [0..<length (x # xs)] = g 0 # map (\<lambda>k. g (Suc k)) [0..<length xs]"
    by (simp add: map_upt_Suc del: upt_Suc)
  ultimately show ?case using st'(1) by (simp del: upt_Suc)
qed

text \<open>The \<open>k\<close>-th execution logs, with the counter \<open>k + 1\<close>, if \<open>P k\<close>.\<close>

definition logs_when :: "LogSeverity \<Rightarrow> (nat \<Rightarrow> bool) \<Rightarrow> nat \<Rightarrow> log_object option list" where
  "logs_when sev P n =
     map (\<lambda>k. if P k then Some (LogMessage sev (int k + 1) SendToLog) else None) [0..<n]"

lemma c_rem_nonneg: "0 \<le> a \<Longrightarrow> a < 2 ^ 31 \<Longrightarrow> 0 < b \<Longrightarrow> c_rem a b = Some (a mod b)"
proof -
  assume a: "0 \<le> a" "a < 2 ^ 31" "0 < b"
  then have "a sdiv b = a div b" by (simp add: signed_divide_int_def sgn_if)
  moreover have "0 \<le> a div b" and "a div b \<le> a"
    using a zdiv_mono2 [of a 1 b] by (simp_all add: pos_imp_zdiv_nonneg_iff)
  moreover have "a smod b = a mod b" using a by (cases "a = 0") (simp_all add: signed_modulo_int_def)
  ultimately show ?thesis using a by (simp add: c_rem_def int32_def)
qed

lemma mod_step: "0 < n \<Longrightarrow> (x mod n + 1) mod n = (x + 1) mod (n::int)"
  by (rule mod_add_left_eq)

lemma mod_one_dvd: "0 < n \<Longrightarrow> (x + 1) mod n = 1 mod n \<longleftrightarrow> n dvd (x::int)"
  by (metis add_diff_cancel_right' mod_eq_dvd_iff)

lemma mod_bound: "0 < n \<Longrightarrow> n < (2::int) ^ 31 \<Longrightarrow> 0 \<le> x mod n \<and> x mod n + 1 < 2 ^ 31"
  using pos_mod_bound [of n x] pos_mod_sign [of n x] by linarith

lemma mod_between: "1 \<le> n \<Longrightarrow> 0 \<le> x mod n \<and> x mod n + 1 \<le> (n::int)"
  using pos_mod_bound [of n x] pos_mod_sign [of n x] by linarith

lemma every_n_step:
  assumes "1 \<le> n" and "n < 2 ^ 31" and "int k + 1 < 2 ^ 31"
    and "LOG_OCCURRENCES st = int k"
    and "LOG_OCCURRENCES_MOD_N st = (if k = 0 then 0 else (int k - 1) mod n + 1)"
  shows "\<exists>st'. LOG_EVERY_N sev n st = Some (st', if n dvd int k then Some (LogMessage sev (int k + 1) SendToLog) else None) \<and>
    LOG_OCCURRENCES st' = int (Suc k) \<and> LOG_OCCURRENCES_MOD_N st' = (int (Suc k) - 1) mod n + 1"
proof -
  let ?m = "LOG_OCCURRENCES_MOD_N st"
  have m: "0 \<le> ?m" "?m \<le> n" "?m \<le> int k"
    using assms(1,5) mod_between [of n "int k - 1"] zmod_le_nonneg_dividend [of "int k - 1" n]
    by (cases "k = 0"; simp)+
  have next_mod: "int k mod n = (if ?m = n then 0 else ?m)"
  proof (cases "k = 0")
    case True
    with assms(1,5) show ?thesis by simp
  next
    case False
    then have "?m = (int k - 1) mod n + 1" using assms(5) by simp
    moreover have "((int k - 1) mod n + 1) mod n = int k mod n"
      using mod_step [of n "int k - 1"] assms(1) by simp
    ultimately show ?thesis using m assms(1) by (auto simp: mod_pos_pos_trivial)
  qed
  have "n dvd int k \<longleftrightarrow> int k mod n = 0" by (rule dvd_eq_mod_eq_0)
  with next_mod m assms(1-4) show ?thesis
    by (auto simp: LOG_EVERY_N_def SOME_KIND_OF_LOG_EVERY_N_def int32_def)
qed

lemma if_every_n_step:
  assumes "1 \<le> n" and "n < 2 ^ 31" and "int k + 1 < 2 ^ 31"
    and "LOG_OCCURRENCES st = int k" and "LOG_OCCURRENCES_MOD_N st = int j mod n"
  shows "\<exists>st'. LOG_IF_EVERY_N sev c n st = Some (st', if c \<and> n dvd int j then Some (LogMessage sev (int k + 1) SendToLog) else None) \<and>
    LOG_OCCURRENCES st' = int (Suc k) \<and> LOG_OCCURRENCES_MOD_N st' = int (if c then Suc j else j) mod n"
proof -
  have n: "0 < n" using assms(1) by simp
  from mod_bound [OF n assms(2), of "int j"]
  have rem: "c_rem (int j mod n + 1) n = Some ((int j + 1) mod n)" "c_rem 1 n = Some (1 mod n)"
    using n by (simp_all add: c_rem_nonneg mod_step)
  have occ: "int32 (int k + 1) = Some (int k + 1)" "int32 (int j mod n + 1) = Some (int j mod n + 1)"
    using assms(3) mod_bound [OF n assms(2), of "int j"] by (simp_all add: int32_def)
  show ?thesis
    using rem occ assms(4,5) n mod_one_dvd [OF n, of "int j"]
    by (cases c) (simp_all add: LOG_IF_EVERY_N_def SOME_KIND_OF_LOG_IF_EVERY_N_def add.commute)
qed

text \<open>C39: \<open>LOG_IF_EVERY_N\<close> logs exactly the first, the \<open>n+1\<close>-st, the \<open>2n+1\<close>-st and so on of the executions
  at which its condition holds, with the number of the execution as counter; \<open>LOG_EVERY_N\<close>, which counts
  differently, logs as if its condition always held. No counter overflows before \<open>2^31 - 1\<close> executions.\<close>

theorem log_every_n:
  assumes "1 \<le> n" and "n < 2 ^ 31" and "int (length cs) < 2 ^ 31"
  shows "executions (\<lambda>c. LOG_IF_EVERY_N sev c n) cs new_site =
      Some (logs_when sev (\<lambda>k. cs ! k \<and> n dvd int (length (filter id (take k cs)))) (length cs)) \<and>
    executions (\<lambda>c. LOG_EVERY_N sev n) cs new_site = Some (logs_when sev (\<lambda>k. n dvd int k) (length cs))"
proof
  show "executions (\<lambda>c. LOG_IF_EVERY_N sev c n) cs new_site =
      Some (logs_when sev (\<lambda>k. cs ! k \<and> n dvd int (length (filter id (take k cs)))) (length cs))"
    unfolding logs_when_def
  proof (rule executions_by_invariant [where I = "\<lambda>k st. LOG_OCCURRENCES st = int k \<and>
        LOG_OCCURRENCES_MOD_N st = int (length (filter id (take k cs))) mod n"])
    fix k and st :: site
    assume k: "k < length cs" and st: "LOG_OCCURRENCES st = int k \<and>
        LOG_OCCURRENCES_MOD_N st = int (length (filter id (take k cs))) mod n"
    have "int k + 1 < 2 ^ 31" using k assms(3) by linarith
    from if_every_n_step [OF assms(1,2) this, of st "length (filter id (take k cs))" sev "cs ! k"] st k
    show "\<exists>st'. LOG_IF_EVERY_N sev (cs ! k) n st =
        Some (st', if cs ! k \<and> n dvd int (length (filter id (take k cs)))
                   then Some (LogMessage sev (int k + 1) SendToLog) else None) \<and>
        LOG_OCCURRENCES st' = int (Suc k) \<and>
        LOG_OCCURRENCES_MOD_N st' = int (length (filter id (take (Suc k) cs))) mod n"
      by (simp add: take_Suc_conv_app_nth add.commute split: if_splits)
  qed (simp add: new_site_def)
  show "executions (\<lambda>c. LOG_EVERY_N sev n) cs new_site = Some (logs_when sev (\<lambda>k. n dvd int k) (length cs))"
    unfolding logs_when_def
  proof (rule executions_by_invariant [where I = "\<lambda>k st. LOG_OCCURRENCES st = int k \<and>
        LOG_OCCURRENCES_MOD_N st = (if k = 0 then 0 else (int k - 1) mod n + 1)"])
    fix k and st :: site
    assume k: "k < length cs" and st: "LOG_OCCURRENCES st = int k \<and>
        LOG_OCCURRENCES_MOD_N st = (if k = 0 then 0 else (int k - 1) mod n + 1)"
    have "int k + 1 < 2 ^ 31" using k assms(3) by linarith
    from every_n_step [OF assms(1,2) this, of st sev] st
    show "\<exists>st'. LOG_EVERY_N sev n st =
        Some (st', if n dvd int k then Some (LogMessage sev (int k + 1) SendToLog) else None) \<and>
        LOG_OCCURRENCES st' = int (Suc k) \<and>
        LOG_OCCURRENCES_MOD_N st' = (if Suc k = 0 then 0 else (int (Suc k) - 1) mod n + 1)"
      by simp
  qed (simp add: new_site_def)
qed

lemma log_every_n_witness:
  "executions (\<lambda>c. LOG_IF_EVERY_N GLOG_INFO c 2) [True, False, True, True] new_site =
     Some (logs_when GLOG_INFO (\<lambda>k. [True, False, True, True] ! k \<and>
       2 dvd int (length (filter id (take k [True, False, True, True])))) (length [True, False, True, True])) \<and>
   executions (\<lambda>c. LOG_EVERY_N GLOG_INFO 2) [True, False, True, True] new_site =
     Some (logs_when GLOG_INFO (\<lambda>k. 2 dvd int k) (length [True, False, True, True]))"
  by (rule log_every_n) simp_all

lemma log_first_n:
  assumes "0 \<le> n" and "n + 1 < 2 ^ 31"
  shows "executions (\<lambda>_. LOG_FIRST_N sev n) xs new_site = Some (logs_when sev (\<lambda>k. int k < n) (length xs))"
  unfolding logs_when_def
proof (rule executions_by_invariant [where I = "\<lambda>k st. LOG_OCCURRENCES st = min (int k) (n + 1)"])
  fix k and st :: site
  assume "LOG_OCCURRENCES st = min (int k) (n + 1)"
  then show "\<exists>st'. LOG_FIRST_N sev n st =
      Some (st', if int k < n then Some (LogMessage sev (int k + 1) SendToLog) else None) \<and>
      LOG_OCCURRENCES st' = min (int (Suc k)) (n + 1)"
    using assms by (auto simp: LOG_FIRST_N_def SOME_KIND_OF_LOG_FIRST_N_def int32_def min_def)
qed (use assms in \<open>simp add: new_site_def\<close>)

text \<open>Every statement stops being defined when its execution counter is full.\<close>

lemma log_every_n_overflow:
  "LOG_OCCURRENCES st = 2 ^ 31 - 1 \<Longrightarrow> LOG_EVERY_N sev n st = None \<and> LOG_IF_EVERY_N sev c n st = None"
  by (simp add: LOG_EVERY_N_def LOG_IF_EVERY_N_def SOME_KIND_OF_LOG_EVERY_N_def
      SOME_KIND_OF_LOG_IF_EVERY_N_def int32_def)

subsection \<open>Verbose statements\<close>

text \<open>
  \<open>vlocal__\<close>, the static pointer of a \<open>VLOG_IS_ON\<close>: to \<open>kLogSiteUninitialized\<close> at first, then to the
  level that controls the statement. \<open>level\<close> reads the levels, \<open>init\<close> is the library's \<open>InitVLOG3__\<close>.
\<close>

datatype vptr = Site_Uninitialized | Level_At nat

definition VLOG_IS_ON ::
  "(vptr \<Rightarrow> int \<Rightarrow> bool \<times> vptr) \<Rightarrow> (vptr \<Rightarrow> int) \<Rightarrow> int \<Rightarrow> vptr \<Rightarrow> bool \<times> vptr" where
  "VLOG_IS_ON init level verboselevel vlocal =
     (if level vlocal \<ge> verboselevel then
        if vlocal \<noteq> Site_Uninitialized then (True, vlocal) else init vlocal verboselevel
      else (False, vlocal))"

text \<open>For other compilers there is no pointer: the level is the global one, \<open>FLAGS_v\<close>.\<close>

definition VLOG_IS_ON_global :: "int \<Rightarrow> int \<Rightarrow> bool" where
  "VLOG_IS_ON_global FLAGS_v verboselevel = (FLAGS_v \<ge> verboselevel)"

definition VLOG ::
  "library \<Rightarrow> nat \<Rightarrow> (vptr \<Rightarrow> int \<Rightarrow> bool \<times> vptr) \<Rightarrow> (vptr \<Rightarrow> int) \<Rightarrow> int
   \<Rightarrow> (string, vptr) expr \<Rightarrow> vptr \<Rightarrow> entry list \<Rightarrow> vptr result" where
  "VLOG lib strip init level verboselevel =
     LOG_IF lib (COMPACT_GOOGLE_LOG strip True L_INFO) (VLOG_IS_ON init level verboselevel)"

definition VLOG_IF ::
  "library \<Rightarrow> nat \<Rightarrow> (vptr \<Rightarrow> int \<Rightarrow> bool \<times> vptr) \<Rightarrow> (vptr \<Rightarrow> int) \<Rightarrow> int \<Rightarrow> bool
   \<Rightarrow> (string, vptr) expr \<Rightarrow> vptr \<Rightarrow> entry list \<Rightarrow> vptr result" where
  "VLOG_IF lib strip init level verboselevel condition =
     LOG_IF lib (COMPACT_GOOGLE_LOG strip True L_INFO)
       (\<lambda>s. if condition then VLOG_IS_ON init level verboselevel s else (False, s))"

definition VLOG_EVERY_N ::
  "(vptr \<Rightarrow> int \<Rightarrow> bool \<times> vptr) \<Rightarrow> (vptr \<Rightarrow> int) \<Rightarrow> int \<Rightarrow> int \<Rightarrow> vptr \<Rightarrow> site
   \<Rightarrow> (vptr \<times> site \<times> log_object option) option" where
  "VLOG_EVERY_N init level verboselevel n vlocal st =
     (let (on, vlocal') = VLOG_IS_ON init level verboselevel vlocal
      in map_option (Pair vlocal') (LOG_IF_EVERY_N GLOG_INFO on n st))"

definition VLOG_IF_EVERY_N ::
  "(vptr \<Rightarrow> int \<Rightarrow> bool \<times> vptr) \<Rightarrow> (vptr \<Rightarrow> int) \<Rightarrow> int \<Rightarrow> bool \<Rightarrow> int \<Rightarrow> vptr \<Rightarrow> site
   \<Rightarrow> (vptr \<times> site \<times> log_object option) option" where
  "VLOG_IF_EVERY_N init level verboselevel condition n vlocal st =
     (let (on, vlocal') = if condition then VLOG_IS_ON init level verboselevel vlocal else (False, vlocal)
      in map_option (Pair vlocal') (LOG_IF_EVERY_N GLOG_INFO on n st))"

text \<open>Outside debug mode a statement with counters neither counts nor logs.\<close>

definition DLOG_IF_EVERY_N ::
  "bool \<Rightarrow> LogSeverity \<Rightarrow> bool \<Rightarrow> int \<Rightarrow> site \<Rightarrow> (site \<times> log_object option) option" where
  "DLOG_IF_EVERY_N dcheck sev condition n st =
     (if dcheck then LOG_IF_EVERY_N sev condition n st else Some (st, None))"

definition DVLOG ::
  "bool \<Rightarrow> library \<Rightarrow> nat \<Rightarrow> (vptr \<Rightarrow> int \<Rightarrow> bool \<times> vptr) \<Rightarrow> (vptr \<Rightarrow> int) \<Rightarrow> int
   \<Rightarrow> (string, vptr) expr \<Rightarrow> vptr \<Rightarrow> entry list \<Rightarrow> vptr result" where
  "DVLOG dcheck lib strip init level verboselevel text s es =
     (if dcheck then VLOG lib strip init level verboselevel text s es else Continues s es)"

text \<open>
  As long as the library answers the first time with the level that applies to the file, and keeps
  either no pointer or the one to that level, the macro always answers with that level.
\<close>

lemma VLOG_IS_ON_level:
  assumes "vlocal = Site_Uninitialized \<or> vlocal = Level_At f"
    and "verboselevel \<le> level Site_Uninitialized"
    and "fst (init Site_Uninitialized verboselevel) \<longleftrightarrow> level (Level_At f) \<ge> verboselevel"
    and "snd (init Site_Uninitialized verboselevel) \<in> {Site_Uninitialized, Level_At f}"
  shows "fst (VLOG_IS_ON init level verboselevel vlocal) \<longleftrightarrow> level (Level_At f) \<ge> verboselevel"
    and "snd (VLOG_IS_ON init level verboselevel vlocal) \<in> {Site_Uninitialized, Level_At f}"
  using assms by (auto simp: VLOG_IS_ON_def)

text \<open>If no module has a level of its own, that is, if the level that controls the statement is the global one
  and the library says so, the two definitions of the macro agree, at every execution.\<close>

lemma VLOG_IS_ON_global_level:
  assumes "vlocal = Site_Uninitialized \<or> vlocal = Level_At f"
    and "level (Level_At f) = FLAGS_v" and "verboselevel \<le> level Site_Uninitialized"
    and "init Site_Uninitialized verboselevel = (FLAGS_v \<ge> verboselevel, Level_At f)"
  shows "fst (VLOG_IS_ON init level verboselevel vlocal) = VLOG_IS_ON_global FLAGS_v verboselevel"
  using VLOG_IS_ON_level(1) [of vlocal f verboselevel level init] assms by (simp add: VLOG_IS_ON_global_def)

end
