(* ===== verification/RawLog.thy ===== *)
theory RawLog
  imports LogCounters
begin

section \<open>Logging without locks: \<open>glog/raw_logging.h\<close>\<close>

text \<open>
  The macros choose between the library's function \<open>RawLog__\<close>, the empty stub \<open>RawLogStub__\<close> and
  \<open>exit\<close>; the model is the list of these calls. A fatal message ends the program inside \<open>RawLog__\<close>.
\<close>

datatype raw_call =
    Call_RawLog LogSeverity string
  | Call_Stub string
  | Call_exit int

definition RawLogStub :: "string \<Rightarrow> unit" where
  "RawLogStub msg = ()"

definition RAW_LOG_INFO :: "nat \<Rightarrow> string \<Rightarrow> raw_call list" where
  "RAW_LOG_INFO strip msg = (if strip = 0 then [Call_RawLog GLOG_INFO msg] else [Call_Stub msg])"

definition RAW_LOG_WARNING :: "nat \<Rightarrow> string \<Rightarrow> raw_call list" where
  "RAW_LOG_WARNING strip msg = (if strip \<le> 1 then [Call_RawLog GLOG_WARNING msg] else [Call_Stub msg])"

definition RAW_LOG_ERROR :: "nat \<Rightarrow> string \<Rightarrow> raw_call list" where
  "RAW_LOG_ERROR strip msg = (if strip \<le> 2 then [Call_RawLog GLOG_ERROR msg] else [Call_Stub msg])"

definition RAW_LOG_FATAL :: "nat \<Rightarrow> string \<Rightarrow> raw_call list" where
  "RAW_LOG_FATAL strip msg =
     (if strip \<le> 3 then [Call_RawLog GLOG_FATAL msg] else [Call_Stub msg, Call_exit 1])"

text \<open>\<open>RAW_LOG\<close> switches over the number of the severity.\<close>

definition RAW_LOG :: "nat \<Rightarrow> LogSeverity \<Rightarrow> string \<Rightarrow> raw_call list" where
  "RAW_LOG strip sev msg =
     (if sev = 0 then RAW_LOG_INFO strip msg
      else if sev = 1 then RAW_LOG_WARNING strip msg
      else if sev = 2 then RAW_LOG_ERROR strip msg
      else if sev = 3 then RAW_LOG_FATAL strip msg
      else [])"

definition RAW_VLOG ::
  "nat \<Rightarrow> (vptr \<Rightarrow> int \<Rightarrow> bool \<times> vptr) \<Rightarrow> (vptr \<Rightarrow> int) \<Rightarrow> int \<Rightarrow> string \<Rightarrow> vptr \<Rightarrow> raw_call list \<times> vptr" where
  "RAW_VLOG strip init level verboselevel msg vlocal =
     (if strip = 0 then
        let (on, vlocal') = VLOG_IS_ON init level verboselevel vlocal
        in (if on then RAW_LOG_INFO strip msg else [], vlocal')
      else ([Call_Stub msg], vlocal))"

definition RAW_CHECK :: "nat \<Rightarrow> bool \<Rightarrow> string \<Rightarrow> string \<Rightarrow> raw_call list" where
  "RAW_CHECK strip condition shown message =
     (if \<not> condition then RAW_LOG strip GLOG_FATAL (''Check '' @ shown @ '' failed: '' @ message) else [])"

definition RAW_DLOG :: "bool \<Rightarrow> nat \<Rightarrow> LogSeverity \<Rightarrow> string \<Rightarrow> raw_call list" where
  "RAW_DLOG ndebug strip sev msg = (if ndebug then [] else RAW_LOG strip sev msg)"

definition RAW_DCHECK :: "bool \<Rightarrow> nat \<Rightarrow> bool \<Rightarrow> string \<Rightarrow> string \<Rightarrow> raw_call list" where
  "RAW_DCHECK ndebug strip condition shown message =
     (if ndebug then [] else RAW_CHECK strip condition shown message)"

text \<open>What a call to the library carries: the severities with which something is logged.\<close>

definition raw_logged :: "raw_call list \<Rightarrow> LogSeverity list" where
  "raw_logged cs = concat (map (\<lambda>c. case c of Call_RawLog sev _ \<Rightarrow> [sev] | _ \<Rightarrow> []) cs)"

lemmas raw_defs = RAW_LOG_def RAW_LOG_INFO_def RAW_LOG_WARNING_def RAW_LOG_ERROR_def RAW_LOG_FATAL_def
  RAW_CHECK_def RAW_DLOG_def RAW_DCHECK_def raw_logged_def severities

text \<open>\<open>RAW_LOG\<close> misses its severities, because its numbers are those from before \<open>DETAIL\<close> was inserted:
  only \<open>INFO\<close> and \<open>WARNING\<close> are logged as what they are; \<open>DETAIL\<close> is logged as an error, an error is
  logged as fatal, which ends the program, and a fatal message, with it every failed \<open>RAW_CHECK\<close>, is
  not logged at all and does not end the program.\<close>

theorem RAW_LOG_severities:
  "(raw_logged (RAW_LOG 0 (severity l) msg) = [severity l] \<longleftrightarrow> l = INFO \<or> l = WARNING) \<and>
   raw_logged (RAW_LOG 0 (severity DETAIL) msg) = [severity ERROR] \<and>
   raw_logged (RAW_LOG 0 (severity ERROR) msg) = [severity FATAL] \<and>
   RAW_LOG strip (severity FATAL) msg = [] \<and> RAW_CHECK strip condition shown msg = []"
  by (cases l) (simp_all add: raw_defs)

lemma RAW_VLOG_level:
  assumes "vlocal = Site_Uninitialized \<or> vlocal = Level_At f"
    and "verboselevel \<le> level Site_Uninitialized"
    and "fst (init Site_Uninitialized verboselevel) \<longleftrightarrow> level (Level_At f) \<ge> verboselevel"
    and "snd (init Site_Uninitialized verboselevel) \<in> {Site_Uninitialized, Level_At f}"
  shows "raw_logged (fst (RAW_VLOG 0 init level verboselevel msg vlocal)) =
    (if level (Level_At f) \<ge> verboselevel then [GLOG_INFO] else [])"
  using VLOG_IS_ON_level(1) [of vlocal f verboselevel level init] assms by (auto simp: RAW_VLOG_def split_beta raw_defs)

end
