(* ===== verification/LogChecks.thy ===== *)
theory LogChecks
  imports LogCounters
begin

section \<open>The texts of failed checks, checks of strings and pointers: \<open>glog/logging.h\<close>\<close>

subsection \<open>\<open>MakeCheckOpString\<close>\<close>

text \<open>
  The text of a failed comparison is put together by a \<open>CheckOpMessageBuilder\<close>, whose methods are in the
  compiled library, all but \<open>ForVar1\<close>, which gives the stream itself: the builder is a parameter,
  with the state \<open>'os\<close> of its stream. So are the operators that print the two values.
\<close>

record 'os builder =
  CheckOpMessageBuilder :: "string \<Rightarrow> 'os"
  ForVar2 :: "'os \<Rightarrow> 'os"
  NewString :: "'os \<Rightarrow> string"

definition ForVar1 :: "'os \<Rightarrow> 'os" where
  "ForVar1 stream = stream"

definition MakeCheckOpValueString :: "('os \<Rightarrow> 'a \<Rightarrow> 'os) \<Rightarrow> 'os \<Rightarrow> 'a \<Rightarrow> 'os" where
  "MakeCheckOpValueString put os v = put os v"

definition MakeCheckOpString ::
  "'os builder \<Rightarrow> ('os \<Rightarrow> 'a \<Rightarrow> 'os) \<Rightarrow> ('os \<Rightarrow> 'b \<Rightarrow> 'os) \<Rightarrow> 'a \<Rightarrow> 'b \<Rightarrow> string \<Rightarrow> string" where
  "MakeCheckOpString lib put1 put2 v1 v2 exprtext =
     (let comb = CheckOpMessageBuilder lib exprtext;
          comb = MakeCheckOpValueString put1 (ForVar1 comb) v1;
          comb = MakeCheckOpValueString put2 (ForVar2 lib comb) v2
      in NewString lib comb)"

text \<open>What the comments of the class say of its methods; \<open>contents\<close> is what is in the stream.\<close>

definition builder_documented :: "'os builder \<Rightarrow> ('os \<Rightarrow> string) \<Rightarrow> bool" where
  "builder_documented lib contents \<longleftrightarrow>
     (\<forall>e. contents (CheckOpMessageBuilder lib e) = e @ '' ('') \<and>
     (\<forall>os. contents (ForVar2 lib os) = contents os @ '' vs. '') \<and>
     (\<forall>os. NewString lib os = contents os @ '')'')"

definition puts :: "('os \<Rightarrow> string) \<Rightarrow> ('a \<Rightarrow> string) \<Rightarrow> ('os \<Rightarrow> 'a \<Rightarrow> 'os) \<Rightarrow> bool" where
  "puts contents shown put \<longleftrightarrow> (\<forall>os v. contents (put os v) = contents os @ shown v)"

lemma MakeCheckOpString_text:
  "builder_documented lib contents \<Longrightarrow> puts contents shown1 put1 \<Longrightarrow> puts contents shown2 put2 \<Longrightarrow>
   MakeCheckOpString lib put1 put2 v1 v2 e = e @ '' ('' @ shown1 v1 @ '' vs. '' @ shown2 v2 @ '')''"
  by (simp add: MakeCheckOpString_def MakeCheckOpValueString_def ForVar1_def builder_documented_def
      puts_def Let_def)

lemma builder_documented_strings:
  "builder_documented \<lparr>CheckOpMessageBuilder = (\<lambda>e. e @ '' (''), ForVar2 = (\<lambda>os. os @ '' vs. ''),
     NewString = (\<lambda>os. os @ '')'')\<rparr> id"
  by (simp add: builder_documented_def)

text \<open>A failed \<open>CHECK_EQ\<close> shows its expressions, its two values and the message, in this order.\<close>

lemma CHECK_EQ_text:
  assumes "builder_documented bl contents" and "puts contents shown put"
    and "val1 s = (v1, s1)" and "val2 s1 = (v2, s2)" and "text s2 = (t, s3)" and "strip \<le> 3"
  shows "CHECK_EQ lib strip (MakeCheckOpString bl put put) e val1 val2 text s es =
    Some (if v1 = v2 then Continues s2 es
          else Terminates s3 (es @ [\<lparr>e_severity = GLOG_FATAL, e_ctr = 0, e_method = SendToLog,
            e_text = e @ '' ('' @ shown v1 @ '' vs. '' @ shown v2 @ '')'' @ t\<rparr>]))"
  using assms by (simp add: comparisons MakeCheckOpString_text)

text \<open>Of \<open>CHECK_LE\<close> and \<open>CHECK_GT\<close>, and of \<open>CHECK_LT\<close> and \<open>CHECK_GE\<close>, exactly one continues.\<close>

definition continues :: "'s result option \<Rightarrow> bool" where
  "continues r = (case r of Some (Continues _ _) \<Rightarrow> True | _ \<Rightarrow> False)"

lemma continues_simps [simp]:
  "continues (Some (Continues s es))" "\<not> continues (Some (Terminates s es))" "\<not> continues None"
  by (simp_all add: continues_def)

lemma comparison_continues:
  "continues (CHECK_OP lib strip cmp show e val1 val2 text s es) \<longleftrightarrow>
   (let (v1, s1) = val1 s; (v2, s2) = val2 s1 in cmp v1 v2)"
  by (simp add: CHECK_OP_outcome split_beta Let_def)

lemma comparisons_exclusive:
  fixes val1 val2 :: "('a::linorder, 's) expr"
  shows "continues (CHECK_LE lib strip show e val1 val2 text s es) \<longleftrightarrow>
      \<not> continues (CHECK_GT lib strip show' e' val1 val2 text' s es')"
    and "continues (CHECK_LT lib strip show e val1 val2 text s es) \<longleftrightarrow>
      \<not> continues (CHECK_GE lib strip show' e' val1 val2 text' s es')"
    and "continues (CHECK_EQ lib strip show e val1 val2 text s es) \<longleftrightarrow>
      \<not> continues (CHECK_NE lib strip show' e' val1 val2 text' s es')"
  by (auto simp: CHECK_LE_def CHECK_GT_def CHECK_LT_def CHECK_GE_def CHECK_EQ_def CHECK_NE_def
      comparison_continues split_beta Let_def)

subsection \<open>Floating-point numbers\<close>

text \<open>
  \<open>CHECK_DOUBLE_EQ\<close>: \<open>CHECK_NEAR\<close> with the constant \<open>0.000000000000001L\<close>, which is a parameter, as are
  the operations of the type it is added in.
\<close>

definition CHECK_DOUBLE_EQ ::
  "library \<Rightarrow> nat \<Rightarrow> ('a::{ord,plus,minus} \<Rightarrow> 'a \<Rightarrow> string \<Rightarrow> string) \<Rightarrow> 'a \<Rightarrow> string \<Rightarrow> string
   \<Rightarrow> ('a, 's) expr \<Rightarrow> ('a, 's) expr \<Rightarrow> 's \<Rightarrow> entry list \<Rightarrow> 's result option" where
  "CHECK_DOUBLE_EQ lib strip show eps le_text ge_text val1 val2 s es =
     (case CHECK_LE lib strip show le_text val1 (\<lambda>s. let (v2, s2) = val2 s in (v2 + eps, s2)) (Pair '''') s es of
        Some (Continues s1 es1) \<Rightarrow>
          CHECK_GE lib strip show ge_text val1 (\<lambda>s. let (v2, s2) = val2 s in (v2 - eps, s2)) (Pair '''') s1 es1
      | r \<Rightarrow> r)"

lemma both_Pair: "both f e (Pair v) = (\<lambda>s. let (v1, s1) = e s in (f v1 v, s1))"
  by (rule ext) (simp add: both_def split_beta Let_def)

lemma CHECK_DOUBLE_EQ_near:
  "CHECK_DOUBLE_EQ lib strip show eps = (\<lambda>le_text ge_text val1 val2.
     CHECK_NEAR lib strip show le_text ge_text val1 val2 (Pair eps))"
  by (intro ext) (simp only: CHECK_DOUBLE_EQ_def CHECK_NEAR_def both_Pair)

lemma CHECK_NEAR_exact:
  fixes x y m :: "'a::linordered_idom"
  shows "continues (CHECK_NEAR lib strip show t u (Pair x) (Pair y) (Pair m) s es) \<longleftrightarrow> \<bar>x - y\<bar> \<le> m"
  by (auto simp: CHECK_NEAR_def comparisons both_def split: abs_split)

subsection \<open>Strings\<close>

text \<open>
  The four functions the header declares for C strings; each gives a text if the comparison fails.
  Null pointers are not modelled.
\<close>

record strop_impls =
  CheckstrcmptrueImpl :: "string \<Rightarrow> string \<Rightarrow> string \<Rightarrow> string option"
  CheckstrcmpfalseImpl :: "string \<Rightarrow> string \<Rightarrow> string \<Rightarrow> string option"
  CheckstrcasecmptrueImpl :: "string \<Rightarrow> string \<Rightarrow> string \<Rightarrow> string option"
  CheckstrcasecmpfalseImpl :: "string \<Rightarrow> string \<Rightarrow> string \<Rightarrow> string option"

type_synonym 's string_check =
  "string \<Rightarrow> string \<Rightarrow> (string, 's) expr \<Rightarrow> (string, 's) expr \<Rightarrow> (string, 's) expr
   \<Rightarrow> 's \<Rightarrow> entry list \<Rightarrow> 's result option"

definition CHECK_STREQ :: "library \<Rightarrow> nat \<Rightarrow> strop_impls \<Rightarrow> 's string_check" where
  "CHECK_STREQ lib strip I e1 e2 = CHECK_STROP lib strip (CheckstrcmptrueImpl I) (e1 @ '' == '' @ e2)"

definition CHECK_STRNE :: "library \<Rightarrow> nat \<Rightarrow> strop_impls \<Rightarrow> 's string_check" where
  "CHECK_STRNE lib strip I e1 e2 = CHECK_STROP lib strip (CheckstrcmpfalseImpl I) (e1 @ '' != '' @ e2)"

definition CHECK_STRCASEEQ :: "library \<Rightarrow> nat \<Rightarrow> strop_impls \<Rightarrow> 's string_check" where
  "CHECK_STRCASEEQ lib strip I e1 e2 = CHECK_STROP lib strip (CheckstrcasecmptrueImpl I) (e1 @ '' == '' @ e2)"

definition CHECK_STRCASENE :: "library \<Rightarrow> nat \<Rightarrow> strop_impls \<Rightarrow> 's string_check" where
  "CHECK_STRCASENE lib strip I e1 e2 = CHECK_STROP lib strip (CheckstrcasecmpfalseImpl I) (e1 @ '' != '' @ e2)"

lemma CHECK_STROP_continues:
  "continues (CHECK_STROP lib strip impl names s1 s2 text s es) \<longleftrightarrow>
   (let (a, t1) = s1 s; (b, t2) = s2 t1 in impl a b names = None)"
  by (simp add: CHECK_STROP_result log_to_def split_beta Let_def split: option.splits)

lemma string_checks_exclusive:
  assumes "\<And>a b names. CheckstrcmptrueImpl I a b names = None \<longleftrightarrow> a = b"
    and "\<And>a b names. CheckstrcmpfalseImpl I a b names = None \<longleftrightarrow> a \<noteq> b"
  shows "continues (CHECK_STREQ lib strip I e1 e2 s1 s2 text s es) \<longleftrightarrow> fst (s1 s) = fst (s2 (snd (s1 s)))"
    and "continues (CHECK_STRNE lib strip I e1 e2 s1 s2 text s es) \<longleftrightarrow>
      \<not> continues (CHECK_STREQ lib strip I e1 e2 s1 s2 text s es)"
  using assms by (simp_all add: CHECK_STREQ_def CHECK_STRNE_def CHECK_STROP_continues split_beta Let_def)

subsection \<open>Pointers\<close>

definition CHECK_NOTNULL :: "library \<Rightarrow> string \<Rightarrow> 'p option \<Rightarrow> 's \<Rightarrow> entry list \<Rightarrow> 'p option \<times> 's result" where
  "CHECK_NOTNULL lib shown =
     CheckNotNull lib ([CHR 0x27] @ shown @ [CHR 0x27] @ '' Must be non NULL'')"

lemma CHECK_NOTNULL_result:
  "CHECK_NOTNULL lib shown (Some p) s es = (Some p, Continues s es)"
  "\<exists>es'. snd (CHECK_NOTNULL lib shown None s es) = Terminates s es'"
  by (simp_all add: CHECK_NOTNULL_def CheckNotNull_def log_to_def)

subsection \<open>The debug variants\<close>

text \<open>
  In debug mode each is the check it is named after; otherwise nothing is evaluated, but for the argument of
  \<open>DCHECK_NOTNULL\<close>, which is then not tested.
\<close>

definition DCHECK_EQ :: "bool \<Rightarrow> library \<Rightarrow> nat \<Rightarrow> ('a, 's) check" where
  "DCHECK_EQ dcheck lib strip = DCHECK_OP dcheck lib strip (=)"

definition DCHECK_NE :: "bool \<Rightarrow> library \<Rightarrow> nat \<Rightarrow> ('a, 's) check" where
  "DCHECK_NE dcheck lib strip = DCHECK_OP dcheck lib strip (\<noteq>)"

definition DCHECK_LE :: "bool \<Rightarrow> library \<Rightarrow> nat \<Rightarrow> ('a::ord, 's) check" where
  "DCHECK_LE dcheck lib strip = DCHECK_OP dcheck lib strip (\<le>)"

definition DCHECK_LT :: "bool \<Rightarrow> library \<Rightarrow> nat \<Rightarrow> ('a::ord, 's) check" where
  "DCHECK_LT dcheck lib strip = DCHECK_OP dcheck lib strip (<)"

definition DCHECK_GE :: "bool \<Rightarrow> library \<Rightarrow> nat \<Rightarrow> ('a::ord, 's) check" where
  "DCHECK_GE dcheck lib strip = DCHECK_OP dcheck lib strip (\<ge>)"

definition DCHECK_GT :: "bool \<Rightarrow> library \<Rightarrow> nat \<Rightarrow> ('a::ord, 's) check" where
  "DCHECK_GT dcheck lib strip = DCHECK_OP dcheck lib strip (>)"

definition DCHECK_STREQ :: "bool \<Rightarrow> library \<Rightarrow> nat \<Rightarrow> strop_impls \<Rightarrow> 's string_check" where
  "DCHECK_STREQ dcheck lib strip I e1 e2 =
     DCHECK_STROP dcheck lib strip (CheckstrcmptrueImpl I) (e1 @ '' == '' @ e2)"

definition DCHECK_STRCASEEQ :: "bool \<Rightarrow> library \<Rightarrow> nat \<Rightarrow> strop_impls \<Rightarrow> 's string_check" where
  "DCHECK_STRCASEEQ dcheck lib strip I e1 e2 =
     DCHECK_STROP dcheck lib strip (CheckstrcasecmptrueImpl I) (e1 @ '' == '' @ e2)"

definition DCHECK_STRNE :: "bool \<Rightarrow> library \<Rightarrow> nat \<Rightarrow> strop_impls \<Rightarrow> 's string_check" where
  "DCHECK_STRNE dcheck lib strip I e1 e2 =
     DCHECK_STROP dcheck lib strip (CheckstrcmpfalseImpl I) (e1 @ '' != '' @ e2)"

definition DCHECK_STRCASENE :: "bool \<Rightarrow> library \<Rightarrow> nat \<Rightarrow> strop_impls \<Rightarrow> 's string_check" where
  "DCHECK_STRCASENE dcheck lib strip I e1 e2 =
     DCHECK_STROP dcheck lib strip (CheckstrcasecmpfalseImpl I) (e1 @ '' != '' @ e2)"

definition DCHECK_NOTNULL ::
  "bool \<Rightarrow> library \<Rightarrow> string \<Rightarrow> 'p option \<Rightarrow> 's \<Rightarrow> entry list \<Rightarrow> 'p option \<times> 's result" where
  "DCHECK_NOTNULL dcheck lib shown p s es =
     (if dcheck then CHECK_NOTNULL lib shown p s es else (p, Continues s es))"

definition DLOG_EVERY_N :: "bool \<Rightarrow> LogSeverity \<Rightarrow> int \<Rightarrow> site \<Rightarrow> (site \<times> log_object option) option" where
  "DLOG_EVERY_N dcheck sev n st = (if dcheck then LOG_EVERY_N sev n st else Some (st, None))"

lemma debug_checks:
  "DCHECK_EQ True lib strip = CHECK_EQ lib strip" "DCHECK_NE True lib strip = CHECK_NE lib strip"
  "DCHECK_LE True lib strip = CHECK_LE lib strip" "DCHECK_LT True lib strip = CHECK_LT lib strip"
  "DCHECK_GE True lib strip = CHECK_GE lib strip" "DCHECK_GT True lib strip = CHECK_GT lib strip"
  by (intro ext; simp add: DCHECK_EQ_def DCHECK_NE_def DCHECK_LE_def DCHECK_LT_def DCHECK_GE_def DCHECK_GT_def
      DCHECK_OP_def CHECK_EQ_def CHECK_NE_def CHECK_LE_def CHECK_LT_def CHECK_GE_def CHECK_GT_def)+

lemma debug_string_checks:
  "DCHECK_STREQ True lib strip = CHECK_STREQ lib strip" "DCHECK_STRNE True lib strip = CHECK_STRNE lib strip"
  "DCHECK_STRCASEEQ True lib strip = CHECK_STRCASEEQ lib strip"
  "DCHECK_STRCASENE True lib strip = CHECK_STRCASENE lib strip"
  by (intro ext; simp add: DCHECK_STREQ_def DCHECK_STRNE_def DCHECK_STRCASEEQ_def DCHECK_STRCASENE_def
      DCHECK_STROP_def CHECK_STREQ_def CHECK_STRNE_def CHECK_STRCASEEQ_def CHECK_STRCASENE_def)+

lemma DCHECK_NOTNULL_unchecked: "DCHECK_NOTNULL False lib shown None s es = (None, Continues s es)"
  by (simp add: DCHECK_NOTNULL_def)

end
