(* ===== verification/LogStreams.thy ===== *)
theory LogStreams
  imports Prelude "HOL-Library.Multiset"
begin

section \<open>Message buffers and containers: \<open>glog/logging.h\<close>, \<open>glog/stl_logging.h\<close>\<close>

subsection \<open>The buffer of a message\<close>

text \<open>
  \<open>LogStreamBuf\<close> is a stream buffer over an array of the caller. The standard library puts a character
  at \<open>pptr\<close> if that is below \<open>epptr\<close> and calls \<open>overflow\<close> otherwise. Positions are relative to \<open>pbase\<close>,
  the start of the array; \<open>epptr\<close> is below it where the length is less than two.
\<close>

record streambuf =
  sb_buf :: "byte list"
  sb_pptr :: int
  sb_epptr :: int

definition LogStreamBuf :: "byte list \<Rightarrow> int \<Rightarrow> streambuf" where
  "LogStreamBuf buf len = \<lparr>sb_buf = buf, sb_pptr = 0, sb_epptr = 0 + len - 2\<rparr>"

definition overflow :: "byte \<Rightarrow> streambuf \<Rightarrow> byte \<times> streambuf" where
  "overflow ch sb = (ch, sb)"

definition pcount :: "streambuf \<Rightarrow> int" where
  "pcount sb = sb_pptr sb - 0"

definition sputc :: "byte \<Rightarrow> streambuf \<Rightarrow> streambuf res" where
  "sputc c sb =
     (if sb_pptr sb < sb_epptr sb then
        bind_res (if sb_pptr sb < 0 then Inl OOB_Write else write_at (sb_buf sb) (nat (sb_pptr sb)) [c]) (\<lambda>b.
        Inr (sb\<lparr>sb_buf := b, sb_pptr := sb_pptr sb + 1\<rparr>))
      else Inr (snd (overflow c sb)))"

fun sputn :: "byte list \<Rightarrow> streambuf \<Rightarrow> streambuf res" where
  "sputn [] sb = Inr sb"
| "sputn (c # cs) sb = bind_res (sputc c sb) (sputn cs)"

text \<open>A \<open>LogStream\<close>: its buffer and the counter of the \<open>LOG_EVERY_N\<close> statements.\<close>

record LogStream =
  stream_buf :: streambuf
  stream_ctr :: int

definition new_LogStream :: "byte list \<Rightarrow> int \<Rightarrow> int \<Rightarrow> LogStream" where
  "new_LogStream buf len ctr = \<lparr>stream_buf = LogStreamBuf buf len, stream_ctr = ctr\<rparr>"

definition set_ctr :: "int \<Rightarrow> LogStream \<Rightarrow> LogStream" where
  "set_ctr ctr st = st\<lparr>stream_ctr := ctr\<rparr>"

definition stream_put :: "byte list \<Rightarrow> LogStream \<Rightarrow> LogStream res" where
  "stream_put cs st = bind_res (sputn cs (stream_buf st)) (\<lambda>sb. Inr (st\<lparr>stream_buf := sb\<rparr>))"

text \<open>What the stream says of its buffer; \<open>pbase\<close> points to the array of the caller, here its contents.\<close>

definition LogStream_pcount :: "LogStream \<Rightarrow> int" where
  "LogStream_pcount st = pcount (stream_buf st)"

definition LogStream_pbase :: "LogStream \<Rightarrow> byte list" where
  "LogStream_pbase st = sb_buf (stream_buf st)"

definition LogStream_str :: "LogStream \<Rightarrow> byte list" where
  "LogStream_str st = LogStream_pbase st"

text \<open>
  A \<open>NullStream\<close> is a \<open>LogStream\<close> on a buffer of two bytes of its own, of which it announces one:
  less than the constructor of \<open>LogStreamBuf\<close> asks for. Its own operator drops its operand; the text
  reaches the buffer only where the object has been converted to a \<open>LogStream\<close>.
\<close>

definition NullStream_stream :: "byte list \<Rightarrow> LogStream" where
  "NullStream_stream message_buffer = new_LogStream message_buffer 1 0"

definition NullStream_put :: "'a \<Rightarrow> LogStream \<Rightarrow> LogStream" where
  "NullStream_put x st = st"

lemma sputn_full: "sb_epptr sb \<le> sb_pptr sb \<Longrightarrow> sputn cs sb = Inr sb"
  by (induction cs) (simp_all add: sputc_def overflow_def)

lemma sputn_result:
  assumes "sb_pptr sb = int (length p)" and "sb_buf sb = p @ q" and "sb_epptr sb = int (length p + n)"
    and "n \<le> length q"
  shows "sputn cs sb =
    Inr (sb\<lparr>sb_buf := p @ take n cs @ drop (min n (length cs)) q, sb_pptr := int (length p + min n (length cs))\<rparr>)"
  using assms
proof (induction cs arbitrary: sb p q n)
  case Nil
  then show ?case by simp
next
  case (Cons c cs)
  show ?case
  proof (cases n)
    case 0
    with Cons.prems sputn_full [of sb "c # cs"] show ?thesis by (cases sb) simp
  next
    case (Suc m)
    then obtain y q' where q: "q = y # q'" using Cons.prems(4) by (cases q) auto
    let ?sb = "sb\<lparr>sb_buf := (p @ [c]) @ q', sb_pptr := int (length (p @ [c]))\<rparr>"
    have "sputc c sb = Inr ?sb"
      using Cons.prems q Suc write_at_append [of "length p" p "[c]" "[y]" q'] by (simp add: sputc_def)
    moreover have "sputn cs ?sb =
      Inr (?sb\<lparr>sb_buf := (p @ [c]) @ take m cs @ drop (min m (length cs)) q',
               sb_pptr := int (length (p @ [c]) + min m (length cs))\<rparr>)"
      using Cons.prems q Suc by (intro Cons.IH) simp_all
    ultimately show ?thesis using Suc q by simp
  qed
qed

text \<open>A message is cut to its buffer, never written past it: after streaming any text into a stream
  over \<open>len\<close> bytes, the buffer holds the first \<open>len - 2\<close> bytes of the text, \<open>pcount\<close> is their number, and
  the last two bytes are left for the line feed and the terminator; a buffer below two bytes, as
  that of \<open>NullStream\<close>, is not written at all.\<close>

theorem stream_put_bounds:
  assumes "length buf = len"
  shows "\<exists>st. stream_put cs (new_LogStream buf (int len) ctr) = Inr st \<and>
    sb_buf (stream_buf st) = take (len - 2) cs @ drop (min (len - 2) (length cs)) buf \<and>
    pcount (stream_buf st) = int (min (len - 2) (length cs)) \<and> stream_ctr st = ctr"
proof (cases "len < 2")
  case True
  then show ?thesis
    by (simp add: stream_put_def new_LogStream_def LogStreamBuf_def pcount_def sputn_full)
next
  case False
  then have "sputn cs (LogStreamBuf buf (int len)) =
    Inr ((LogStreamBuf buf (int len))\<lparr>sb_buf := [] @ take (len - 2) cs @ drop (min (len - 2) (length cs)) buf,
      sb_pptr := int (length ([] :: byte list) + min (len - 2) (length cs))\<rparr>)"
    using assms by (intro sputn_result) (simp_all add: LogStreamBuf_def)
  then show ?thesis by (simp add: stream_put_def new_LogStream_def pcount_def)
qed

lemma stream_put_bounds_witness:
  "\<exists>st. stream_put [72, 105, 33] (new_LogStream [0, 0, 0, 0] (int 4) 7) = Inr st \<and>
    sb_buf (stream_buf st) = take (4 - 2) [72, 105, 33] @ drop (min (4 - 2) (length [72, 105, 33 :: byte])) [0, 0, 0, 0] \<and>
    pcount (stream_buf st) = int (min (4 - 2) (length [72, 105, 33 :: byte])) \<and> stream_ctr st = 7"
  by (rule stream_put_bounds) simp

text \<open>The first \<open>pcount()\<close> bytes of \<open>str()\<close> are what is left of the text.\<close>

lemma stream_put_str:
  assumes "stream_put cs (new_LogStream buf (int (length buf)) ctr) = Inr st"
  shows "take (nat (LogStream_pcount st)) (LogStream_str st) = take (length buf - 2) cs"
  using stream_put_bounds [OF refl, of cs buf ctr] assms
  by (auto simp: LogStream_pcount_def LogStream_str_def LogStream_pbase_def min_def)

lemma NullStream_dropped:
  "length b = 2 \<Longrightarrow> stream_put cs (NullStream_stream b) = Inr (NullStream_stream b)"
  by (simp add: NullStream_stream_def stream_put_def new_LogStream_def LogStreamBuf_def sputn_full)

subsection \<open>Containers\<close>

text \<open>
  \<open>PrintSequence\<close>, for elements printed by \<open>show\<close>: the loop with its counter gives its output and the
  elements it has not reached.
\<close>

fun print_loop :: "('a \<Rightarrow> string) \<Rightarrow> nat \<Rightarrow> 'a list \<Rightarrow> string \<times> 'a list" where
  "print_loop show i [] = ('''', [])"
| "print_loop show i (x # xs) =
     (if i < 100 then
        let (out, rest) = print_loop show (i + 1) xs
        in ((if 0 < i then '' '' else '''') @ show x @ out, rest)
      else ('''', x # xs))"

definition PrintSequence :: "('a \<Rightarrow> string) \<Rightarrow> 'a list \<Rightarrow> string" where
  "PrintSequence show xs =
     (let (out, rest) = print_loop show 0 xs in out @ (if rest \<noteq> [] then '' ...'' else ''''))"

definition print_pair :: "('a \<Rightarrow> string) \<Rightarrow> ('b \<Rightarrow> string) \<Rightarrow> 'a \<times> 'b \<Rightarrow> string" where
  "print_pair show1 show2 p = ''('' @ show1 (fst p) @ '', '' @ show2 (snd p) @ '')''"

text \<open>
  The operators the four macros define: for vectors, deques and lists in their order, for sets,
  multisets and maps in ascending order of the elements or keys.
\<close>

definition print_vector :: "('a \<Rightarrow> string) \<Rightarrow> 'a list \<Rightarrow> string" where
  "print_vector show seq = PrintSequence show seq"

definition print_set :: "('a::linorder \<Rightarrow> string) \<Rightarrow> 'a set \<Rightarrow> string" where
  "print_set show s = PrintSequence show (sorted_list_of_set s)"

definition print_multiset :: "('a::linorder \<Rightarrow> string) \<Rightarrow> 'a multiset \<Rightarrow> string" where
  "print_multiset show s = PrintSequence show (sorted_list_of_multiset s)"

definition print_map :: "('k::linorder \<Rightarrow> string) \<Rightarrow> ('v \<Rightarrow> string) \<Rightarrow> ('k \<Rightarrow> 'v option) \<Rightarrow> string" where
  "print_map show1 show2 m =
     PrintSequence (print_pair show1 show2) (map (\<lambda>k. (k, the (m k))) (sorted_list_of_set (dom m)))"

text \<open>
  The containers without an order of their own, multimaps, whose order depends on the insertions, and the
  compiler's extensions are printed in the order in which their iterators give the elements, which is a parameter.
\<close>

definition print_unordered_set :: "('c \<Rightarrow> 'a list) \<Rightarrow> ('a \<Rightarrow> string) \<Rightarrow> 'c \<Rightarrow> string" where
  "print_unordered_set iterate show s = PrintSequence show (iterate s)"

definition print_unordered_map ::
  "('c \<Rightarrow> ('k \<times> 'v) list) \<Rightarrow> ('k \<Rightarrow> string) \<Rightarrow> ('v \<Rightarrow> string) \<Rightarrow> 'c \<Rightarrow> string" where
  "print_unordered_map iterate show1 show2 m = PrintSequence (print_pair show1 show2) (iterate m)"

text \<open>The reference: the texts of the elements with blanks between them.\<close>

fun spaced :: "string list \<Rightarrow> string" where
  "spaced [] = ''''"
| "spaced [t] = t"
| "spaced (t # u # ts) = t @ '' '' @ spaced (u # ts)"

lemma spaced_Cons: "spaced (t # ts) = t @ concat (map (\<lambda>u. '' '' @ u) ts)"
  by (induction ts arbitrary: t) simp_all

lemma print_loop_later:
  "0 < i \<Longrightarrow> print_loop show i xs =
     (concat (map (\<lambda>x. '' '' @ show x) (take (100 - i) xs)), drop (100 - i) xs)"
proof (induction xs arbitrary: i)
  case (Cons x xs)
  show ?case
  proof (cases "i < 100")
    case True
    then obtain k where k: "100 - i = Suc k" by (metis zero_less_diff gr0_implies_Suc)
    then have "99 - i = k" by simp
    with k Cons.IH [of "i + 1"] True Cons.prems show ?thesis by simp
  qed simp
qed simp

lemma print_loop_first:
  "print_loop show 0 xs = (spaced (map show (take 100 xs)), drop 100 xs)"
proof (cases xs)
  case (Cons x ys)
  have "take 100 xs = x # take 99 ys" and "drop 100 xs = drop 99 ys"
    using Cons by (simp_all add: take_Cons' drop_Cons')
  then show ?thesis
    using Cons print_loop_later [of 1 "show" ys] by (simp add: spaced_Cons comp_def del: append_Cons)
qed simp

text \<open>A container is printed as its first hundred elements with blanks between them, followed by dots exactly
  if it has more.\<close>

theorem PrintSequence_result:
  "PrintSequence show xs = spaced (map show (take 100 xs)) @ (if 100 < length xs then '' ...'' else '''')"
  by (simp add: PrintSequence_def print_loop_first)

text \<open>A set is printed the same whatever the order of insertion.\<close>

lemma print_set_of_list:
  "print_set show (set xs) = spaced (map show (take 100 (sort (remdups xs)))) @
     (if 100 < card (set xs) then '' ...'' else '''')"
  by (simp add: print_set_def PrintSequence_result sorted_list_of_set_sort_remdups length_remdups_card_conv)

lemma print_multiset_of_list: "print_multiset show (mset xs) = print_vector show (sort xs)"
  by (simp add: print_multiset_def print_vector_def sorted_list_of_multiset_mset)

text \<open>An unordered set is printed as a vector of its elements, each of them once if it has at most a hundred.\<close>

lemma print_unordered_set_elements:
  assumes "distinct (iterate s)" and "set (iterate s) = A" and "card A \<le> 100"
  shows "\<exists>xs. distinct xs \<and> set xs = A \<and> print_unordered_set iterate show s = spaced (map show xs)"
  using assms distinct_card [OF assms(1)]
  by (intro exI [of _ "iterate s"]) (simp add: print_unordered_set_def PrintSequence_result)

end
