(* ===== verification/MockLog.thy ===== *)
theory MockLog
  imports Prelude Logging "HOL-Library.Sublist"
begin

section \<open>Intercepted log messages: \<open>glog/mock-log.h\<close>\<close>

text \<open>
  A \<open>ScopedMockLog\<close> is a sink. The library calls \<open>send\<close> for each message, under its lock, and then, in
  the same thread and without the lock, \<open>WaitTillSent\<close>, which hands a copy of the saved message to the
  mock method \<open>Log\<close>; the list of the calls of \<open>Log\<close> is the model of that method. The message is saved
  in one field, \<open>message_info_\<close>, whatever thread sends.
  As it stands \<open>ScopedMockLog::send\<close> lacks the parameter for the function name that \<open>LogSink::send\<close> was
  given: it overrides nothing and no object of the class can be made. The model takes it for the
  override it is meant to be.
\<close>

record MessageInfo =
  mi_severity :: LogSeverity
  mi_file_path :: string
  mi_message :: string

lemma MessageInfo_eta [simp]:
  "\<lparr>mi_severity = mi_severity i, mi_file_path = mi_file_path i, mi_message = mi_message i\<rparr> = (i :: MessageInfo)"
  by (cases i) simp

record mock =
  message_info :: MessageInfo
  log_calls :: "(nat \<times> MessageInfo) list"

definition mock_send :: "LogSeverity \<Rightarrow> string \<Rightarrow> string \<Rightarrow> mock \<Rightarrow> mock" where
  "mock_send sev full_filename message m =
     m\<lparr>message_info := \<lparr>mi_severity = sev, mi_file_path = full_filename, mi_message = message\<rparr>\<rparr>"

definition mock_Log :: "nat \<Rightarrow> LogSeverity \<Rightarrow> string \<Rightarrow> string \<Rightarrow> mock \<Rightarrow> mock" where
  "mock_Log thread sev file_path message m =
     m\<lparr>log_calls := log_calls m @
       [(thread, \<lparr>mi_severity = sev, mi_file_path = file_path, mi_message = message\<rparr>)]\<rparr>"

definition WaitTillSent :: "nat \<Rightarrow> mock \<Rightarrow> mock" where
  "WaitTillSent thread m =
     (let info = message_info m
      in mock_Log thread (mi_severity info) (mi_file_path info) (mi_message info) m)"

text \<open>
  The object starts to intercept messages when it is constructed and stops when it is destructed. The functions
  that add a sink to the consumers of log messages and remove it are the library's.
\<close>

definition ScopedMockLog :: "('sink \<Rightarrow> 'lib \<Rightarrow> 'lib) \<Rightarrow> 'sink \<Rightarrow> 'lib \<Rightarrow> 'lib" where
  "ScopedMockLog AddLogSink this lib = AddLogSink this lib"

definition ScopedMockLog_destructor :: "('sink \<Rightarrow> 'lib \<Rightarrow> 'lib) \<Rightarrow> 'sink \<Rightarrow> 'lib \<Rightarrow> 'lib" where
  "ScopedMockLog_destructor RemoveLogSink this lib = RemoveLogSink this lib"

text \<open>During its life, whatever is logged, it is a consumer; afterwards there are those that were there before.\<close>

lemma ScopedMockLog_scope:
  assumes "\<And>x l. consumers (AddLogSink x l) = insert x (consumers l)"
    and "\<And>x l. consumers (RemoveLogSink x l) = consumers l - {x}"
    and "this \<notin> consumers lib" and "consumers (body (ScopedMockLog AddLogSink this lib)) = consumers (ScopedMockLog AddLogSink this lib)"
  shows "this \<in> consumers (ScopedMockLog AddLogSink this lib)"
    and "consumers (ScopedMockLog_destructor RemoveLogSink this (body (ScopedMockLog AddLogSink this lib))) = consumers lib"
  using assms(3,4) by (simp_all add: ScopedMockLog_def ScopedMockLog_destructor_def assms(1,2))

text \<open>
  The methods of \<open>LogSink\<close> that are not left to the derived class: the \<open>send\<close> the library calls, with the
  microseconds, hands on all other arguments to the obsolete one, and the obsolete \<open>ToString\<close> calls the
  present one with no microseconds. Only the arguments the mock uses are kept apart; \<open>'i\<close> stands for the
  function name, the base name of the file, the line and the time.
\<close>

definition LogSink_send ::
  "(LogSeverity \<Rightarrow> string \<Rightarrow> 'i \<Rightarrow> string \<Rightarrow> nat \<Rightarrow> 's \<Rightarrow> 's) \<Rightarrow>
   LogSeverity \<Rightarrow> string \<Rightarrow> 'i \<Rightarrow> string \<Rightarrow> nat \<Rightarrow> int \<Rightarrow> 's \<Rightarrow> 's" where
  "LogSink_send send sev full_filename info message message_len usecs =
     send sev full_filename info message message_len"

definition LogSink_ToString ::
  "(LogSeverity \<Rightarrow> string \<Rightarrow> 'i \<Rightarrow> string \<Rightarrow> nat \<Rightarrow> int \<Rightarrow> string) \<Rightarrow>
   LogSeverity \<Rightarrow> string \<Rightarrow> 'i \<Rightarrow> string \<Rightarrow> nat \<Rightarrow> string" where
  "LogSink_ToString ToString sev file info message message_len =
     ToString sev file info message message_len 0"

text \<open>
  With the mock's \<open>send\<close> as the obsolete one, a call of the library saves the first \<open>message_len\<close> bytes of the
  message; \<open>WaitTillSent\<close> in the same thread gives them to \<open>Log\<close>.
\<close>

definition mock_obsolete_send :: "LogSeverity \<Rightarrow> string \<Rightarrow> 'i \<Rightarrow> string \<Rightarrow> nat \<Rightarrow> mock \<Rightarrow> mock" where
  "mock_obsolete_send sev full_filename info message message_len =
     mock_send sev full_filename (take message_len message)"

lemma LogSink_send_mock:
  "log_calls (WaitTillSent t (LogSink_send mock_obsolete_send sev file info message n usecs m)) =
     log_calls m @ [(t, \<lparr>mi_severity = sev, mi_file_path = file, mi_message = take n message\<rparr>)]"
  by (simp add: LogSink_send_def mock_obsolete_send_def mock_send_def WaitTillSent_def mock_Log_def Let_def)

text \<open>Threads that log: each sends a message and then waits.\<close>

record mock_sys =
  the_mock :: mock
  mock_pending :: "nat \<Rightarrow> MessageInfo option"
  mock_sent :: "(nat \<times> MessageInfo) list"

datatype mock_label =
    M_Send nat MessageInfo
  | M_Wait nat

inductive mock_step :: "mock_sys \<Rightarrow> mock_label \<Rightarrow> mock_sys \<Rightarrow> bool" where
  send: "mock_pending s t = None \<Longrightarrow>
    mock_step s (M_Send t i)
      (s\<lparr>the_mock := mock_send (mi_severity i) (mi_file_path i) (mi_message i) (the_mock s),
         mock_pending := (mock_pending s)(t := Some i), mock_sent := mock_sent s @ [(t, i)]\<rparr>)"
| wait: "mock_pending s t = Some i \<Longrightarrow>
    mock_step s (M_Wait t)
      (s\<lparr>the_mock := WaitTillSent t (the_mock s), mock_pending := (mock_pending s)(t := None)\<rparr>)"

inductive_cases mock_sendE: "mock_step s (M_Send t i) s'"
inductive_cases mock_waitE: "mock_step s (M_Wait t) s'"

definition mock_start :: "MessageInfo \<Rightarrow> mock_sys" where
  "mock_start i =
     \<lparr>the_mock = \<lparr>message_info = i, log_calls = []\<rparr>, mock_pending = (\<lambda>_. None), mock_sent = []\<rparr>"

text \<open>With a single thread, \<open>Log\<close> is called for each message, in order, with what was logged.\<close>

definition only_thread :: "nat \<Rightarrow> mock_label \<Rightarrow> bool" where
  "only_thread t l \<longleftrightarrow> (case l of M_Send u _ \<Rightarrow> u = t | M_Wait u \<Rightarrow> u = t)"

definition mock_inv :: "nat \<Rightarrow> mock_sys \<Rightarrow> bool" where
  "mock_inv t s \<longleftrightarrow>
     (case mock_pending s t of
        None \<Rightarrow> log_calls (the_mock s) = mock_sent s
      | Some i \<Rightarrow> message_info (the_mock s) = i \<and> log_calls (the_mock s) @ [(t, i)] = mock_sent s)"

interpretation mocked: step_invariant mock_step "only_thread t" "mock_inv t" for t
proof
  fix s l s'
  assume inv: "mock_inv t s" and step: "mock_step s l s'" and l: "only_thread t l"
  from step show "mock_inv t s'"
  proof cases
    case (send u i)
    with inv l show ?thesis by (simp add: mock_inv_def only_thread_def mock_send_def)
  next
    case (wait u i)
    with inv l show ?thesis by (simp add: mock_inv_def only_thread_def WaitTillSent_def mock_Log_def Let_def)
  qed
qed

lemma mock_faithful:
  assumes "reachable mock_step (only_thread t) (mock_start i) s" and "mock_pending s t = None"
  shows "log_calls (the_mock s) = mock_sent s"
  using mocked.reachable_inv [OF assms(1)] assms(2) by (simp add: mock_inv_def mock_start_def)

text \<open>Two threads that log at the same time can have their messages mixed up: both have sent a message and
  waited for it, and \<open>Log\<close> has been called twice with the second message and never with the first.\<close>

theorem mock_mixes_threads:
  "\<exists>s. reachable mock_step (\<lambda>_. True) (mock_start i0) s \<and> mock_sent s = [(0, a), (1, b)] \<and>
     mock_pending s 0 = None \<and> mock_pending s 1 = None \<and> log_calls (the_mock s) = [(0, b), (1, b)]"
proof -
  let ?I = "\<lambda>_ :: mock_label. True"
  let ?s1 = "(mock_start i0)\<lparr>the_mock := mock_send (mi_severity a) (mi_file_path a) (mi_message a) (the_mock (mock_start i0)),
    mock_pending := (mock_pending (mock_start i0))(0 := Some a), mock_sent := mock_sent (mock_start i0) @ [(0, a)]\<rparr>"
  let ?s2 = "?s1\<lparr>the_mock := mock_send (mi_severity b) (mi_file_path b) (mi_message b) (the_mock ?s1),
    mock_pending := (mock_pending ?s1)(1 := Some b), mock_sent := mock_sent ?s1 @ [(1, b)]\<rparr>"
  let ?s3 = "?s2\<lparr>the_mock := WaitTillSent 0 (the_mock ?s2), mock_pending := (mock_pending ?s2)(0 := None)\<rparr>"
  let ?s4 = "?s3\<lparr>the_mock := WaitTillSent 1 (the_mock ?s3), mock_pending := (mock_pending ?s3)(1 := None)\<rparr>"
  have "mock_step (mock_start i0) (M_Send 0 a) ?s1" by (rule mock_step.send) (simp add: mock_start_def)
  then have "reachable mock_step ?I (mock_start i0) ?s1" by (rule reachable.step [OF reachable.start]) simp
  moreover have "mock_step ?s1 (M_Send 1 b) ?s2" by (rule mock_step.send) (simp add: mock_start_def)
  ultimately have "reachable mock_step ?I (mock_start i0) ?s2" by (rule reachable.step) simp
  moreover have "mock_step ?s2 (M_Wait 0) ?s3" by (rule mock_step.wait) simp
  ultimately have "reachable mock_step ?I (mock_start i0) ?s3" by (rule reachable.step) simp
  moreover have "mock_step ?s3 (M_Wait 1) ?s4" by (rule mock_step.wait) simp
  ultimately have "reachable mock_step ?I (mock_start i0) ?s4" by (rule reachable.step) simp
  moreover have "log_calls (the_mock ?s4) = [(0, b), (1, b)]"
    by (simp add: mock_start_def mock_send_def WaitTillSent_def mock_Log_def Let_def)
  ultimately show ?thesis by (intro exI [of _ ?s4]) (simp add: mock_start_def)
qed

end
