(* ===== verification/Spec2Isabelle.thy ===== *)
theory Spec2Isabelle
  imports ServerProperties ProtocolThreads RawLog LogChecks LogStreams MockLog
begin

text \<open>
  This library verifies a message server and its client: an \<open>epoll\<close> server that reads length-prefixed
  requests from Unix sockets, cuts each client's byte stream into messages, has them processed by a pool
  of threads and sends the answers back, and a client program that sends one request per thread. Paths are
  relative to \<open>src\<close>.

  \<^bold>\<open>The program.\<close> \<open>server/server.cpp\<close> builds a \<open>socketUnix\<close> and a \<open>taskController\<close>, registers the controller
  as the socket's listener and starts the socket. \<open>socketBase\<close> runs three threads on one \<open>epoll\<close> instance:
  the listen thread accepts clients, the receive thread calls \<open>onRecv\<close> of the controller for the bytes
  that arrive, the send thread passes queued data to the kernel. \<open>makeNewTask\<close> of the controller collects
  the bytes of each client until a message is complete and adds it as a task to \<open>threadPool\<close>, whose
  threads call \<open>onTaskProcessor\<close>; that parses the request, builds the answer and queues it with
  \<open>socketBase::send\<close>. \<open>client/clientMain.cpp\<close> starts fifty threads; each builds a request, sends it with
  \<open>socketClient::doConnect\<close>, which collects the response, and parses that.

  \<^bold>\<open>Theories\<close>, in the order of their dependencies; the name of a definition is that of the function, type
  or field it models:

  \<^item> \<open>Prelude\<close>: machine types, faults and results, arrays of bytes that may be uninitialised, fields of
    fixed width (locales \<open>field_codec\<close>, \<open>exact_codec\<close>, \<open>codec_pair\<close>), reachability and invariants of
    labelled transition systems (locales \<open>step_invariant\<close> and \<open>step_projection\<close>).
  \<^item> \<open>HexChar\<close>: \<open>utility/hexChar.c\<close>. \<open>Protocol\<close>: \<open>protocol/protocol.cpp\<close>, its four message formats, its
    parsers and the message counter. \<open>ProtocolThreads\<close>: its accessors and the counter with threads that
    interleave.
  \<^item> \<open>ThreadPool\<close>: \<open>server/threadPool/threadpool.cpp\<close> as a step relation. A worker (\<open>threadfun\<close>) and a
    caller of the pool's operations each have a program counter (\<open>wpc\<close>, \<open>cpc\<close>); one step is one access to
    shared state or one critical section of a worker. \<open>sys\<close> is the pool, the mutex, all threads ever
    created, the callers, and histories of the tasks added, taken and run. \<open>ThreadPoolDrain\<close>: a thread
    in its loop empties the queue. \<open>ThreadPoolExit\<close>: the destructor of the server's controller.
  \<^item> \<open>ThreadPoolInv\<close>, \<open>ThreadPoolBound\<close>, \<open>ThreadPoolRuns\<close>: its invariants (mutual exclusion, the counted
    threads, the bound on threads, the order of tasks, a caller stuck in a join).
    \<open>AddTask\<close>: \<open>addTask\<close> as a function, and that the step relation carries out exactly this (locale
    \<open>task_sink\<close>).
    \<open>PoolProperties\<close>: the properties of the pool and concrete runs that show its defects.
  \<^item> \<open>Kernel\<close>: the operating system as a tape of answers and a list of the calls made.
  \<^item> \<open>SocketBase\<close>: \<open>server/socket/socketBase.cpp\<close>, the operations and the three thread functions, the last
    for any listener that keeps a contract (locale \<open>socket_listener\<close>). \<open>SendQueue\<close>: the send queue with
    its threads interleaving (locales \<open>outbox\<close>, \<open>fifo\<close>). \<open>SockAddr\<close>: the Unix, IPv4 and IPv6 sockets.
  \<^item> \<open>TaskController\<close>: \<open>makeNewTask\<close> and \<open>onRecv\<close> of \<open>server/taskController.cpp\<close>, against any pool that
    accepts tasks (locale \<open>controller_sink\<close>, interpreted with \<open>addTask\<close> as \<open>server_sink\<close>), and
    \<open>split_frames\<close>, the specification of the messages in a byte stream. \<open>Reassembly\<close>: that the controller
    refines that specification, and its safety. \<open>ReceiveThread\<close>: the same for the whole receive
    thread against the kernel. \<open>TaskProcessor\<close>: \<open>onTaskProcessor\<close>.
  \<^item> \<open>SocketClient\<close>: \<open>client/socketClient.cpp\<close>. \<open>Programs\<close>: the two \<open>main\<close> functions.
  \<^item> \<open>Logging\<close>, \<open>LogMacros\<close>, \<open>LogCounters\<close>, \<open>LogChecks\<close>, \<open>LogStreams\<close>, \<open>RawLog\<close>, \<open>MockLog\<close>: the log levels of
    \<open>utility/seclog.h\<close> and the executable parts of the logging library's headers in
    \<open>utility/lib/glog/include/glog\<close>, which this repository has changed.
  \<^item> \<open>Server\<close>: the running server, with the receive thread, the workers, the send thread and the listen thread
    interleaved; its pool and its socket are the systems of \<open>ThreadPool\<close> and \<open>SendQueue\<close> (two
    interpretations of \<open>step_projection\<close>). \<open>ServerRuns\<close>: the invariant that ties the bytes received, the
    tasks, the calls of \<open>onTaskProcessor\<close> and the queues of the socket together. \<open>ServerAnswers\<close>: which
    answers have been queued. \<open>ServerLive\<close>: runs of the pool carried over to the server, up to a state in
    which everything received has been answered. \<open>ServerProperties\<close>: the properties of the running server.
  \<^item> This theory: the clients of the client program together with the running server.

  \<^bold>\<open>What the properties show.\<close> Two conditions recur. A byte stream is \<^emph>\<open>admissible\<close> (\<open>streams_ok\<close>) if every
  \<open>recv\<close> ends outside a length field, no length field is 0 and no message is longer than a bound \<open>M\<close> up to
  which allocations are granted; without it the code misreads lengths (\<open>length_field_cut\<close>), reads past its
  buffer (\<open>length_field_past_buffer\<close>) or hangs (\<open>zero_length_hangs\<close>). Without any condition on the bytes,
  results hold for the tasks the controller has cut, if allocations above \<open>M\<close> are refused.

  End to end, with admissible streams: a client that has sent its request finds nothing or exactly its
  response on its connection, whatever else goes on in the server (\<open>exchange\<close>), and any number of clients
  whose requests arrive interleaved can all be given their responses (\<open>clients_served\<close>). The running server,
  when it is settled, has answered everything a client has sent exactly once (\<open>every_message_answered\<close>), and at
  any time at most once (\<open>answered_at_most_once\<close>): the tasks cut for any bytes, the complete messages for
  admissible streams. There is always a way to get there as long as one worker is in its loop
  (\<open>server_can_answer\<close>). No bytes make a worker fail, and the receive thread fails only by a refused allocation
  or, on a \<open>recv\<close> of more than 32765 bytes, by a read past its buffer (\<open>server_never_faults\<close>,
  \<open>receive_thread_safe\<close>). The controller: for admissible streams the tasks of a client are its complete
  messages (\<open>streams_reassembled\<close>, \<open>receive_thread_messages\<close>). \<open>onTaskProcessor\<close>: the exact response to every
  message (\<open>request_answer\<close>). The pool: tasks are taken in order and run once, the count of threads is exact,
  their number is bounded if they start in time, and any of them can empty the queue; \<open>addTask\<close> does what
  its function says in every run of its caller and its new thread; a release that waits for a live thread
  never returns, in particular at the error exits of the server, and a task can be stranded. The send
  queue: order, completeness, and a refinement of the send thread. The protocol and the hexadecimal dump:
  round trips, and exactly where the parsers leave their buffers; one shared object, but a counter that is
  not safe for threads. The client: it collects one response in any pieces, if the first has at least four
  bytes. The log macros: the counting statements meet one specification, checks end, raw logging misses its
  severities.

  \<^bold>\<open>Conventions.\<close> Machine integers keep their width as words; \<open>int\<close> of C is an integer where its range
  is respected, with the wrap-around written out or a fault where it is not. A buffer is a list of cells,
  \<open>None\<close> for a byte not yet written, and reading or writing outside it is a value of the type \<open>fault\<close>, as
  are a refused allocation, an exception of \<open>std::string\<close> and waiting for a kernel that has no more
  answers (\<open>Blocked\<close>). \<open>can_alloc\<close> says which sizes \<open>new\<close> grants. No recursion uses fuel: \<open>makeNewTask\<close> may
  not return and is a partial function with the value \<open>None\<close> for that; \<open>split_frames\<close>, the receive loop
  of the client and the event loops terminate because they consume bytes or answers of the tape.

  \<^bold>\<open>Assumptions.\<close> Little-endian 32-bit \<open>int\<close>, as on the machines the program is built for. The pool's
  mutex is a lock without fairness. \<open>cond.wait_for\<close> may return at any time. Objects are compared with
  the C++ abstract machine only as far as the definitions say; the order of accesses is sequentially
  consistent. A client of the running server is its descriptor, as in the code, which has no other name for
  it: when the kernel gives a closed one to a new client, the bytes of both are one stream, which is what the
  code makes of them (\<open>m_recvList\<close> is never cleared, \<open>stale_bytes_hang\<close>), and answers still due to the first
  are sent to the second (\<open>late_answers\<close>). \<open>inet_addr\<close> and the compiled parts of the logging library are
  parameters.

  \<^bold>\<open>Not modelled.\<close> The second branch of \<open>createNewThread\<close> (a thread given by the caller: there is no such
  caller); \<open>usleep\<close> and other durations; the contents of log lines apart from the dumps; the release of
  memory (the program deletes arrays with \<open>delete\<close> and never deletes \<open>taskData\<close>). Of the logging library,
  everything that is only declared in the headers (its code is not in the repository) and the macros for Windows; build files; the outdated test program in
  \<open>server/threadPool/mainTPTest.md\<close>.
\<close>

section \<open>The whole program\<close>

subsection \<open>Requests that arrive in pieces\<close>

lemma prefix_cut_ok:
  assumes "is_frame f" and "length f \<le> M" and "q @ r = f" and "q = [] \<or> 4 \<le> length q"
  shows "cut_ok M q"
proof (cases "q = []")
  case True
  then show ?thesis by (simp add: cut_ok_def bounded_by_def)
next
  case False
  then have len: "4 \<le> length q" using assms(4) by simp
  have fl: "frame_len q = length f"
    using assms(1) frame_len_append [OF len, of r] assms(3) by (simp add: is_frame_def)
  show ?thesis
  proof (cases "r = []")
    case True
    then have "split_frames q = Some ([f], [])"
      using assms(1,3) split_frames_concat [of "[f]"] by simp
    with assms(2) show ?thesis by (simp add: cut_ok_def bounded_by_def)
  next
    case r: False
    then have "length q < frame_len q" using assms(3) fl by auto
    with False len have "split_frames q = Some ([], q)" by (intro split_frames_partial)
    with fl assms(2) show ?thesis by (simp add: cut_ok_def bounded_by_def)
  qed
qed

text \<open>The pieces of one client among all that arrive.\<close>

definition pieces_of :: "int \<Rightarrow> (int \<times> byte list) list \<Rightarrow> byte list list" where
  "pieces_of c evs = map snd (filter (\<lambda>e. fst e = c) evs)"

lemma pieces_of_simps [simp]:
  "pieces_of c [] = []"
  "pieces_of c (xs @ ys) = pieces_of c xs @ pieces_of c ys"
  "pieces_of c (map (Pair b) chs) = (if b = c then chs else [])"
  by (simp_all add: pieces_of_def filter_map comp_def)

lemma stream_of_pieces: "stream_of c evs = concat (pieces_of c evs)"
  by (simp add: stream_of_def pieces_of_def)

lemma sender: "pieces_of c evs \<noteq> [] \<Longrightarrow> c \<in> fst ` set evs"
  by (auto simp: pieces_of_def filter_empty_conv)

text \<open>Any number of clients, each with one message whose first piece has at least four bytes.\<close>

lemma requests_stream_ok:
  assumes "list_all recv_ok evs"
    and "\<And>c. c \<in> fst ` set evs \<Longrightarrow>
      is_frame (stream_of c evs) \<and> length (stream_of c evs) \<le> M \<and> 4 \<le> length (hd (pieces_of c evs))"
  shows "streams_ok M evs"
  unfolding streams_ok_def
proof (intro conjI ballI assms(1))
  fix n b
  assume "b \<in> fst ` set evs"
  note b = assms(2) [OF this]
  have parts: "pieces_of b (take n evs) @ pieces_of b (drop n evs) = pieces_of b evs"
    by (simp flip: pieces_of_simps(2))
  then have whole: "stream_of b (take n evs) @ stream_of b (drop n evs) = stream_of b evs"
    by (simp only: stream_of_pieces flip: concat_append)
  have "stream_of b (take n evs) = [] \<or> 4 \<le> length (stream_of b (take n evs))"
  proof (cases "pieces_of b (take n evs)")
    case (Cons x xs)
    with parts have "hd (pieces_of b evs) = x" by (metis append_Cons list.sel(1))
    with b Cons show ?thesis by (simp add: stream_of_pieces)
  qed (simp add: stream_of_pieces)
  with b whole show "cut_ok M (stream_of b (take n evs))" by (intro prefix_cut_ok [OF _ _ whole]) simp_all
qed

lemma client_request_is_frame: "is_frame (client_request m)"
proof -
  have "take 4 (client_request m) = le32 (word_of_nat 1048592)"
    by (simp add: client_request_def request_bytes_def cmd_size_nat)
  then show ?thesis
    using unat32_of_nat [of 1048592] by (simp add: is_frame_def frame_len_def client_request_frame)
qed

subsection \<open>Cutting a stream\<close>

text \<open>The pieces of a byte string, \<open>n\<close> bytes each but the last.\<close>

fun chunks :: "nat \<Rightarrow> 'a list \<Rightarrow> 'a list list" where
  "chunks n [] = []"
| "chunks n (x # xs) = (x # take (n - 1) xs) # chunks n (drop (n - 1) xs)"

lemma concat_chunks: "concat (chunks n xs) = xs"
  by (induction n xs rule: chunks.induct) simp_all

lemma chunks_bounded: "list_all (\<lambda>c. c \<noteq> [] \<and> length c \<le> Suc n) (chunks (Suc n) xs)"
  by (induction "Suc n" xs rule: chunks.induct) simp_all

lemma hd_chunks: "xs \<noteq> [] \<Longrightarrow> 0 < n \<Longrightarrow> hd (chunks n xs) = take n xs"
  by (cases xs; cases n) simp_all

lemma hd_request_chunks: "3 \<le> n \<Longrightarrow> 4 \<le> length (hd (chunks (Suc n) (client_request m)))"
  using client_request_frame [of m] by (subst hd_chunks) auto

lemma chunks_recv_ok: "list_all recv_ok (map (Pair c) (chunks 32768 xs))"
  using chunks_bounded [of 32767 xs] by (auto simp: list_all_iff recv_ok_def SOCKET_RECV_BUFFER_LEN_def)

subsection \<open>The answer to the client\<close>

text \<open>The request is one complete message, and the server has one answer to it.\<close>

lemma client_request_answers:
  assumes "0 < c"
  shows "stream_answers c (client_request m) =
    [\<lparr>sd_clientId = c, sd_databuf = response_bytes m EAC_API1 (api_data 65), sd_len = 1044\<rparr>]"
proof -
  let ?body = "replicate (unat cmd_size) (65 :: byte)"
  let ?d = "\<lparr>m_clientId = c, m_databuf = map Some (client_request m),
    m_len = word_of_nat (length (client_request m)), m_curLen = 0\<rparr>"
  have len: "16 + length ?body = 1048592" by (simp add: cmd_size_nat)
  have "m_databuf ?d = map Some (request_bytes m EAC_API1 ?body)" by (simp add: client_request_def)
  moreover have "m_len ?d = word_of_nat (16 + length ?body)" unfolding len by (simp add: client_request_frame)
  moreover have "16 + length ?body < 2 ^ 32" unfolding len by simp
  ultimately have "answer_to ?d =
      [\<lparr>sd_clientId = c, sd_databuf = response_bytes m EAC_API1 (api_data 65), sd_len = 1044\<rparr>]"
    using answer_of_request [of ?d m EAC_API1 ?body] assms by (simp add: api_fill_def)
  moreover have "frames_of (client_request m) = [client_request m]"
    using split_frames_concat [of "[client_request m]"] client_request_is_frame by (simp add: frames_of_def)
  ultimately show ?thesis by (simp add: stream_answers_def message_answer_def)
qed

lemma mset_sub_single: "mset xs \<subseteq># {#x#} \<Longrightarrow> xs = [] \<or> xs = [x]"
  using size_mset_mono [of "mset xs" "{#x#}"] by (cases xs) simp_all

text \<open>What a client that has sent one request finds on the wire.\<close>

lemma one_response:
  assumes "reachable (server_step can_alloc) (sends_whole c) (server_start sfd efd) s"
    and "grants can_alloc M" and "1044 \<le> M" and "M + 2 ^ 15 < 2 ^ 32" and "streams_ok M (s_recvs s)"
    and "stream_of c (s_recvs s) = client_request m" and "0 < c"
  shows "wire (s_net s) c = [] \<and> \<not> (settled s \<and> in_flight (s_net s) c = []) \<or>
    wire (s_net s) c = response_bytes m EAC_API1 (api_data 65)"
proof -
  let ?n = "s_net s" and ?d = "\<lparr>sd_clientId = c, sd_databuf = response_bytes m EAC_API1 (api_data 65), sd_len = 1044\<rparr>"
  have g: "grants can_alloc 1044" using assms(2,3) by (auto simp: grants_def)
  note inv = server_reachable_inv [OF assms(1) g]
  note made = server_made_ok [OF inv assms(2,4,5)]
  have bytes: "bytes_inv c ?n"
    using whole_part.part_reachable [OF assms(1)] inv_start(3) unfolding net_started by (rule bytes.reachable_inv)
  have "reachable (server_step can_alloc) (keeps_client c) (server_start sfd efd) s"
    using assms(1) sends_keeps by (rule reachable_mono)
  from kept_part.part_reachable [OF this] have parts: "handed ?n c @ in_flight ?n c = pushed ?n c"
    using stream.reachable_inv [OF _ inv_start(2)] by (simp add: net_started stream_inv_def)
  have ans: "stream_answers c (stream_of c (s_recvs s)) = [?d]"
    unfolding assms(6) by (rule client_request_answers [OF assms(7)])
  have "pushed ?n c = [] \<or> pushed ?n c = [?d]"
    using pushed_made(1) [OF inv made, of c] unfolding made_answers [OF inv assms(2,4,5)] ans by (intro mset_sub_single) simp
  moreover have "pushed ?n c = [?d]" if "settled s"
    using pushed_made(2) [OF inv made that, of c] unfolding made_answers [OF inv assms(2,4,5)] ans by simp
  ultimately show ?thesis
    using parts bytes by (cases "in_flight ?n c") (auto simp: bytes_inv_def append_eq_Cons_conv)
qed


text \<open>A client that receives the response of its request, in any pieces, reports success.\<close>

lemma client_reply:
  assumes "fd \<noteq> - 1" and "0 < sent"
    and "concat ps = response_bytes m EAC_API1 (api_data 65)" and "list_all piece_ok ps" and "4 \<le> length (hd ps)"
  shows "\<exists>prot' w'. createClient t prot (client_kernel fd sent ps) = Inr (Api_Result 0 (replicate 1024 65), prot', w') \<and>
    Sys_send fd (client_request (m_msgId prot + 1)) \<in> set (calls w')"
proof -
  have "20 + length (api_data 65) < 2 ^ 32" by (simp add: api_data_def)
  from createClient_success [OF assms this, of t prot] show ?thesis
    by (auto simp: api_data_def client_calls_def)
qed


subsection \<open>Properties\<close>



text \<open>C2: The whole program at work. Any number of clients of the client program send their requests to the
  server, in pieces of at most 32768 bytes that arrive in any order of the clients, the first piece of each
  with at least four bytes. From its start the server has a run, without waiting for anything but its own
  threads, in which it receives all of this, settles, and has sent every one of the clients the response
  to its request, with which that client, receiving it in any pieces, reports success and 1024 letters A.\<close>

theorem clients_served:
  assumes "grants can_alloc M" and "1048592 \<le> M" and "M + 2 ^ 15 < 2 ^ 32"
    and "list_all recv_ok evs"
    and "\<And>c. c \<in> fst ` set evs \<Longrightarrow> 0 < c \<and> c \<noteq> sfd \<and> 4 \<le> length (hd (pieces_of c evs)) \<and>
      stream_of c evs = client_request (m_msgId (prot c) + 1)"
    and "fd \<noteq> - 1" and "0 < sent"
  shows "\<exists>s. reachable (server_step can_alloc) undisturbed (server_start sfd efd) s \<and> s_recvs s = evs \<and> settled s \<and>
    (\<forall>c \<in> fst ` set evs.
      wire (s_net s) c = response_bytes (m_msgId (prot c) + 1) EAC_API1 (api_data 65) \<and>
      (\<forall>ps. concat ps = wire (s_net s) c \<and> list_all piece_ok ps \<and> 4 \<le> length (hd ps) \<longrightarrow>
        (\<exists>prot' w'. createClient t (prot c) (client_kernel fd sent ps) =
          Inr (Api_Result 0 (replicate 1024 65), prot', w'))))"
proof -
  let ?C = "fst ` set evs"
  have M: "1044 \<le> M" using assms(2) by simp
  have ok: "streams_ok M evs"
    using assms(2,5) by (intro requests_stream_ok assms(4)) (simp add: client_request_is_frame client_request_frame)
  have ne: "\<forall>e \<in> set evs. fst e \<noteq> sfd" and nC: "sfd \<notin> ?C" using assms(5) by force+
  obtain s where s: "reachable (server_step can_alloc) undisturbed (server_start sfd efd) s" "s_recvs s = evs"
    "settled s" "\<forall>c \<in> ?C. in_flight (s_net s) c = []"
    using full_run [OF assms(1) M assms(3) ok ne _ nC] by auto
  have w: "wire (s_net s) c = response_bytes (m_msgId (prot c) + 1) EAC_API1 (api_data 65)" if "c \<in> ?C" for c
  proof -
    have "reachable (server_step can_alloc) (sends_whole c) (server_start sfd efd) s"
      using s(1) undisturbed_client(2) by (rule reachable_mono)
    from one_response [OF this assms(1) M assms(3)] that assms(5) [OF that] ok s(2-4) show ?thesis by auto
  qed
  have "\<exists>prot' w'. createClient t (prot c) (client_kernel fd sent ps) = Inr (Api_Result 0 (replicate 1024 65), prot', w')"
    if "c \<in> ?C" "concat ps = wire (s_net s) c" "list_all piece_ok ps" "4 \<le> length (hd ps)" for c ps
    using client_reply [OF assms(6,7) _ that(3,4), of "m_msgId (prot c) + 1" t "prot c"] w [OF that(1)] that(2) by auto
  with s(1-3) w show ?thesis by blast
qed

text \<open>Two clients, one of which sends its first four bytes before and the rest after the request of the other.\<close>

theorem clients_served_witness:
  "\<exists>s. settled s \<and>
    s_recvs s = [(5, take 4 (client_request 1))] @ map (Pair 7) (chunks 32768 (client_request 2)) @
      map (Pair 5) (chunks 32768 (drop 4 (client_request 1))) \<and>
    wire (s_net s) 5 = response_bytes 1 EAC_API1 (api_data 65) \<and>
    wire (s_net s) 7 = response_bytes 2 EAC_API1 (api_data 65)"
proof -
  let ?evs = "[(5 :: int, take 4 (client_request 1))] @ map (Pair 7) (chunks 32768 (client_request 2)) @
      map (Pair 5) (chunks 32768 (drop 4 (client_request 1)))"
  let ?prot = "\<lambda>c :: int. initial_protocol\<lparr>m_msgId := if c = 5 then 0 else 1\<rparr>"
  have p5: "pieces_of 5 ?evs = take 4 (client_request 1) # chunks 32768 (drop 4 (client_request 1))"
    and p7: "pieces_of 7 ?evs = chunks 32768 (client_request 2)"
    by (simp_all only: pieces_of_simps) (simp_all add: pieces_of_def)
  have big: "1048592 \<le> memory_limit" by (simp add: memory_limit_def)
  have "recv_ok (5, take 4 (client_request 1))"
    using client_request_frame [of 1] by (auto simp: recv_ok_def SOCKET_RECV_BUFFER_LEN_def)
  then have recv: "list_all recv_ok ?evs"
    by (simp only: list_all_append list.pred_inject chunks_recv_ok simp_thms)
  have cl: "0 < c \<and> c \<noteq> 3 \<and> 4 \<le> length (hd (pieces_of c ?evs)) \<and> stream_of c ?evs = client_request (m_msgId (?prot c) + 1)"
    if "c \<in> fst ` set ?evs" for c
  proof -
    have "c = 5 \<or> c = 7" using that by auto
    then show ?thesis
    proof
      assume c: "c = 5"
      show ?thesis unfolding c stream_of_pieces p5 by (simp add: concat_chunks client_request_frame)
    next
      assume c: "c = 7"
      show ?thesis unfolding c stream_of_pieces p7 using hd_request_chunks [of 32767 2] by (simp add: concat_chunks)
    qed
  qed
  have "pieces_of 5 ?evs \<noteq> []" "pieces_of 7 ?evs \<noteq> []"
    unfolding p5 p7 using client_request_frame [of 2] concat_chunks [of 32768 "client_request 2"] by auto
  note in57 = sender [OF this(1)] sender [OF this(2)]
  from clients_served [OF small_alloc_facts(2) big small_alloc_facts(3) recv cl, of 77 1048592 4 0]
  obtain s where s: "s_recvs s = ?evs" "settled s"
    "\<forall>c \<in> fst ` set ?evs. wire (s_net s) c = response_bytes (m_msgId (?prot c) + 1) EAC_API1 (api_data 65)"
    by auto
  have "wire (s_net s) 5 = response_bytes 1 EAC_API1 (api_data 65)"
    "wire (s_net s) 7 = response_bytes 2 EAC_API1 (api_data 65)"
    using s(3) [rule_format, OF in57(1)] s(3) [rule_format, OF in57(2)] by simp_all
  with s(1,2) show ?thesis by blast
qed

end
